(* ===== verification/OSan_Prelude.thy ===== *)
theory OSan_Prelude
  imports Main "HOL-Library.Word" "HOL-Library.Sublist" "HOL-Library.State_Monad"
begin

text \<open>
  Shared vocabulary of the development: what the C sources use of the language and of its
  standard library, written as executable HOL functions, and the lemmas on lists, characters
  and machine words the components share.

  \<^item> A byte is a \<^typ>\<open>char\<close> (the type of C's \<^verbatim>\<open>char\<close>); \<open>byte c\<close> is its unsigned value
    and \<open>schar c\<close> the value of a signed \<^verbatim>\<open>char\<close>, as on x86.
  \<^item> A C string is the \<^typ>\<open>string\<close> of the bytes before its terminator. \<open>char_at s i\<close> is
    \<^verbatim>\<open>s[i]\<close> for \<^verbatim>\<open>i <= strlen(s)\<close>: at the terminator it is \<open>NUL\<close>. A fixed-size buffer is a
    string that may hold \<open>NUL\<close>s; \<open>cstr\<close> reads it as a C string.
  \<^item> The character classes are those of the C locale.
  \<^item> A function whose execution can have undefined behaviour (a read or a write outside an
    object) returns an \<open>'a cres\<close>.
\<close>

named_theorems cstr_simps "characters and C strings"
named_theorems ctype_defs "definitions of the character classes"

section \<open>Bytes and C strings\<close>

type_synonym u8 = "8 word"
type_synonym u32 = "32 word"

abbreviation NUL :: char where "NUL \<equiv> CHR 0x00"
abbreviation CR :: char where "CR \<equiv> CHR 0x0D"
abbreviation LF :: char where "LF \<equiv> CHR 0x0A"
abbreviation TAB :: char where "TAB \<equiv> CHR 0x09"
abbreviation CRLF :: string where "CRLF \<equiv> [CR, LF]"

abbreviation byte :: "char \<Rightarrow> nat" where "byte c \<equiv> of_char c"

definition schar :: "char \<Rightarrow> int" where
  "schar c = (if byte c < 128 then int (byte c) else int (byte c) - 256)"

definition cstr :: "string \<Rightarrow> string" where
  "cstr b = takeWhile (\<lambda>c. c \<noteq> NUL) b"

definition char_at :: "string \<Rightarrow> nat \<Rightarrow> char" where
  "char_at s i = (if i < length s then s ! i else NUL)"

text \<open>The bytes \<^verbatim>\<open>s[0], ..., s[n]\<close> of a C string, its terminator included when \<open>n\<close> is its length.\<close>

definition upto_index :: "string \<Rightarrow> nat \<Rightarrow> string" where
  "upto_index s n = take (Suc n) (s @ [NUL])"

datatype 'a cres = UB | Val 'a

section \<open>Character classes and comparisons of the C library\<close>

definition isdigit :: "char \<Rightarrow> bool" where
  "isdigit c \<longleftrightarrow> 48 \<le> byte c \<and> byte c \<le> 57"

definition isupper :: "char \<Rightarrow> bool" where
  "isupper c \<longleftrightarrow> 65 \<le> byte c \<and> byte c \<le> 90"

definition islower :: "char \<Rightarrow> bool" where
  "islower c \<longleftrightarrow> 97 \<le> byte c \<and> byte c \<le> 122"

definition isalpha :: "char \<Rightarrow> bool" where
  "isalpha c \<longleftrightarrow> isupper c \<or> islower c"

definition isalnum :: "char \<Rightarrow> bool" where
  "isalnum c \<longleftrightarrow> isalpha c \<or> isdigit c"

definition isxdigit :: "char \<Rightarrow> bool" where
  "isxdigit c \<longleftrightarrow> isdigit c \<or> (65 \<le> byte c \<and> byte c \<le> 70) \<or> (97 \<le> byte c \<and> byte c \<le> 102)"

definition isspace :: "char \<Rightarrow> bool" where
  "isspace c \<longleftrightarrow> byte c = 32 \<or> (9 \<le> byte c \<and> byte c \<le> 13)"

lemmas [ctype_defs] = isdigit_def isupper_def islower_def isalpha_def isalnum_def isxdigit_def
  isspace_def

definition tolower :: "char \<Rightarrow> char" where
  "tolower c = (if isupper c then char_of (byte c + 32) else c)"

text \<open>
  \<open>strcasecmp\<close> and \<open>strncasecmp\<close> are used for equality only: \<open>strcaseeq a b\<close> is
  \<^verbatim>\<open>!strcasecmp(a, b)\<close>, \<open>strncaseeq a b n\<close> is \<^verbatim>\<open>!strncasecmp(a, b, n)\<close>, \<open>strneq a b n\<close> is
  \<^verbatim>\<open>!strncmp(a, b, n)\<close>.
\<close>

definition strcaseeq :: "string \<Rightarrow> string \<Rightarrow> bool" where
  "strcaseeq a b \<longleftrightarrow> map tolower a = map tolower b"

definition strncaseeq :: "string \<Rightarrow> string \<Rightarrow> nat \<Rightarrow> bool" where
  "strncaseeq a b n \<longleftrightarrow> map tolower (take n a) = map tolower (take n b)"

definition strneq :: "string \<Rightarrow> string \<Rightarrow> nat \<Rightarrow> bool" where
  "strneq a b n \<longleftrightarrow> take n a = take n b"

text \<open>\<open>strchr s c\<close>: the index of the first \<open>c\<close> in \<open>s\<close>; \<open>strrchr\<close>: of the last one.\<close>

fun strchr :: "string \<Rightarrow> char \<Rightarrow> nat option" where
  "strchr [] c = None"
| "strchr (x # xs) c = (if x = c then Some 0 else map_option Suc (strchr xs c))"

fun strrchr :: "string \<Rightarrow> char \<Rightarrow> nat option" where
  "strrchr [] c = None"
| "strrchr (x # xs) c =
     (case strrchr xs c of Some i \<Rightarrow> Some (Suc i) | None \<Rightarrow> if x = c then Some 0 else None)"

text \<open>
  \<open>atoi\<close>: leading white space, an optional sign, decimal digits. The digits are read as a \<^verbatim>\<open>long\<close>,
  which stops at its bounds, and the \<^verbatim>\<open>int\<close> that is returned is its lower half, as the libraries of
  64-bit systems do it.
\<close>

fun digits_val :: "nat \<Rightarrow> string \<Rightarrow> nat" where
  "digits_val acc [] = acc"
| "digits_val acc (c # cs) =
     (if isdigit c then digits_val (acc * 10 + (byte c - 48)) cs else acc)"

definition strtol10 :: "string \<Rightarrow> int" where
  "strtol10 s = max (- (2 ^ 63)) (min (2 ^ 63 - 1) (case dropWhile isspace s of
      [] \<Rightarrow> 0
    | c # cs \<Rightarrow> if c = CHR ''-'' then - int (digits_val 0 cs)
               else if c = CHR ''+'' then int (digits_val 0 cs)
               else int (digits_val 0 (c # cs))))"

definition atoi :: "string \<Rightarrow> int" where
  "atoi s = (strtol10 s + 2 ^ 31) mod 2 ^ 32 - 2 ^ 31"

section \<open>Number formatting (printf conversions)\<close>

definition hexdigit_lower :: "nat \<Rightarrow> char" where
  "hexdigit_lower n = (if n < 10 then char_of (48 + n) else char_of (87 + n))"

definition hexdigit_upper :: "nat \<Rightarrow> char" where
  "hexdigit_upper n = (if n < 10 then char_of (48 + n) else char_of (55 + n))"

text \<open>\<open>num_str d b n\<close>: \<open>n\<close> in base \<open>b\<close>, most significant digit first, digits drawn by \<open>d\<close>.\<close>

function num_str :: "(nat \<Rightarrow> char) \<Rightarrow> nat \<Rightarrow> nat \<Rightarrow> string" where
  "num_str d b n = (if n < b \<or> b < 2 then [d n] else num_str d b (n div b) @ [d (n mod b)])"
  by pat_completeness auto
termination
  by (relation "measure (\<lambda>(d, b, n). n)") (auto intro: div_less_dividend)

declare num_str.simps [simp del]

definition fmt_dec :: "nat \<Rightarrow> string" where
  "fmt_dec n = num_str (\<lambda>k. char_of (48 + k)) 10 n"

definition fmt_int :: "int \<Rightarrow> string" where
  "fmt_int n = (if n < 0 then CHR ''-'' # fmt_dec (nat (- n)) else fmt_dec (nat n))"

definition fmt_hex :: "nat \<Rightarrow> string" where
  "fmt_hex n = num_str hexdigit_lower 16 n"

definition fmt_HEX :: "nat \<Rightarrow> string" where
  "fmt_HEX n = num_str hexdigit_upper 16 n"

text \<open>The \<open>%03i\<close> conversion.\<close>

definition fmt_int03 :: "int \<Rightarrow> string" where
  "fmt_int03 n = (let s = fmt_dec (nat (abs n)); sg = (if n < 0 then ''-'' else '''') in
     sg @ replicate (3 - length (sg @ s)) (CHR ''0'') @ s)"

section \<open>Lemmas shared by the components\<close>

lemma char_of_0 [simp]: "char_of (0::nat) = NUL"
  by (simp add: char_of_def)

lemma cstr_Nil [simp]: "cstr [] = []"
  by (simp add: cstr_def)

lemma cstr_Cons [simp]: "cstr (c # s) = (if c = NUL then [] else c # cstr s)"
  by (simp add: cstr_def)

lemma cstr_no_NUL: "NUL \<notin> set s \<Longrightarrow> cstr s = s"
  by (auto simp: cstr_def)

lemma cstr_append_NUL: "NUL \<notin> set s \<Longrightarrow> cstr (s @ NUL # t) = s"
  by (induction s) auto

lemma cstr_append: "cstr (s @ t) = (if NUL \<in> set s then cstr s else s @ cstr t)"
  by (induction s) auto

lemma NUL_notin_cstr [simp]: "NUL \<notin> set (cstr s)"
  by (auto simp: cstr_def dest: set_takeWhileD)

lemma cstr_idem [simp]: "cstr (cstr s) = cstr s"
  by (rule cstr_no_NUL) simp

lemma length_cstr_le: "length (cstr s) \<le> length s"
  by (simp add: cstr_def length_takeWhile_le)

lemma char_at_nth [simp]: "i < length s \<Longrightarrow> char_at s i = s ! i"
  by (simp add: char_at_def)

lemma char_at_end [simp]: "length s \<le> i \<Longrightarrow> char_at s i = NUL"
  by (simp add: char_at_def)

lemma char_at_0_Cons [simp]: "char_at (c # s) 0 = c"
  by (simp add: char_at_def)

lemma char_at_Suc_Cons [simp]: "char_at (c # s) (Suc i) = char_at s i"
  by (simp add: char_at_def)

lemma char_at_numeral_Cons [simp]:
  "char_at (c # s) (numeral n) = char_at s (pred_numeral n)"
  by (simp add: numeral_eq_Suc)

lemma char_at_in_set: "char_at s i \<noteq> NUL \<Longrightarrow> char_at s i \<in> set s"
  by (simp add: char_at_def split: if_splits)

lemma char_at_drop: "char_at (drop i s) k = char_at s (i + k)"
  by (simp add: char_at_def less_diff_conv add.commute)

lemma length_upto_index [simp]: "n \<le> length s \<Longrightarrow> length (upto_index s n) = Suc n"
  by (simp add: upto_index_def)

lemma upto_index_full [simp]: "upto_index s (length s) = s @ [NUL]"
  by (simp add: upto_index_def)

lemma upto_index_less: "n < length s \<Longrightarrow> upto_index s n = take (Suc n) s"
  by (simp add: upto_index_def)

lemma drop_upto_index:
  assumes "i \<le> n" and "n \<le> length s"
  shows "drop i (upto_index s n) = char_at s i # drop (Suc i) (upto_index s n)"
proof -
  have "i < length (upto_index s n)" using assms by simp
  then have "drop i (upto_index s n) = upto_index s n ! i # drop (Suc i) (upto_index s n)"
    by (rule Cons_nth_drop_Suc [symmetric])
  moreover have "upto_index s n ! i = char_at s i"
    using assms by (auto simp: upto_index_def char_at_def nth_append)
  ultimately show ?thesis by simp
qed

lemma strchr_None_iff: "strchr s c = None \<longleftrightarrow> c \<notin> set s"
  by (induction s) auto

lemma strchr_append_notin: "c \<notin> set s \<Longrightarrow> strchr (s @ c # t) c = Some (length s)"
  by (induction s) auto

lemma strchr_SomeD:
  "strchr s c = Some i \<Longrightarrow> i < length s \<and> s ! i = c \<and> c \<notin> set (take i s)"
  by (induction s arbitrary: i) (auto split: if_splits)

lemma strcaseeq_refl [simp]: "strcaseeq s s"
  by (simp add: strcaseeq_def)

lemma strcaseeq_sym: "strcaseeq a b \<longleftrightarrow> strcaseeq b a"
  by (auto simp: strcaseeq_def)

lemma num_str_not_Nil [simp]: "num_str d b n \<noteq> []"
  by (subst num_str.simps) simp

lemma length_num_str_le: "2 \<le> b \<Longrightarrow> n < b ^ k \<Longrightarrow> 0 < k \<Longrightarrow> length (num_str d b n) \<le> k"
proof (induction k arbitrary: n)
  case 0
  then show ?case by simp
next
  case (Suc k)
  show ?case
  proof (cases "n < b")
    case True
    then show ?thesis by (subst num_str.simps) simp
  next
    case False
    with Suc.prems have k: "0 < k" by (cases k) auto
    have "n div b < b ^ k"
      using Suc.prems by (simp add: less_mult_imp_div_less mult.commute)
    with Suc k have "length (num_str d b (n div b)) \<le> k" by simp
    with False Suc.prems(1) show ?thesis by (subst num_str.simps) simp
  qed
qed

lemma set_num_str: "2 \<le> b \<Longrightarrow> set (num_str d b n) \<subseteq> d ` {..<b}"
proof (induction n rule: less_induct)
  case (less n)
  show ?case
  proof (cases "n < b")
    case True
    then show ?thesis by (subst num_str.simps) simp
  next
    case False
    with less.prems have "n div b < n" by (auto intro: div_less_dividend)
    with less have "set (num_str d b (n div b)) \<subseteq> d ` {..<b}" by blast
    moreover have "n mod b < b" using less.prems by simp
    ultimately show ?thesis using False less.prems by (subst num_str.simps) auto
  qed
qed

text \<open>The blocks \<^verbatim>\<open>fgets()\<close> cuts a file into with room for \<open>n\<close> characters: up to a newline, or \<open>n\<close> characters.\<close>

definition fgets :: "nat \<Rightarrow> string \<Rightarrow> string \<times> string" where
  "fgets n s = (case strchr (take n s) LF of Some k \<Rightarrow> (take (Suc k) s, drop (Suc k) s) | None \<Rightarrow> (take n s, drop n s))"

function fgets_lines :: "nat \<Rightarrow> string \<Rightarrow> string list" where
  "fgets_lines n s = (if s = [] \<or> n = 0 then [] else let (l, r) = fgets n s in l # fgets_lines n r)"
  by pat_completeness auto
termination
proof (relation "measure (\<lambda>(n, s). length s)")
  fix n s x l r
  assume "\<not> (s = [] \<or> n = 0)" and "x = fgets n s" and "(l, r) = x"
  then have "\<exists>k. r = drop (Suc k) s"
    by (cases n) (auto simp: fgets_def split: option.splits)
  then show "((n, r), n, s) \<in> measure (\<lambda>(n, s). length s)"
    using \<open>\<not> (s = [] \<or> n = 0)\<close> by auto
qed simp

declare fgets_lines.simps [simp del]

end
