(* ===== verification/Uh_Codec.thy ===== *)
theory Uh_Codec
  imports OSan_Prelude
begin

text \<open>
  The byte-level routines of \<^verbatim>\<open>uhttpd-utils.c\<close>: the bounded substring search \<open>strfind\<close>, the URL
  decoder and encoder and the base64 decoder. A routine that fills a caller's buffer returns
  the list of the bytes it writes at \<^verbatim>\<open>buf[0], buf[1], ...\<close>; the \<^verbatim>\<open>int\<close> the C function returns
  is the length of that list, so a bound on the length is a bound on the writes.
\<close>

named_theorems codec_specs "what the codec routines compute, in terms of reference functions"

section \<open>strfind\<close>

text \<open>The inner loop over \<open>j\<close>: no mismatch between \<^verbatim>\<open>haystack[i+j]\<close> and \<^verbatim>\<open>needle[j]\<close>.\<close>

function strfind_cmp :: "string \<Rightarrow> nat \<Rightarrow> string \<Rightarrow> nat \<Rightarrow> nat \<Rightarrow> bool" where
  "strfind_cmp haystack hslen needle i j =
     (if j < length needle \<and> i + j < hslen
      then if haystack ! (i + j) \<noteq> needle ! j then False
           else strfind_cmp haystack hslen needle i (Suc j)
      else True)"
  by pat_completeness auto
termination
  by (relation "measure (\<lambda>(h, hs, n, i, j). length n - j)") auto

function strfind_at :: "string \<Rightarrow> nat \<Rightarrow> string \<Rightarrow> nat \<Rightarrow> nat option" where
  "strfind_at haystack hslen needle i =
     (if i < hslen
      then if haystack ! i = char_at needle 0 \<and>
              (length needle = 1 \<or> i + length needle \<le> hslen) \<and>
              strfind_cmp haystack hslen needle i 1
           then Some i
           else strfind_at haystack hslen needle (Suc i)
      else None)"
  by pat_completeness auto
termination
  by (relation "measure (\<lambda>(h, hs, n, i). hs - i)") auto

declare strfind_cmp.simps [simp del] strfind_at.simps [simp del]

text \<open>
  The result is the offset of the returned pointer; \<^verbatim>\<open>NULL\<close> is \<open>None\<close>. A negative length means
  that the loop is not entered.
\<close>

definition strfind :: "string \<Rightarrow> int \<Rightarrow> string \<Rightarrow> nat option" where
  "strfind haystack hslen needle = strfind_at haystack (nat hslen) needle 0"

section \<open>URL decoding and encoding\<close>

text \<open>The macro \<^verbatim>\<open>hex(x)\<close>.\<close>

definition hex :: "char \<Rightarrow> nat" where
  "hex x = (if byte x \<le> byte (CHR ''9'') then byte x - byte (CHR ''0'')
            else if byte x \<le> byte (CHR ''F'') then byte x - byte (CHR ''A'') + 10
            else byte x - byte (CHR ''a'') + 10)"

function uh_urldecode_from :: "nat \<Rightarrow> string \<Rightarrow> nat \<Rightarrow> nat \<Rightarrow> string" where
  "uh_urldecode_from blen src slen i =
     (if i \<le> slen \<and> i \<le> blen
      then if char_at src i = CHR ''%''
           then if i + 2 \<le> slen \<and> isxdigit (char_at src (i + 1)) \<and> isxdigit (char_at src (i + 2))
                then char_of (16 * hex (char_at src (i + 1)) + hex (char_at src (i + 2)))
                       # uh_urldecode_from blen src slen (i + 3)
                else CHR ''%'' # uh_urldecode_from blen src slen (i + 1)
           else char_at src i # uh_urldecode_from blen src slen (i + 1)
      else [])"
  by pat_completeness auto
termination
  by (relation "measure (\<lambda>(blen, src, slen, i). Suc slen - i)") auto

declare uh_urldecode_from.simps [simp del]

definition uh_urldecode :: "nat \<Rightarrow> string \<Rightarrow> nat \<Rightarrow> string" where
  "uh_urldecode blen src slen = uh_urldecode_from blen src slen 0"

definition url_unreserved :: "char \<Rightarrow> bool" where
  "url_unreserved c \<longleftrightarrow> isalnum c \<or> c = CHR ''-'' \<or> c = CHR ''_'' \<or> c = CHR ''.'' \<or> c = CHR ''~''"

function uh_urlencode_from :: "nat \<Rightarrow> string \<Rightarrow> nat \<Rightarrow> nat \<Rightarrow> nat \<Rightarrow> string" where
  "uh_urlencode_from blen src slen i len =
     (if i \<le> slen \<and> i \<le> blen
      then if url_unreserved (char_at src i)
           then char_at src i # uh_urlencode_from blen src slen (i + 1) (len + 1)
           else if len + 3 \<le> blen
           then CHR ''%'' # hexdigit_lower (byte (char_at src i) div 16)
                  # hexdigit_lower (byte (char_at src i) mod 16)
                  # uh_urlencode_from blen src slen (i + 1) (len + 3)
           else []
      else [])"
  by pat_completeness auto
termination
  by (relation "measure (\<lambda>(blen, src, slen, i, len). Suc slen - i)") auto

declare uh_urlencode_from.simps [simp del]

definition uh_urlencode :: "nat \<Rightarrow> string \<Rightarrow> nat \<Rightarrow> string" where
  "uh_urlencode blen src slen = uh_urlencode_from blen src slen 0 0"

section \<open>Base64 decoding\<close>

text \<open>The sextet of a base64 character; \<open>None\<close> where the loop continues with the next one.\<close>

definition b64_sextet :: "char \<Rightarrow> u32 option" where
  "b64_sextet c =
     (let cin = byte c in
      if 48 \<le> cin \<and> cin \<le> 57 then Some (of_nat (cin - 48 + 52))
      else if 65 \<le> cin \<and> cin \<le> 90 then Some (of_nat (cin - 65))
      else if 97 \<le> cin \<and> cin \<le> 122 then Some (of_nat (cin - 97 + 26))
      else if c = CHR ''+'' then Some 62
      else if c = CHR ''/'' then Some 63
      else if c = CHR ''='' then Some 0
      else None)"

definition low_char :: "u32 \<Rightarrow> char" where
  "low_char w = char_of (unat w)"

function uh_b64decode_from :: "nat \<Rightarrow> string \<Rightarrow> nat \<Rightarrow> nat \<Rightarrow> u32 \<Rightarrow> nat \<Rightarrow> string" where
  "uh_b64decode_from blen src slen i cout len =
     (if i \<le> slen \<and> char_at src i \<noteq> NUL
      then case b64_sextet (char_at src i) of
             None \<Rightarrow> uh_b64decode_from blen src slen (Suc i) cout len
           | Some cin \<Rightarrow>
               (let cout' = or (push_bit 6 cout) cin in
                if i mod 4 = 3
                then if len + 3 < blen
                     then low_char (drop_bit 16 cout') # low_char (drop_bit 8 cout')
                            # low_char cout'
                            # uh_b64decode_from blen src slen (Suc i) cout' (len + 3)
                     else []
                else uh_b64decode_from blen src slen (Suc i) cout' len)
      else [])"
  by pat_completeness auto
termination
  by (relation "measure (\<lambda>(blen, src, slen, i, cout, len). Suc slen - i)") auto

declare uh_b64decode_from.simps [simp del]

definition uh_b64decode :: "nat \<Rightarrow> string \<Rightarrow> nat \<Rightarrow> string" where
  "uh_b64decode blen src slen = uh_b64decode_from blen src slen 0 0 0 @ [NUL]"

section \<open>Substring search: contract and correctness\<close>

text \<open>
  The contract the parsers rely on: the search returns the first occurrence, or nothing when
  there is none.
\<close>

definition occurs_at :: "string \<Rightarrow> string \<Rightarrow> nat \<Rightarrow> bool" where
  "occurs_at h n i \<longleftrightarrow> prefix n (drop i h)"

locale first_occurrence =
  fixes find :: "string \<Rightarrow> string \<Rightarrow> nat option"
  assumes find_Some: "n \<noteq> [] \<Longrightarrow> find h n = Some i \<Longrightarrow> occurs_at h n i \<and> (\<forall>j<i. \<not> occurs_at h n j)"
    and find_None: "n \<noteq> [] \<Longrightarrow> find h n = None \<Longrightarrow> \<not> occurs_at h n j"
begin

lemma find_split:
  assumes "n \<noteq> []" and "find h n = Some i"
  shows "h = take i h @ n @ drop (i + length n) h" and "i + length n \<le> length h"
proof -
  from find_Some [OF assms] have p: "prefix n (drop i h)" by (simp add: occurs_at_def)
  then obtain r where r: "drop i h = n @ r" by (auto elim: prefixE)
  then have "drop (i + length n) h = r" by (metis add.commute append_eq_conv_conj drop_drop)
  with r show "h = take i h @ n @ drop (i + length n) h" by (metis append_take_drop_id)
  from r have "length n \<le> length h - i" by (metis le_add1 length_append length_drop)
  with assms(1) show "i + length n \<le> length h" by (cases n) auto
qed

lemma find_first:
  assumes "n \<noteq> []" and "occurs_at h n i" and "\<And>j. j < i \<Longrightarrow> \<not> occurs_at h n j"
  shows "find h n = Some i"
proof (cases "find h n")
  case None
  with find_None [OF assms(1)] assms(2) show ?thesis by blast
next
  case (Some k)
  with find_Some [OF assms(1)] have "occurs_at h n k" "\<And>j. j < k \<Longrightarrow> \<not> occurs_at h n j" by auto
  with assms(2,3) have "k = i" by (meson linorder_neqE_nat)
  with Some show ?thesis by simp
qed

lemma find_Nil [simp]: "n \<noteq> [] \<Longrightarrow> find [] n = None"
  using find_split(2) [of n "[]"] by (cases "find [] n") auto

end

lemma strfind_cmp_iff:
  "hslen \<le> length h \<Longrightarrow> i + length n \<le> hslen \<Longrightarrow>
     strfind_cmp h hslen n i j \<longleftrightarrow> (\<forall>k. j \<le> k \<and> k < length n \<longrightarrow> h ! (i + k) = n ! k)"
proof (induction h hslen n i j rule: strfind_cmp.induct)
  case (1 h hslen n i j)
  show ?case
  proof (cases "j < length n \<and> h ! (i + j) = n ! j")
    case True
    with 1 have "strfind_cmp h hslen n i (Suc j) \<longleftrightarrow>
        (\<forall>k. Suc j \<le> k \<and> k < length n \<longrightarrow> h ! (i + k) = n ! k)" by simp
    moreover have "strfind_cmp h hslen n i j = strfind_cmp h hslen n i (Suc j)"
      using True 1 by (simp add: strfind_cmp.simps [of h hslen n i j])
    ultimately show ?thesis using True by (metis Suc_leI le_neq_implies_less Suc_leD)
  next
    case False
    with 1 show ?thesis by (auto simp: strfind_cmp.simps [of h hslen n i j])
  qed
qed

lemma prefix_drop_iff:
  "prefix n (drop i h) \<longleftrightarrow> (n = [] \<or> i + length n \<le> length h) \<and> (\<forall>k<length n. h ! (i + k) = n ! k)"
proof -
  have "prefix n (drop i h) \<longleftrightarrow> take (length n) (drop i h) = n"
    by (metis append_eq_conv_conj prefix_def take_is_prefix)
  also have "\<dots> \<longleftrightarrow> length n \<le> length h - i \<and> (\<forall>k<length n. h ! (i + k) = n ! k)"
    by (auto simp: list_eq_iff_nth_eq)
  also have "length n \<le> length h - i \<longleftrightarrow> n = [] \<or> i + length n \<le> length h"
    by (cases n) auto
  finally show ?thesis .
qed

lemma strfind_match_iff:
  assumes "hslen \<le> length h" and "n \<noteq> []" and "i < hslen"
  shows "h ! i = char_at n 0 \<and> (length n = 1 \<or> i + length n \<le> hslen) \<and> strfind_cmp h hslen n i 1
     \<longleftrightarrow> prefix n (drop i (take hslen h))"
proof (cases "i + length n \<le> hslen")
  case True
  have "(\<forall>k<length n. h ! (i + k) = n ! k) \<longleftrightarrow>
      h ! i = n ! 0 \<and> (\<forall>k. 1 \<le> k \<and> k < length n \<longrightarrow> h ! (i + k) = n ! k)"
    using assms(2) by (metis One_nat_def Suc_leI add.right_neutral length_greater_0_conv
        neq0_conv)
  with True assms show ?thesis
    by (auto simp: prefix_drop_iff strfind_cmp_iff)
next
  case False
  with assms show ?thesis
    by (cases n) (auto simp: prefix_drop_iff)
qed

lemma strfind_at_spec:
  assumes "hslen \<le> length h" and "n \<noteq> []"
  shows "case strfind_at h hslen n i of
           Some k \<Rightarrow> i \<le> k \<and> occurs_at (take hslen h) n k \<and>
                     (\<forall>j. i \<le> j \<and> j < k \<longrightarrow> \<not> occurs_at (take hslen h) n j)
         | None \<Rightarrow> (\<forall>j\<ge>i. \<not> occurs_at (take hslen h) n j)"
  using assms
proof (induction h hslen n i rule: strfind_at.induct)
  case (1 h hslen n i)
  show ?case
  proof (cases "i < hslen")
    case False
    with 1 show ?thesis
      by (simp add: strfind_at.simps [of h hslen n i] occurs_at_def)
  next
    case True
    note m = strfind_match_iff [OF "1.prems" True]
    show ?thesis
    proof (cases "prefix n (drop i (take hslen h))")
      case hit: True
      with m True have "strfind_at h hslen n i = Some i" by (subst strfind_at.simps) simp
      with hit show ?thesis by (auto simp: occurs_at_def)
    next
      case miss: False
      with m True have eq: "strfind_at h hslen n i = strfind_at h hslen n (Suc i)"
        by (subst strfind_at.simps) auto
      have nm: "\<not> (h ! i = char_at n 0 \<and> (length n = 1 \<or> i + length n \<le> hslen) \<and>
          strfind_cmp h hslen n i 1)" using miss m by blast
      note IH = "1.IH" [OF True nm "1.prems"]
      have step: "i \<le> j \<longleftrightarrow> j = i \<or> Suc i \<le> j" for j by auto
      show ?thesis
        using IH miss unfolding eq step
        by (auto simp: occurs_at_def split: option.splits)
    qed
  qed
qed

interpretation uh_search: first_occurrence "\<lambda>h n. strfind h (int (length h)) n"
proof unfold_locales
  fix n h i
  assume "n \<noteq> []" and "strfind h (int (length h)) n = Some i"
  then show "occurs_at h n i \<and> (\<forall>j<i. \<not> occurs_at h n j)"
    using strfind_at_spec [of "length h" h n 0] by (simp add: strfind_def)
next
  fix n h j
  assume "n \<noteq> []" and "strfind h (int (length h)) n = None"
  then show "\<not> occurs_at h n j"
    using strfind_at_spec [of "length h" h n 0] by (simp add: strfind_def)
qed

lemma strfind_take:
  assumes "n \<noteq> []" and "nat hslen \<le> length h"
  shows "strfind h hslen n = strfind (take (nat hslen) h) (int (length (take (nat hslen) h))) n"
proof (cases "strfind h hslen n")
  case None
  with strfind_at_spec [OF assms(2,1), of 0] have "\<not> occurs_at (take (nat hslen) h) n j" for j
    by (simp add: strfind_def)
  then show ?thesis
    using None uh_search.find_Some [OF assms(1), of "take (nat hslen) h"] by fastforce
next
  case (Some k)
  with strfind_at_spec [OF assms(2,1), of 0] have
    "occurs_at (take (nat hslen) h) n k" "\<And>j. j < k \<Longrightarrow> \<not> occurs_at (take (nat hslen) h) n j"
    by (auto simp: strfind_def)
  with assms(1) have
    "strfind (take (nat hslen) h) (int (length (take (nat hslen) h))) n = Some k"
    by (rule uh_search.find_first)
  with Some show ?thesis by (rule trans [OF _ sym])
qed

section \<open>Percent coding: reference functions and equivalence\<close>

text \<open>The percent decoding of a whole string, and its inverse.\<close>

fun percent_decode :: "string \<Rightarrow> string" where
  "percent_decode [] = []"
| "percent_decode [c] = [c]"
| "percent_decode [c, d] = c # percent_decode [d]"
| "percent_decode (c # a # b # r) =
     (if c = CHR ''%'' \<and> isxdigit a \<and> isxdigit b
      then char_of (16 * hex a + hex b) # percent_decode r
      else c # percent_decode (a # b # r))"

fun percent_encode :: "string \<Rightarrow> string" where
  "percent_encode [] = []"
| "percent_encode (c # r) =
     (if url_unreserved c then c # percent_encode r
      else CHR ''%'' # hexdigit_lower (byte c div 16) # hexdigit_lower (byte c mod 16)
             # percent_encode r)"

lemma percent_decode_plain:
  "c \<noteq> CHR ''%'' \<Longrightarrow> percent_decode (c # r) = c # percent_decode r"
  by (cases r rule: percent_decode.cases) auto

lemma percent_decode_escape:
  "percent_decode (CHR ''%'' # r) =
     (case r of a # b # r' \<Rightarrow> if isxdigit a \<and> isxdigit b
                             then char_of (16 * hex a + hex b) # percent_decode r'
                             else CHR ''%'' # percent_decode r
      | _ \<Rightarrow> CHR ''%'' # percent_decode r)"
  by (cases r rule: percent_decode.cases) auto

lemma length_percent_decode: "length (percent_decode s) \<le> length s"
  by (induction s rule: percent_decode.induct) auto

lemma isxdigit_NUL [simp]: "\<not> isxdigit NUL"
  by (simp add: ctype_defs)

lemma percent_decode_snoc_NUL: "percent_decode (s @ [NUL]) = percent_decode s @ [NUL]"
proof (induction s rule: percent_decode.induct)
  case (3 c d)
  then show ?case by (cases "c = CHR ''%''") auto
qed auto

lemma hexdigit_lower_values:
  "n < 16 \<Longrightarrow> isxdigit (hexdigit_lower n) \<and> hex (hexdigit_lower n) = n"
  by (auto simp: hexdigit_lower_def hex_def ctype_defs)

lemma percent_decode_encode: "percent_decode (percent_encode s @ t) = s @ percent_decode t"
proof (induction s)
  case (Cons c s)
  show ?case
  proof (cases "url_unreserved c")
    case True
    then have "c \<noteq> CHR ''%''" by (auto simp: url_unreserved_def ctype_defs)
    with True Cons show ?thesis by (simp add: percent_decode_plain)
  next
    case False
    have "byte c div 16 < 16" by (simp add: less_mult_imp_div_less)
    then show ?thesis using False Cons by (simp add: hexdigit_lower_values)
  qed
qed simp

lemma uh_urldecode_from_eq:
  assumes "slen \<le> blen" and "slen \<le> length src"
  shows "uh_urldecode_from blen src slen i =
    percent_decode (drop i (upto_index src slen))"
  using assms
proof (induction blen src slen i rule: uh_urldecode_from.induct)
  case (1 blen src slen i)
  let ?t = "upto_index src slen"
  show ?case
  proof (cases "i \<le> slen")
    case False
    with "1.prems" show ?thesis by (subst uh_urldecode_from.simps) simp
  next
    case i: True
    note d = drop_upto_index [OF _ "1.prems"(2)]
    show ?thesis
    proof (cases "char_at src i = CHR ''%''")
      case False
      with 1 i show ?thesis
        by (subst uh_urldecode_from.simps) (simp add: d percent_decode_plain)
    next
      case pct: True
      show ?thesis
      proof (cases "i + 2 \<le> slen")
        case True
        with 1 i pct show ?thesis
          by (subst uh_urldecode_from.simps)
            (simp add: d percent_decode_escape numeral_3_eq_3)
      next
        case False
        then have "drop (Suc i) ?t = [] \<or> (\<exists>a. drop (Suc i) ?t = [a])"
          using i "1.prems" d [of "Suc i"] by (cases "Suc i \<le> slen") auto
        with False 1 i pct show ?thesis
          by (subst uh_urldecode_from.simps) (auto simp: d percent_decode_escape)
      qed
    qed
  qed
qed

lemma uh_urldecode_eq [codec_specs]:
  "slen \<le> blen \<Longrightarrow> slen \<le> length src \<Longrightarrow>
     uh_urldecode blen src slen = percent_decode (upto_index src slen)"
  by (simp add: uh_urldecode_def uh_urldecode_from_eq)

lemma uh_urldecode_length: "length (uh_urldecode blen src slen) \<le> Suc (min slen blen)"
proof -
  have "length (uh_urldecode_from blen src slen i) \<le> Suc (min slen blen) - i" for i
  proof (induction blen src slen i rule: uh_urldecode_from.induct)
    case (1 blen src slen i)
    then show ?case by (subst uh_urldecode_from.simps) (auto simp: Suc_diff_le)
  qed
  from this [of 0] show ?thesis by (simp add: uh_urldecode_def)
qed

lemma uh_urlencode_from_eq:
  assumes "slen \<le> length src" and "len + 3 * (Suc slen - i) \<le> blen" and "i \<le> Suc slen"
    and "i \<le> len"
  shows "uh_urlencode_from blen src slen i len =
    percent_encode (drop i (upto_index src slen))"
  using assms
proof (induction blen src slen i len rule: uh_urlencode_from.induct)
  case (1 blen src slen i len)
  show ?case
  proof (cases "i \<le> slen")
    case False
    with "1.prems" show ?thesis by (subst uh_urlencode_from.simps) simp
  next
    case True
    then have "i \<le> blen" "len + 3 \<le> blen" using "1.prems" by auto
    with 1 True show ?thesis
      by (subst uh_urlencode_from.simps) (auto simp: drop_upto_index Suc_diff_le)
  qed
qed

lemma uh_urlencode_eq [codec_specs]:
  "slen \<le> length src \<Longrightarrow> 3 * Suc slen \<le> blen \<Longrightarrow>
     uh_urlencode blen src slen = percent_encode (upto_index src slen)"
  by (simp add: uh_urlencode_def uh_urlencode_from_eq)

section \<open>Base64: reference encoder and round trip\<close>

text \<open>The base64 encoding of RFC 4648, with padding.\<close>

definition b64_char :: "nat \<Rightarrow> char" where
  "b64_char n = (if n < 26 then char_of (65 + n) else if n < 52 then char_of (71 + n)
     else if n < 62 then char_of (n - 4) else if n = 62 then CHR ''+'' else CHR ''/'')"

definition b64_group :: "nat \<Rightarrow> nat \<Rightarrow> nat \<Rightarrow> string" where
  "b64_group a b c = [b64_char (a div 4), b64_char (a mod 4 * 16 + b div 16),
     b64_char (b mod 16 * 4 + c div 64), b64_char (c mod 64)]"

fun b64_encode :: "string \<Rightarrow> string" where
  "b64_encode [] = []"
| "b64_encode [a] = take 2 (b64_group (byte a) 0 0) @ ''==''"
| "b64_encode [a, b] = take 3 (b64_group (byte a) (byte b) 0) @ ''=''"
| "b64_encode (a # b # c # r) = b64_group (byte a) (byte b) (byte c) @ b64_encode r"

text \<open>The zero bytes the padding characters decode to.\<close>

fun b64_pad :: "string \<Rightarrow> string" where
  "b64_pad [] = []"
| "b64_pad [a] = [NUL, NUL]"
| "b64_pad [a, b] = [NUL]"
| "b64_pad (a # b # c # r) = b64_pad r"

definition b64_room :: "string \<Rightarrow> nat" where
  "b64_room s = 3 * ((length s + 2) div 3)"

lemma b64_sextet_char: "n < 64 \<Longrightarrow> b64_sextet (b64_char n) = Some (of_nat n)"
proof -
  assume "n < 64"
  then consider "n < 62" | "n = 62" | "n = 63" by linarith
  then show ?thesis by cases (auto simp: b64_sextet_def b64_char_def Let_def)
qed

lemma b64_char_not_NUL: "n < 64 \<Longrightarrow> b64_char n \<noteq> NUL"
proof -
  assume "n < 64"
  moreover have "b64_sextet NUL = None" by (simp add: b64_sextet_def)
  ultimately show ?thesis using b64_sextet_char by force
qed

lemma b64_sextet_pad: "b64_sextet (CHR ''='') = Some (of_nat 0)"
  by (simp add: b64_sextet_def)

text \<open>One shift of the accumulator, as arithmetic on its low 24 bits.\<close>

lemma unat_push6_or:
  assumes "v < 64"
  shows "unat (or (push_bit 6 (w::u32)) (of_nat v)) mod 2 ^ 24 = (unat w * 64 + v) mod 2 ^ 24"
proof -
  have v: "unat (of_nat v :: u32) = v" using assms by (simp add: unat_of_nat take_bit_nat_eq_self)
  have "or (push_bit 6 w) (of_nat v) = push_bit 6 w + (of_nat v :: u32)"
  proof (rule disjunctive_add [symmetric])
    fix n
    show "\<not> bit (push_bit 6 w) n \<or> \<not> bit (of_nat v :: u32) n"
    proof (cases "n < 6")
      case True
      then show ?thesis by (simp add: bit_push_bit_iff)
    next
      case False
      then have "(2::nat) ^ 6 \<le> 2 ^ n" using power_increasing [of 6 n "2::nat"] by simp
      with assms have "v < 2 ^ n" by simp
      then have "\<not> bit v n" by (simp add: bit_iff_odd)
      then show ?thesis by (simp add: bit_of_nat_iff)
    qed
  qed
  moreover have "unat (push_bit 6 w + (of_nat v :: u32)) = (unat w * 64 + v) mod 2 ^ 32"
    by (simp add: unat_word_ariths v push_bit_eq_mult mult.commute mod_simps)
  moreover have "(2::nat) ^ 24 dvd 2 ^ 32" by (simp add: le_imp_power_dvd)
  ultimately show ?thesis by (simp add: mod_mod_cancel)
qed

lemma unat_push6_or_cong:
  assumes "unat (w::u32) mod 2 ^ 24 = y mod 2 ^ 24" and "v < 64"
  shows "unat (or (push_bit 6 w) (of_nat v)) mod 2 ^ 24 = (y * 64 + v) mod 2 ^ 24"
  using unat_push6_or [OF assms(2)] assms(1) by (metis mod_add_left_eq mod_mult_left_eq)

definition b64_shift4 :: "u32 \<Rightarrow> nat \<Rightarrow> nat \<Rightarrow> nat \<Rightarrow> nat \<Rightarrow> u32" where
  "b64_shift4 w p q r s = or (push_bit 6 (or (push_bit 6 (or (push_bit 6
     (or (push_bit 6 w) (of_nat p))) (of_nat q))) (of_nat r))) (of_nat s)"

lemma unat_b64_shift4:
  assumes "p < 64" "q < 64" "r < 64" "s < 64"
  shows "unat (b64_shift4 w p q r s) mod 2 ^ 24 = ((p * 64 + q) * 64 + r) * 64 + s"
proof -
  have "unat (b64_shift4 w p q r s) mod 2 ^ 24 =
      ((((unat w * 64 + p) * 64 + q) * 64 + r) * 64 + s) mod 2 ^ 24"
    unfolding b64_shift4_def by (intro unat_push6_or_cong assms refl)
  also have "\<dots> = (((p * 64 + q) * 64 + r) * 64 + s + unat w * 2 ^ 24) mod 2 ^ 24"
    by (simp add: algebra_simps)
  also have "\<dots> = ((p * 64 + q) * 64 + r) * 64 + s"
    using assms by simp
  finally show ?thesis .
qed

text \<open>The three bytes a group of four sextets yields.\<close>

lemma low_char_drop:
  "low_char (drop_bit 16 w) = char_of (unat w mod 2 ^ 24 div 65536)"
  "low_char (drop_bit 8 w) = char_of (unat w mod 2 ^ 24 div 256)"
  "low_char w = char_of (unat w mod 2 ^ 24)"
proof -
  have m: "char_of (x mod (256 * m)) = char_of (x::nat)" for x m
    using char_of_mod_256 [of "x mod (256 * m)"] char_of_mod_256 [of x] mod_mod_cancel [of 256 "256 * m" x]
    by simp
  show "low_char w = char_of (unat w mod 2 ^ 24)" unfolding low_char_def using m [of "unat w" 65536] by simp
  have "n mod 2 ^ 24 div 65536 = n div 65536 mod 2 ^ 8" "n mod 2 ^ 24 div 256 = n div 256 mod 2 ^ 16"
    for n :: nat
    subgoal using mod_mult2_eq [of n 65536 "2 ^ 8"] by simp
    subgoal using mod_mult2_eq [of n 256 "2 ^ 16"] by simp
    done
  then show "low_char (drop_bit 16 w) = char_of (unat w mod 2 ^ 24 div 65536)"
    "low_char (drop_bit 8 w) = char_of (unat w mod 2 ^ 24 div 256)"
    using m [of "unat w div 65536" 1] m [of "unat w div 256" 256]
    by (simp_all add: low_char_def unat_drop_bit_eq drop_bit_eq_div unat_div)
qed

lemma uh_b64decode_step:
  assumes "i \<le> slen" and "b64_sextet (char_at src i) = Some cin"
  shows "i mod 4 \<noteq> 3 \<Longrightarrow> uh_b64decode_from blen src slen i cout len =
      uh_b64decode_from blen src slen (Suc i) (or (push_bit 6 cout) cin) len"
    and "i mod 4 = 3 \<Longrightarrow> len + 3 < blen \<Longrightarrow> uh_b64decode_from blen src slen i cout len =
      (let w = or (push_bit 6 cout) cin in
       low_char (drop_bit 16 w) # low_char (drop_bit 8 w) # low_char w
         # uh_b64decode_from blen src slen (Suc i) w (len + 3))"
proof -
  have "char_at src i \<noteq> NUL" using assms(2) by (auto simp: b64_sextet_def)
  with assms show "i mod 4 \<noteq> 3 \<Longrightarrow> uh_b64decode_from blen src slen i cout len =
      uh_b64decode_from blen src slen (Suc i) (or (push_bit 6 cout) cin) len"
    and "i mod 4 = 3 \<Longrightarrow> len + 3 < blen \<Longrightarrow> uh_b64decode_from blen src slen i cout len =
      (let w = or (push_bit 6 cout) cin in
       low_char (drop_bit 16 w) # low_char (drop_bit 8 w) # low_char w
         # uh_b64decode_from blen src slen (Suc i) w (len + 3))"
    by (simp_all add: uh_b64decode_from.simps [of blen src slen i] Let_def)
qed

lemma uh_b64decode_group:
  assumes src: "drop i src = xa # xb # xc # xd # rest" and i: "i mod 4 = 0" "i + 4 \<le> slen"
    and x: "b64_sextet xa = Some (of_nat p)" "b64_sextet xb = Some (of_nat q)"
      "b64_sextet xc = Some (of_nat r)" "b64_sextet xd = Some (of_nat s)"
    and room: "len + 3 < blen"
  shows "uh_b64decode_from blen src slen i cout len =
    (let w = b64_shift4 cout p q r s in
     low_char (drop_bit 16 w) # low_char (drop_bit 8 w) # low_char w
       # uh_b64decode_from blen src slen (i + 4) w (len + 3))"
proof -
  have at: "char_at src (i + k) = char_at (xa # xb # xc # xd # rest) k" for k
    using src char_at_drop by metis
  have c: "char_at src i = xa" "char_at src (Suc i) = xb" "char_at src (Suc (Suc i)) = xc"
    "char_at src (Suc (Suc (Suc i))) = xd"
    using at [of 0] at [of 1] at [of 2] at [of 3] by (simp_all add: numeral_eq_Suc)
  have m: "Suc i mod 4 = 1" "Suc (Suc i) mod 4 = 2" "Suc (Suc (Suc i)) mod 4 = 3"
    using i by presburger+
  have e: "i + 4 = Suc (Suc (Suc (Suc i)))" by simp
  with i x room c m show ?thesis unfolding e
    by (simp add: uh_b64decode_step [of i] uh_b64decode_step [of "Suc i"]
        uh_b64decode_step [of "Suc (Suc i)"] uh_b64decode_step [of "Suc (Suc (Suc i))"]
        b64_shift4_def)
qed

text \<open>A group of three bytes comes back.\<close>

lemma b64_sextets:
  assumes "a < 256" "b < 256" "c < 256"
  shows "a div 4 < 64" "a mod 4 * 16 + b div 16 < 64" "b mod 16 * 4 + c div 64 < 64" "c mod 64 < (64::nat)"
  using assms by auto

lemma b64_recompose:
  fixes a b c :: nat
  shows "((a div 4 * 64 + (a mod 4 * 16 + b div 16)) * 64 + (b mod 16 * 4 + c div 64)) * 64 + c mod 64
    = (a * 256 + b) * 256 + c"
proof -
  have "((p * 64 + (q * 16 + r)) * 64 + (s * 4 + t)) * 64 + u =
      ((p * 4 + q) * 256 + (r * 16 + s)) * 256 + (t * 64 + u)" for p q r s t u :: nat
    by (simp add: algebra_simps)
  then show ?thesis by (simp only: div_mult_mod_eq)
qed

lemma low_char_shift4:
  assumes "a < 256" "b < 256" "c < 256"
    and w: "w = b64_shift4 w0 (a div 4) (a mod 4 * 16 + b div 16) (b mod 16 * 4 + c div 64) (c mod 64)"
  shows "low_char (drop_bit 16 w) = char_of a \<and> low_char (drop_bit 8 w) = char_of b \<and>
    low_char w = char_of c"
proof -
  have "unat w mod 2 ^ 24 = (a * 256 + b) * 256 + c"
    unfolding w using unat_b64_shift4 [OF b64_sextets [OF assms(1-3)]] b64_recompose assms by simp
  moreover have "((a * 256 + b) * 256 + c) div 65536 = a" "((a * 256 + b) * 256 + c) div 256 = a * 256 + b"
    using assms(2,3) by simp_all
  moreover have "char_of (a * 256 + b) = char_of b" "char_of ((a * 256 + b) * 256 + c) = char_of c"
    using char_of_mod_256 by (metis mod_mult_self3)+
  ultimately show ?thesis using low_char_drop(3) [of w] by (simp add: low_char_drop(1,2))
qed

lemma b64_group_sextets:
  assumes "a < 256" "b < 256" "c < 256"
  shows "list_all2 (\<lambda>x v. b64_sextet x = Some (of_nat v)) (b64_group a b c)
    [a div 4, a mod 4 * 16 + b div 16, b mod 16 * 4 + c div 64, c mod 64]"
  using b64_sextets [OF assms] by (simp add: b64_group_def b64_sextet_char)

lemma uh_b64decode_three:
  assumes "drop i src = xa # xb # xc # xd # rest" and "i mod 4 = 0" and "i + 4 \<le> slen"
    and "len + 3 < blen" and abc: "a < 256" "b < 256" "c < 256"
    and "list_all2 (\<lambda>x v. b64_sextet x = Some (of_nat v)) [xa, xb, xc, xd]
      [a div 4, a mod 4 * 16 + b div 16, b mod 16 * 4 + c div 64, c mod 64]"
  shows "\<exists>w. uh_b64decode_from blen src slen i cout len =
    char_of a # char_of b # char_of c # uh_b64decode_from blen src slen (i + 4) w (len + 3)"
proof -
  define w where
    "w = b64_shift4 cout (a div 4) (a mod 4 * 16 + b div 16) (b mod 16 * 4 + c div 64) (c mod 64)"
  have "uh_b64decode_from blen src slen i cout len =
     low_char (drop_bit 16 w) # low_char (drop_bit 8 w) # low_char w
       # uh_b64decode_from blen src slen (i + 4) w (len + 3)"
    using assms(8) uh_b64decode_group [OF assms(1-3) _ _ _ _ assms(4)]
    by (simp add: w_def Let_def)
  with low_char_shift4 [OF abc w_def] show ?thesis by metis
qed

lemma uh_b64decode_from_end: "length src \<le> i \<Longrightarrow> uh_b64decode_from blen src slen i cout len = []"
  by (subst uh_b64decode_from.simps) simp

lemma uh_b64decode_from_encode:
  assumes "drop i src = b64_encode s" and "i mod 4 = 0" and "i + length (b64_encode s) \<le> slen"
    and "len + b64_room s < blen"
  shows "uh_b64decode_from blen src slen i cout len = s @ b64_pad s"
  using assms
proof (induction s arbitrary: i cout len rule: b64_encode.induct)
  case 1
  then show ?case by (simp add: uh_b64decode_from_end)
next
  case (2 a)
  note g = b64_group_sextets [of "byte a" 0 0]
  have "\<exists>w. uh_b64decode_from blen src slen i cout len =
    char_of (byte a) # char_of (0::nat) # char_of (0::nat) # uh_b64decode_from blen src slen (i + 4) w (len + 3)"
    by (rule uh_b64decode_three [where xa = "b64_char (byte a div 4)"
          and xb = "b64_char (byte a mod 4 * 16)" and xc = "CHR ''=''" and xd = "CHR ''=''"
          and rest = "[]"])
      (use 2 g in \<open>auto simp: b64_group_def b64_room_def b64_sextet_pad\<close>)
  moreover have "length src \<le> i + 4"
    using arg_cong [OF "2.prems"(1), of length] by (simp add: b64_group_def)
  ultimately show ?case by (auto simp: uh_b64decode_from_end)
next
  case (3 a b)
  note g = b64_group_sextets [of "byte a" "byte b" 0]
  have "\<exists>w. uh_b64decode_from blen src slen i cout len =
    char_of (byte a) # char_of (byte b) # char_of (0::nat)
      # uh_b64decode_from blen src slen (i + 4) w (len + 3)"
    by (rule uh_b64decode_three [where xa = "b64_char (byte a div 4)"
          and xb = "b64_char (byte a mod 4 * 16 + byte b div 16)"
          and xc = "b64_char (byte b mod 16 * 4)" and xd = "CHR ''=''" and rest = "[]"])
      (use 3 g in \<open>auto simp: b64_group_def b64_room_def b64_sextet_pad\<close>)
  moreover have "length src \<le> i + 4"
    using arg_cong [OF "3.prems"(1), of length] by (simp add: b64_group_def)
  ultimately show ?case by (auto simp: uh_b64decode_from_end)
next
  case (4 a b c r)
  have room: "b64_room (a # b # c # r) = 3 + b64_room r"
  proof -
    have "(length r + 5) div 3 = 1 + (length r + 2) div 3" by presburger
    then show ?thesis by (simp add: b64_room_def add.commute)
  qed
  obtain w where w: "uh_b64decode_from blen src slen i cout len = char_of (byte a) # char_of (byte b)
      # char_of (byte c) # uh_b64decode_from blen src slen (i + 4) w (len + 3)"
    using uh_b64decode_three [OF _ _ _ _ _ _ _ b64_group_sextets [of "byte a" "byte b" "byte c",
          unfolded b64_group_def], of i src "b64_encode r" slen len blen cout] 4 room
    by (auto simp: b64_group_def)
  have "drop (i + 4) src = b64_encode r"
    using arg_cong [OF "4.prems"(1), of "drop 4"] by (simp add: b64_group_def add.commute)
  then have "uh_b64decode_from blen src slen (i + 4) w (len + 3) = r @ b64_pad r"
    using 4 room by (intro "4.IH") (auto simp: b64_group_def)
  with w show ?case by simp
qed

lemma cstr_append_b64_pad:
  assumes "NUL \<notin> set s"
  shows "cstr (s @ b64_pad s @ [NUL]) = s"
proof -
  have "set (b64_pad s) \<subseteq> {NUL}" by (induction s rule: b64_pad.induct) auto
  with assms show ?thesis by (cases "b64_pad s") (auto simp: cstr_append)
qed

lemma uh_b64decode_encode:
  assumes "NUL \<notin> set s" and "b64_room s < blen"
  shows "cstr (uh_b64decode blen (b64_encode s) (length (b64_encode s))) = s"
proof -
  have "uh_b64decode_from blen (b64_encode s) (length (b64_encode s)) 0 0 0 = s @ b64_pad s"
    using assms(2) by (intro uh_b64decode_from_encode) auto
  then show ?thesis using cstr_append_b64_pad [OF assms(1)] by (simp add: uh_b64decode_def)
qed

lemma uh_b64decode_from_length:
  "uh_b64decode_from blen src slen i cout len = [] \<or>
   len + length (uh_b64decode_from blen src slen i cout len) < blen"
proof (induction blen src slen i cout len rule: uh_b64decode_from.induct)
  case (1 blen src slen i cout len)
  show ?case
  proof (cases "i \<le> slen \<and> char_at src i \<noteq> NUL")
    case False
    then show ?thesis by (subst (1) uh_b64decode_from.simps) auto
  next
    case True
    then show ?thesis
    proof (cases "b64_sextet (char_at src i)")
      case None
      with True 1 show ?thesis by (simp add: uh_b64decode_from.simps [of blen src slen i])
    next
      case (Some cin)
      let ?d = "uh_b64decode_from blen src slen (Suc i) (or (push_bit 6 cout) cin)"
      have "i mod 4 = 3 \<Longrightarrow> len + 3 < blen \<Longrightarrow> ?d (len + 3) = [] \<or> len + 3 + length (?d (len + 3)) < blen"
        and "i mod 4 \<noteq> 3 \<Longrightarrow> ?d len = [] \<or> len + length (?d len) < blen"
        using True Some 1 by simp_all
      with True Some show ?thesis
        by (auto simp: uh_b64decode_from.simps [of blen src slen i] Let_def)
    qed
  qed
qed

section \<open>Properties\<close>

text \<open>
  C32: \<open>strfind\<close> is substring search: on the first \<open>hslen\<close> bytes of the haystack it returns
  exactly the offset of the first occurrence of the needle, and it returns \<^verbatim>\<open>NULL\<close> exactly when
  the needle does not occur there.
\<close>
theorem strfind_correct:
  assumes "n \<noteq> []" and "nat hslen \<le> length h"
  shows "(strfind h hslen n = Some i \<longleftrightarrow>
           occurs_at (take (nat hslen) h) n i \<and> (\<forall>j<i. \<not> occurs_at (take (nat hslen) h) n j)) \<and>
         (strfind h hslen n = None \<longleftrightarrow> \<not> sublist n (take (nat hslen) h))"
proof
  let ?h = "take (nat hslen) h"
  note t = strfind_take [OF assms]
  show "strfind h hslen n = Some i \<longleftrightarrow> occurs_at ?h n i \<and> (\<forall>j<i. \<not> occurs_at ?h n j)"
    unfolding t using uh_search.find_Some [OF assms(1), of ?h i] uh_search.find_first [OF assms(1), of ?h i]
    by blast
  have "sublist n ?h \<longleftrightarrow> (\<exists>j. occurs_at ?h n j)"
    unfolding occurs_at_def sublist_def prefix_def
    by (metis append_eq_conv_conj append_take_drop_id)
  then show "strfind h hslen n = None \<longleftrightarrow> \<not> sublist n ?h"
    unfolding t using uh_search.find_None [OF assms(1), of ?h] uh_search.find_Some [OF assms(1), of ?h]
    by (metis option.exhaust)
qed

theorem strfind_correct_witness:
  "strfind ''abcabd'' 6 ''abd'' = Some 3 \<and> \<not> occurs_at ''abcabd'' ''abd'' 0"
proof -
  have e: "strfind ''abcabd'' 6 ''abd'' = Some 3" by code_simp
  have "(strfind ''abcabd'' 6 ''abd'' = Some 3) = (occurs_at ''abcabd'' ''abd'' 3 \<and>
      (\<forall>j<3. \<not> occurs_at ''abcabd'' ''abd'' j))"
    using strfind_correct [of "''abd''" 6 "''abcabd''" 3] by simp
  with e show ?thesis by simp
qed

text \<open>
  Decoding a whole C string that fits the buffer is percent decoding: every \<^verbatim>\<open>%XY\<close> with two hex
  digits becomes the byte it names, every other character, a stray \<^verbatim>\<open>%\<close> included, is copied, and
  the terminator is copied too.
\<close>
lemma uh_urldecode_percent:
  assumes "length src \<le> blen"
  shows "uh_urldecode blen src (length src) = percent_decode src @ [NUL]"
  using assms by (simp add: uh_urldecode_eq percent_decode_snoc_NUL)

lemma uh_urldecode_percent_example:
  "uh_urldecode 16 ''a%2Fb%zz'' 8 = percent_decode ''a%2Fb%zz'' @ [NUL] \<and>
   percent_decode ''a%2Fb%zz'' = ''a/b%zz''"
proof -
  have "percent_decode ''a%2Fb%zz'' = ''a/b%zz''" by code_simp
  with uh_urldecode_percent [of "''a%2Fb%zz''" 16] show ?thesis by (simp add: numeral_eq_Suc)
qed

text \<open>
  The decoder writes at most \<^verbatim>\<open>min(slen, blen) + 1\<close> bytes, and it writes that many whenever the
  source holds no escape: with \<^verbatim>\<open>blen\<close> the size of the buffer, a long source makes it write one
  byte past the end.
\<close>
lemma uh_urldecode_writes:
  assumes "slen \<le> length src"
  shows "length (uh_urldecode blen src slen) \<le> Suc (min slen blen) \<and>
    (CHR ''%'' \<notin> set src \<longrightarrow> length (uh_urldecode blen src slen) = Suc (min slen blen))"
proof
  show "length (uh_urldecode blen src slen) \<le> Suc (min slen blen)" by (rule uh_urldecode_length)
  have "CHR ''%'' \<notin> set src \<Longrightarrow> length (uh_urldecode_from blen src slen i) = Suc (min slen blen) - i" for i
    using assms
  proof (induction blen src slen i rule: uh_urldecode_from.induct)
    case (1 blen src slen i)
    have "char_at src i \<noteq> CHR ''%''"
      using "1.prems"(1) char_at_in_set [of src i] by auto
    with 1 show ?case by (subst uh_urldecode_from.simps) (auto simp: Suc_diff_le)
  qed
  from this [of 0] show "CHR ''%'' \<notin> set src \<longrightarrow>
      length (uh_urldecode blen src slen) = Suc (min slen blen)" by (simp add: uh_urldecode_def)
qed

lemma uh_urldecode_writes_example: "length (uh_urldecode 4 ''aaaaaaaa'' 8) = 5"
  using uh_urldecode_writes [of 8 "''aaaaaaaa''" 4] by simp

text \<open>
  C26: Encoding then decoding gives the string back, for every byte string and every buffer with
  room for the encoding (the encoder also encodes the terminator, as \<^verbatim>\<open>%00\<close>).
\<close>
theorem uh_url_roundtrip:
  assumes "3 * Suc (length s) \<le> blen" and "e = uh_urlencode blen s (length s)"
    and "length e \<le> Suc blen'"
  shows "uh_urldecode blen' e (length e - 1) = s @ [NUL]"
proof -
  have e: "e = percent_encode (s @ [NUL])" using assms(1,2) by (simp add: uh_urlencode_eq)
  then have "e \<noteq> []" by (cases s) auto
  then have "upto_index e (length e - 1) = e" by (cases e) (auto simp: upto_index_def)
  then have "uh_urldecode blen' e (length e - 1) = percent_decode e"
    using assms(3) by (simp add: uh_urldecode_eq)
  also have "\<dots> = s @ [NUL]" using percent_decode_encode [of "s @ [NUL]" "[]"] e by simp
  finally show ?thesis .
qed

theorem uh_url_roundtrip_witness:
  "uh_urldecode 64 (uh_urlencode 64 ''a b/c'' 5) (length (uh_urlencode 64 ''a b/c'' 5) - 1)
     = ''a b/c'' @ [NUL]"
proof (rule uh_url_roundtrip [of "''a b/c''" 64])
  show "length (uh_urlencode 64 ''a b/c'' 5) \<le> Suc 64" by code_simp
qed (simp_all add: numeral_eq_Suc)

text \<open>
  The encoder checks for room only where it escapes: copied characters are written past a full
  buffer.
\<close>
lemma uh_urlencode_overflow: "length (uh_urlencode 4 ''/aaaa'' 4) = 7"
  by code_simp

text \<open>
  C25: A base64 text decodes to the bytes it encodes, for every byte string and every buffer with
  room for it, padding included; and whatever the source, the decoder never writes more than
  \<^verbatim>\<open>blen\<close> bytes to a non-empty buffer.
\<close>
theorem uh_b64decode_roundtrip:
  assumes "NUL \<notin> set s" and "b64_room s < blen"
  shows "cstr (uh_b64decode blen (b64_encode s) (length (b64_encode s))) = s \<and>
    length (uh_b64decode blen src slen) \<le> blen"
proof
  show "cstr (uh_b64decode blen (b64_encode s) (length (b64_encode s))) = s"
    using assms by (rule uh_b64decode_encode)
  show "length (uh_b64decode blen src slen) \<le> blen"
    using uh_b64decode_from_length [of blen src slen 0 0 0] assms(2) by (auto simp: uh_b64decode_def)
qed

theorem uh_b64decode_roundtrip_witness:
  "cstr (uh_b64decode 32 (b64_encode ''root:pw'') (length (b64_encode ''root:pw''))) = ''root:pw'' \<and>
   b64_encode ''root:pw'' = ''cm9vdDpwdw==''"
proof -
  have "b64_encode ''root:pw'' = ''cm9vdDpwdw==''" by code_simp
  with uh_b64decode_roundtrip [of "''root:pw''" 32] show ?thesis by (simp add: b64_room_def)
qed

end
