(* ===== verification/Uh_Data.thy ===== *)
theory Uh_Data
  imports Uh_Codec
begin

text \<open>
  The data of uhttpd (\<^verbatim>\<open>uhttpd.h\<close>, \<^verbatim>\<open>uhttpd-utils.h\<close>) as records, the socket address helpers of
  \<^verbatim>\<open>uhttpd-utils.c\<close>, and the monad the request handlers run in. A pointer that may be \<^verbatim>\<open>NULL\<close> is an
  option; an array of header pointers is the list of the name/value pairs it holds; the float
  \<^verbatim>\<open>version\<close> of a request, which is only ever one of the three strings the parser accepts, is an
  enumeration.

  The state of the handlers is a connection: the fields of \<^verbatim>\<open>struct client\<close> the handlers use,
  together with the kernel's side of the socket. The kernel is a parameter: \<open>rx\<close> is the list of
  what the next reads will meet, \<open>txq\<close> of what the next writes will meet; \<open>tx\<close> collects the bytes
  the kernel has accepted. \<open>fault\<close> is set where the C code reads outside an object.
\<close>

section \<open>Limits\<close>

definition UH_LIMIT_MSGHEAD :: nat where "UH_LIMIT_MSGHEAD = 4096"
definition UH_LIMIT_HEADERS :: nat where "UH_LIMIT_HEADERS = 64"
definition UH_LIMIT_CLIENTS :: nat where "UH_LIMIT_CLIENTS = 64"
definition PATH_MAX :: nat where "PATH_MAX = 4096"

section \<open>Requests, responses, realms, interpreters\<close>

datatype http_method = UH_HTTP_MSG_GET | UH_HTTP_MSG_HEAD | UH_HTTP_MSG_POST
datatype http_version = HTTP_0_9 | HTTP_1_0 | HTTP_1_1

text \<open>The comparison \<^verbatim>\<open>version > 1.0\<close> and the conversion \<^verbatim>\<open>%.1f\<close>.\<close>

definition version_gt_1_0 :: "http_version \<Rightarrow> bool" where
  "version_gt_1_0 v \<longleftrightarrow> v = HTTP_1_1"

fun fmt_version :: "http_version \<Rightarrow> string" where
  "fmt_version HTTP_0_9 = ''0.9''"
| "fmt_version HTTP_1_0 = ''1.0''"
| "fmt_version HTTP_1_1 = ''1.1''"

record auth_realm =
  realm_path :: string
  realm_user :: string
  realm_pass :: string

record http_request =
  req_method :: http_method
  req_version :: http_version
  redirect_status :: nat
  req_url :: string
  req_headers :: "(string \<times> string) list"
  req_realm :: "auth_realm option"

record http_response =
  res_statuscode :: int
  res_statusmsg :: string
  res_headers :: "(string \<times> string) list"

record interpreter =
  ipr_path :: string
  ipr_extn :: string

section \<open>Configuration\<close>

record config =
  docroot :: string
  conf_realm :: "string option"
  conf_file :: "string option"
  index_file :: "string option"
  error_handler :: "string option"
  no_symlinks :: bool
  no_dirlists :: bool
  network_timeout :: int
  rfc1918_filter :: bool
  tcp_keepalive :: int
  cgi_prefix :: "string option"
  lua_prefix :: "string option"
  lua_handler :: "string option"
  lua_state :: bool
  script_timeout :: int
  conf_tls :: bool

section \<open>Files\<close>

record fstat =
  st_mode :: u32
  st_ino :: nat
  st_size :: nat
  st_mtime :: nat

definition S_IFREG :: u32 where "S_IFREG = 0x8000"
definition S_IFDIR :: u32 where "S_IFDIR = 0x4000"
definition S_IROTH :: u32 where "S_IROTH = 4"
definition S_IXOTH :: u32 where "S_IXOTH = 1"

definition has_mode :: "fstat \<Rightarrow> u32 \<Rightarrow> bool" where
  "has_mode s m \<longleftrightarrow> and (st_mode s) m \<noteq> 0"

record path_info =
  pi_root :: string
  pi_phys :: string
  pi_name :: string
  pi_info :: "string option"
  pi_query :: "string option"
  pi_redirected :: bool
  pi_stat :: fstat

section \<open>Socket addresses\<close>

text \<open>An IPv4 address is its value in host order; the port is in host order too.\<close>

datatype sockaddr = AF_INET u32 nat | AF_INET6 "128 word" nat

fun sa_port :: "sockaddr \<Rightarrow> nat" where
  "sa_port (AF_INET _ p) = p"
| "sa_port (AF_INET6 _ p) = p"

definition sa_strport :: "sockaddr \<Rightarrow> string" where
  "sa_strport sa = take 5 (fmt_dec (sa_port sa))"

fun sa_rfc1918 :: "sockaddr \<Rightarrow> bool" where
  "sa_rfc1918 (AF_INET a _) \<longleftrightarrow>
     (0x0A000000 \<le> a \<and> a \<le> 0x0AFFFFFF) \<or>
     (0xAC100000 \<le> a \<and> a \<le> 0xAC1FFFFF) \<or>
     (0xC0A80000 \<le> a \<and> a \<le> 0xC0A8FFFF)"
| "sa_rfc1918 (AF_INET6 _ _) \<longleftrightarrow> False"

section \<open>Connections\<close>

datatype rx_event = RxTimeout | RxData string | RxErr
datatype tx_event = TxTimeout | TxRet int

record conn =
  cl_socket :: int
  peekbuf :: string
  cl_tls :: bool
  servaddr :: sockaddr
  peeraddr :: sockaddr
  rx :: "rx_event list"
  tx :: string
  txq :: "tx_event list"
  fault :: bool

type_synonym 'a io = "(conn, 'a) state"

abbreviation return :: "'a \<Rightarrow> 'a io" where "return \<equiv> State_Monad.return"
abbreviation get_conn :: "conn io" where "get_conn \<equiv> State_Monad.get"
abbreviation put_conn :: "conn \<Rightarrow> unit io" where "put_conn \<equiv> State_Monad.set"

text \<open>Undefined behaviour: the fault is recorded and the routine gives up.\<close>

definition ub :: "int io" where
  "ub = do { c \<leftarrow> get_conn; put_conn (c\<lparr>fault := True\<rparr>); return (- 1) }"

text \<open>The macros \<^verbatim>\<open>ensure_ret\<close> and \<^verbatim>\<open>ensure_out\<close>: leave the routine when a call fails.\<close>

definition ensure_ret :: "int io \<Rightarrow> int io \<Rightarrow> int io" where
  "ensure_ret m k = do { r \<leftarrow> m; if r < 0 then return (- 1) else k }"

text \<open>A loop of sends, left at the first failure.\<close>

fun send_each :: "('a \<Rightarrow> int io) \<Rightarrow> 'a list \<Rightarrow> int io" where
  "send_each f [] = return 0"
| "send_each f (x # xs) = ensure_ret (f x) (send_each f xs)"

section \<open>RFC 1918 ranges\<close>

text \<open>
  \<open>sa_rfc1918\<close> accepts exactly the IPv4 addresses of the three private networks of RFC 1918,
  10/8, 172.16/12 and 192.168/16, as prefixes of the 32-bit address, and no IPv6 address.
\<close>
lemma sa_rfc1918_ranges:
  "sa_rfc1918 sa \<longleftrightarrow> (case sa of
      AF_INET a p \<Rightarrow> drop_bit 24 a = 10 \<or> drop_bit 20 a = 0xAC1 \<or> drop_bit 16 a = 0xC0A8
    | AF_INET6 a p \<Rightarrow> False)"
proof (cases sa)
  case (AF_INET a p)
  have d: "drop_bit k a = w \<longleftrightarrow> unat a div 2 ^ k = unat w" for k and w :: u32
    unfolding word_unat_eq_iff unat_drop_bit_eq by (simp add: drop_bit_eq_div)
  have "unat a div 2 ^ 24 = 10 \<longleftrightarrow> 0x0A000000 \<le> unat a \<and> unat a \<le> 0x0AFFFFFF"
    "unat a div 2 ^ 20 = 0xAC1 \<longleftrightarrow> 0xAC100000 \<le> unat a \<and> unat a \<le> 0xAC1FFFFF"
    "unat a div 2 ^ 16 = 0xC0A8 \<longleftrightarrow> 0xC0A80000 \<le> unat a \<and> unat a \<le> 0xC0A8FFFF"
    by (simp_all, linarith+)
  with AF_INET show ?thesis by (simp add: d word_le_nat_alt)
qed simp

end
