(* ===== verification/Uh_Net.thy ===== *)
theory Uh_Net
  imports Uh_Data
begin

text \<open>
  Socket input and output of \<^verbatim>\<open>uhttpd-utils.c\<close>: \<open>uh_tcp_send\<close>, \<open>uh_tcp_recv\<close>, \<open>uh_tcp_peek\<close> and
  the message senders built on them (plain or in HTTP/1.1 chunks), with the TLS wrappers of
  \<^verbatim>\<open>uhttpd-tls.c\<close> for the result of a read or a write. The sections on properties show that reading
  and peeking neither lose nor invent bytes, and that what the chunked senders put on the wire
  decodes to the data they were given.
\<close>

section \<open>The kernel's side of a socket\<close>

text \<open>\<^verbatim>\<open>select()\<close> for reading returns a positive value unless the next event is a timeout.\<close>

definition select_read :: "bool io" where
  "select_read = do {
     c \<leftarrow> get_conn;
     case rx c of
       RxTimeout # r \<Rightarrow> do { put_conn (c\<lparr>rx := r\<rparr>); return False }
     | _ \<Rightarrow> return True }"

text \<open>
  \<^verbatim>\<open>recv()\<close>: at most \<open>len\<close> bytes of the pending data; 0 when the peer has closed (no event is
  left); a negative value on an error.
\<close>

definition sys_recv :: "nat \<Rightarrow> (int \<times> string) io" where
  "sys_recv len = do {
     c \<leftarrow> get_conn;
     case rx c of
       [] \<Rightarrow> return (0, [])
     | RxData d # r \<Rightarrow> do {
         put_conn (c\<lparr>rx := (if len < length d then RxData (drop len d) # r else r)\<rparr>);
         return (int (length (take len d)), take len d) }
     | RxErr # r \<Rightarrow> do { put_conn (c\<lparr>rx := r\<rparr>); return (- 1, []) }
     | RxTimeout # r \<Rightarrow> return (- 1, []) }"

text \<open>\<^verbatim>\<open>select()\<close> for writing followed by \<^verbatim>\<open>send()\<close>; the kernel may accept fewer bytes.\<close>

definition sys_send :: "string \<Rightarrow> int io" where
  "sys_send buf = do {
     c \<leftarrow> get_conn;
     case txq c of
       [] \<Rightarrow> do { put_conn (c\<lparr>tx := tx c @ buf\<rparr>); return (int (length buf)) }
     | TxTimeout # q \<Rightarrow> do { put_conn (c\<lparr>txq := q\<rparr>); return (- 1) }
     | TxRet n # q \<Rightarrow> do {
         put_conn (c\<lparr>txq := q, tx := tx c @ take (nat n) buf\<rparr>);
         return (if n < 0 then - 1 else int (length (take (nat n) buf))) } }"

section \<open>TLS wrappers\<close>

definition uh_tls_client_recv :: "nat \<Rightarrow> (int \<times> string) io" where
  "uh_tls_client_recv len = do {
     (rv, d) \<leftarrow> sys_recv len;
     return (if rv > 0 then (rv, d) else (- 1, [])) }"

definition uh_tls_client_send :: "string \<Rightarrow> int io" where
  "uh_tls_client_send buf = do { rv \<leftarrow> sys_send buf; return (if rv > 0 then rv else - 1) }"

section \<open>Reading and writing\<close>

definition uh_tcp_send :: "string \<Rightarrow> int io" where
  "uh_tcp_send buf = do {
     c \<leftarrow> get_conn;
     if cl_tls c then uh_tls_client_send buf else sys_send buf }"

text \<open>The result is the value returned and the bytes stored at \<^verbatim>\<open>buf\<close>.\<close>

definition uh_tcp_recv :: "nat \<Rightarrow> (int \<times> string) io" where
  "uh_tcp_recv len = do {
     c \<leftarrow> get_conn;
     let sz = min (length (peekbuf c)) len;
     let buf = take sz (peekbuf c);
     put_conn (c\<lparr>peekbuf := drop sz (peekbuf c)\<rparr>);
     if len - sz > 0
     then do {
       ready \<leftarrow> select_read;
       if ready
       then do {
         (rsz, d) \<leftarrow> (if cl_tls c then uh_tls_client_recv (len - sz) else sys_recv (len - sz));
         return (if sz = 0 \<or> rsz > 0 then (int sz + rsz, buf @ d) else (int sz, buf)) }
       else return (if sz = 0 then (- 1, buf) else (int sz, buf)) }
     else return (int sz, buf) }"

definition uh_tcp_peek :: "nat \<Rightarrow> (int \<times> string) io" where
  "uh_tcp_peek len = do {
     (sz, buf) \<leftarrow> uh_tcp_recv len;
     if sz > 0
     then do { c \<leftarrow> get_conn; put_conn (c\<lparr>peekbuf := take (nat sz) buf\<rparr>); return (sz, buf) }
     else return (sz, buf) }"

section \<open>Message senders\<close>

text \<open>
  \<open>snprintf\<close> into a buffer of \<open>bufsz\<close> bytes whose result is then sent with the length \<open>snprintf\<close>
  returned: a text that only misses the terminator loses its last byte to it, and the terminator is
  sent; for a longer one the send reads past the end of the buffer.
\<close>

definition uh_printf_send :: "nat \<Rightarrow> string \<Rightarrow> (string \<Rightarrow> int io) \<Rightarrow> int io" where
  "uh_printf_send bufsz msg send =
     (if length msg < bufsz then send msg
      else if length msg = bufsz then send (take (bufsz - 1) msg @ [NUL])
      else ub)"

definition uh_http_sendc :: "string \<Rightarrow> int io" where
  "uh_http_sendc data =
     (if data \<noteq> []
      then ensure_ret (uh_printf_send 8 (fmt_HEX (length data) @ CRLF) uh_tcp_send)
          (ensure_ret (uh_tcp_send data)
          (ensure_ret (uh_tcp_send CRLF) (return 0)))
      else ensure_ret (uh_tcp_send (''0'' @ CRLF @ CRLF)) (return 0))"

text \<open>\<^verbatim>\<open>(req != NULL) && (req->version > 1.0)\<close>.\<close>

definition wants_chunked :: "http_request option \<Rightarrow> bool" where
  "wants_chunked req = (case req of None \<Rightarrow> False | Some r \<Rightarrow> version_gt_1_0 (req_version r))"

definition uh_http_send :: "http_request option \<Rightarrow> string \<Rightarrow> int io" where
  "uh_http_send req buf =
     (if wants_chunked req then ensure_ret (uh_http_sendc buf) (return 0)
      else if buf \<noteq> [] then ensure_ret (uh_tcp_send buf) (return 0)
      else return 0)"

text \<open>\<open>msg\<close> is the result of formatting; the buffer has \<^verbatim>\<open>UH_LIMIT_MSGHEAD\<close> bytes.\<close>

definition uh_http_sendf :: "http_request option \<Rightarrow> string \<Rightarrow> int io" where
  "uh_http_sendf req msg =
     (if wants_chunked req
      then ensure_ret (uh_printf_send UH_LIMIT_MSGHEAD msg uh_http_sendc) (return 0)
      else if msg \<noteq> []
      then ensure_ret (uh_printf_send UH_LIMIT_MSGHEAD msg uh_tcp_send) (return 0)
      else return 0)"

definition sendhf_head :: "int \<Rightarrow> string \<Rightarrow> string" where
  "sendhf_head code summary =
     ''HTTP/1.1 '' @ fmt_int03 code @ '' '' @ summary @ CRLF @
     ''Connection: close'' @ CRLF @
     ''Content-Type: text/plain'' @ CRLF @
     ''Transfer-Encoding: chunked'' @ CRLF @ CRLF"

definition uh_http_sendhf :: "int \<Rightarrow> string \<Rightarrow> string \<Rightarrow> int io" where
  "uh_http_sendhf code summary msg =
     ensure_ret (uh_printf_send UH_LIMIT_MSGHEAD (sendhf_head code summary) uh_tcp_send)
    (ensure_ret (uh_printf_send UH_LIMIT_MSGHEAD msg uh_http_sendc)
    (ensure_ret (uh_http_sendc []) (return 0)))"

definition uh_http_response :: "int \<Rightarrow> string \<Rightarrow> int io" where
  "uh_http_response code message = uh_http_sendhf code message message"

section \<open>What a sender puts on the wire\<close>

text \<open>
  A connection is reliable when the kernel will accept every write in full. \<open>emits m s\<close>: on a
  reliable connection \<open>m\<close> succeeds and its only effect is to append \<open>s\<close> to the output.
\<close>

definition reliable :: "conn \<Rightarrow> bool" where
  "reliable c \<longleftrightarrow> txq c = [] \<and> \<not> cl_tls c"

definition emits :: "int io \<Rightarrow> string \<Rightarrow> bool" where
  "emits m s \<longleftrightarrow> (\<forall>c. reliable c \<longrightarrow>
     (\<exists>r. run_state m c = (r, c\<lparr>tx := tx c @ s\<rparr>) \<and> 0 \<le> r))"

named_theorems emits_intros "output of the senders"

lemma emitsI:
  assumes "\<And>c. reliable c \<Longrightarrow> \<exists>r. run_state m c = (r, c\<lparr>tx := tx c @ s\<rparr>) \<and> 0 \<le> r"
  shows "emits m s"
  using assms by (simp add: emits_def)

lemma emitsE:
  assumes "emits m s" and "reliable c"
  obtains r where "run_state m c = (r, c\<lparr>tx := tx c @ s\<rparr>)" and "0 \<le> r"
  using assms by (auto simp: emits_def)

lemma reliable_tx [simp]: "reliable (c\<lparr>tx := t\<rparr>) = reliable c"
  by (simp add: reliable_def)

lemma emits_return [emits_intros]: "0 \<le> r \<Longrightarrow> emits (return r) []"
  by (rule emitsI) simp

lemma emits_tcp_send [emits_intros]: "emits (uh_tcp_send buf) buf"
  by (rule emitsI) (simp add: uh_tcp_send_def sys_send_def reliable_def)

lemma emits_ensure_ret [emits_intros]:
  assumes "emits m s" and "emits k t"
  shows "emits (ensure_ret m k) (s @ t)"
proof (rule emitsI)
  fix c assume c: "reliable c"
  from emitsE [OF assms(1) c] obtain r where
    r: "run_state m c = (r, c\<lparr>tx := tx c @ s\<rparr>)" "0 \<le> r" .
  from emitsE [OF assms(2), of "c\<lparr>tx := tx c @ s\<rparr>"] c obtain r' where
    "run_state k (c\<lparr>tx := tx c @ s\<rparr>) = (r', c\<lparr>tx := tx c @ s @ t\<rparr>)" "0 \<le> r'" by auto
  with r show "\<exists>r. run_state (ensure_ret m k) c = (r, c\<lparr>tx := tx c @ s @ t\<rparr>) \<and> 0 \<le> r"
    by (simp add: ensure_ret_def)
qed

lemma emits_ensure_last [emits_intros]:
  "emits m s \<Longrightarrow> emits (ensure_ret m (return 0)) s"
  using emits_ensure_ret [OF _ emits_return, of m s 0] by simp

text \<open>
  An output routine with a known text. A loop over it, left at the first failure, emits the
  texts in order.
\<close>

locale emitter =
  fixes op :: "'a \<Rightarrow> int io" and text_of :: "'a \<Rightarrow> string" and ok :: "'a \<Rightarrow> bool"
  assumes op_emits: "ok x \<Longrightarrow> emits (op x) (text_of x)"
begin

lemma each_emits: "list_all ok xs \<Longrightarrow> emits (send_each op xs) (concat (map text_of xs))"
  by (induction xs) (auto intro: emits_return emits_ensure_ret op_emits)

end

text \<open>The text of one chunk, and of the last chunk.\<close>

definition chunk :: "string \<Rightarrow> string" where
  "chunk data = fmt_HEX (length data) @ CRLF @ data @ CRLF"

definition last_chunk :: string where
  "last_chunk = ''0'' @ CRLF @ CRLF"

definition chunk_text :: "string \<Rightarrow> string" where
  "chunk_text data = (if data = [] then last_chunk else chunk data)"

lemma length_fmt_HEX: "n < 16 ^ 5 \<Longrightarrow> length (fmt_HEX n) \<le> 5"
  unfolding fmt_HEX_def by (rule length_num_str_le) auto

lemma emits_printf_send [emits_intros]:
  "length msg < bufsz \<Longrightarrow> emits (send msg) s \<Longrightarrow> emits (uh_printf_send bufsz msg send) s"
  by (simp add: uh_printf_send_def)

lemma emits_sendc [emits_intros]:
  assumes "length data < 16 ^ 5"
  shows "emits (uh_http_sendc data) (chunk_text data)"
proof (cases "data = []")
  case True
  then show ?thesis
    using emits_ensure_last [OF emits_tcp_send]
    by (simp add: uh_http_sendc_def chunk_text_def last_chunk_def)
next
  case False
  have "length (fmt_HEX (length data) @ CRLF) < 8" using length_fmt_HEX [OF assms] by simp
  then have "emits (uh_printf_send 8 (fmt_HEX (length data) @ CRLF) uh_tcp_send)
      (fmt_HEX (length data) @ CRLF)" by (intro emits_intros)
  from emits_ensure_ret [OF this emits_ensure_ret [OF emits_tcp_send
        emits_ensure_last [OF emits_tcp_send]], of data CRLF] False
  show ?thesis by (simp add: uh_http_sendc_def chunk_text_def chunk_def)
qed

definition send_text :: "http_request option \<Rightarrow> string \<Rightarrow> string" where
  "send_text req buf = (if wants_chunked req then chunk_text buf else buf)"

interpretation send_em: emitter "uh_http_send req" "send_text req" "\<lambda>buf. length buf < 16 ^ 5"
  for req
proof
  fix buf :: string
  assume "length buf < 16 ^ 5"
  from emits_sendc [OF this] show "emits (uh_http_send req buf) (send_text req buf)"
    by (auto simp: uh_http_send_def send_text_def intro: emits_intros)
qed

interpretation sendf_em: emitter "uh_http_sendf req" "send_text req"
  "\<lambda>msg. length msg < UH_LIMIT_MSGHEAD" for req
proof
  fix msg :: string
  assume l: "length msg < UH_LIMIT_MSGHEAD"
  then have "length msg < 16 ^ 5" by (simp add: UH_LIMIT_MSGHEAD_def)
  from emits_sendc [OF this] l show "emits (uh_http_sendf req msg) (send_text req msg)"
    by (auto simp: uh_http_sendf_def send_text_def intro: emits_intros)
qed

lemmas [emits_intros] = send_em.op_emits sendf_em.op_emits

lemma emits_sendhf [emits_intros]:
  assumes "length (sendhf_head code summary) < UH_LIMIT_MSGHEAD"
    and "length msg < UH_LIMIT_MSGHEAD" and "msg \<noteq> []"
  shows "emits (uh_http_sendhf code summary msg)
    (sendhf_head code summary @ chunk msg @ last_chunk)"
proof -
  have l: "length msg < 16 ^ 5" using assms(2) by (simp add: UH_LIMIT_MSGHEAD_def)
  have "emits (uh_http_sendc msg) (chunk msg)"
    using emits_sendc [OF l] assms(3) by (simp add: chunk_text_def)
  moreover have "emits (uh_http_sendc []) last_chunk"
    using emits_sendc [of "[]"] by (simp add: chunk_text_def)
  ultimately show ?thesis
    unfolding uh_http_sendhf_def using assms by (intro emits_intros)
qed

section \<open>Chunked transfer coding\<close>

text \<open>
  The receiver's side of the chunked coding of HTTP/1.1 (RFC 2616, 3.6.1), without trailers and
  chunk extensions: the decoded body and the bytes after the message.
\<close>

fun parse_hex :: "nat \<Rightarrow> string \<Rightarrow> nat \<times> string" where
  "parse_hex acc [] = (acc, [])"
| "parse_hex acc (c # s) = (if isxdigit c then parse_hex (acc * 16 + hex c) s else (acc, c # s))"

fun dechunk :: "nat \<Rightarrow> string \<Rightarrow> (string \<times> string) option" where
  "dechunk 0 s = None"
| "dechunk (Suc fuel) s =
     (let (n, r) = parse_hex 0 s; r' = drop 2 r in
      if s = [] \<or> \<not> isxdigit (hd s) \<or> take 2 r \<noteq> CRLF then None
      else if n = 0 then (if take 2 r' = CRLF then Some ([], drop 2 r') else None)
      else if take 2 (drop n r') = CRLF
           then map_option (\<lambda>(b, t). (take n r' @ b, t)) (dechunk fuel (drop (n + 2) r'))
           else None)"

lemma hexdigit_upper_values:
  "n < 16 \<Longrightarrow> isxdigit (hexdigit_upper n) \<and> hex (hexdigit_upper n) = n"
  by (auto simp: hexdigit_upper_def hex_def ctype_defs)

lemma parse_hex_num_str:
  "\<exists>k. \<forall>acc s. parse_hex acc (num_str hexdigit_upper 16 n @ s) = parse_hex (acc * k + n) s"
proof (induction n rule: less_induct)
  case (less n)
  show ?case
  proof (cases "n < 16")
    case True
    then show ?thesis
      by (subst num_str.simps) (auto simp: hexdigit_upper_values intro: exI [of _ 16])
  next
    case False
    then have "n div 16 < n" by simp
    from less [OF this] obtain k where
      k: "parse_hex acc (num_str hexdigit_upper 16 (n div 16) @ s) = parse_hex (acc * k + n div 16) s"
      for acc s by blast
    have "parse_hex acc (num_str hexdigit_upper 16 n @ s) = parse_hex (acc * (k * 16) + n) s" for acc s
      using False by (subst num_str.simps) (simp add: k hexdigit_upper_values algebra_simps)
    then show ?thesis by blast
  qed
qed

lemma parse_hex_fmt_HEX: "parse_hex 0 (fmt_HEX n @ CR # s) = (n, CR # s)"
  using parse_hex_num_str [of n] by (auto simp: fmt_HEX_def ctype_defs)

lemma hd_fmt_HEX: "isxdigit (hd (fmt_HEX n @ s))" and fmt_HEX_not_Nil [simp]: "fmt_HEX n \<noteq> []"
proof -
  show "fmt_HEX n \<noteq> []" by (simp add: fmt_HEX_def)
  then have "hd (fmt_HEX n @ s) \<in> set (fmt_HEX n)" by simp
  also have "\<dots> \<subseteq> hexdigit_upper ` {..<16}" unfolding fmt_HEX_def by (rule set_num_str) simp
  finally show "isxdigit (hd (fmt_HEX n @ s))" using hexdigit_upper_values by auto
qed

lemma dechunk_chunk:
  "data \<noteq> [] \<Longrightarrow> dechunk (Suc fuel) (chunk data @ s) =
     map_option (\<lambda>(b, t). (data @ b, t)) (dechunk fuel s)"
  using parse_hex_fmt_HEX [of "length data" "LF # data @ CRLF @ s"]
    hd_fmt_HEX [of "length data" "CRLF @ data @ CRLF @ s"]
  by (simp add: chunk_def)

lemma dechunk_last: "dechunk (Suc fuel) (last_chunk @ t) = Some ([], t)"
  by (simp add: last_chunk_def ctype_defs hex_def)

lemma dechunk_chunks:
  "[] \<notin> set bs \<Longrightarrow> length bs < fuel \<Longrightarrow>
     dechunk fuel (concat (map chunk bs) @ last_chunk @ t) = Some (concat bs, t)"
proof (induction bs arbitrary: fuel)
  case Nil
  then show ?case by (cases fuel) (auto simp: dechunk_last simp del: dechunk.simps)
next
  case (Cons b bs)
  then obtain f where "fuel = Suc f" "length bs < f" by (cases fuel) auto
  with Cons show ?case using dechunk_chunk [of b f "concat (map chunk bs) @ last_chunk @ t"]
    by (auto simp del: dechunk.simps)
qed

section \<open>The byte stream\<close>

text \<open>The bytes of the connection not yet delivered: the peek buffer, then what the peer sends.\<close>

fun rx_bytes :: "rx_event list \<Rightarrow> string" where
  "rx_bytes [] = []"
| "rx_bytes (RxData d # r) = d @ rx_bytes r"
| "rx_bytes (_ # r) = rx_bytes r"

definition pending :: "conn \<Rightarrow> string" where
  "pending c = peekbuf c @ rx_bytes (rx c)"

text \<open>Reading changes the receiving side only. How a read that returns \<open>n\<close> and stores \<open>d\<close> moves the stream.\<close>

definition rx_frame :: "conn \<Rightarrow> conn \<Rightarrow> bool" where
  "rx_frame c c' \<longleftrightarrow> cl_socket c' = cl_socket c \<and> cl_tls c' = cl_tls c \<and> servaddr c' = servaddr c \<and>
     peeraddr c' = peeraddr c \<and> tx c' = tx c \<and> txq c' = txq c \<and> fault c' = fault c"

definition read_moves :: "nat \<Rightarrow> conn \<Rightarrow> int \<Rightarrow> string \<Rightarrow> conn \<Rightarrow> bool" where
  "read_moves len c n d c' \<longleftrightarrow>
     (if n < 0 then n = - 1 \<and> d = [] \<and> pending c' = pending c
      else n = int (length d) \<and> length d \<le> len \<and> pending c = d @ pending c') \<and>
     rx_frame c c'"

lemma sys_recv_moves:
  "peekbuf c = [] \<Longrightarrow> run_state (sys_recv len) c = ((n, d), c') \<Longrightarrow>
     read_moves len c n d c' \<and> peekbuf c' = []"
  by (auto simp: sys_recv_def read_moves_def rx_frame_def pending_def split: list.splits rx_event.splits)

lemma tls_recv_moves:
  "peekbuf c = [] \<Longrightarrow> run_state (uh_tls_client_recv len) c = ((n, d), c') \<Longrightarrow>
     read_moves len c n d c' \<and> peekbuf c' = []"
  by (auto simp: uh_tls_client_recv_def read_moves_def split: prod.splits if_splits
      dest: sys_recv_moves)

lemma select_read_moves:
  "run_state select_read c = (b, c') \<Longrightarrow>
     pending c' = pending c \<and> peekbuf c' = peekbuf c \<and> rx_frame c c'"
  by (auto simp: select_read_def rx_frame_def pending_def split: list.splits rx_event.splits)

lemma uh_tcp_recv_peeked:
  "len \<le> length (peekbuf c) \<Longrightarrow>
     run_state (uh_tcp_recv len) c =
       ((int len, take len (peekbuf c)), c\<lparr>peekbuf := drop len (peekbuf c)\<rparr>)"
  by (simp add: uh_tcp_recv_def Let_def)

lemma uh_tcp_recv_moves:
  assumes "run_state (uh_tcp_recv len) c = ((n, d), c')"
  shows "read_moves len c n d c' \<and> (length (peekbuf c) < len \<longrightarrow> peekbuf c' = [])"
proof (cases "len \<le> length (peekbuf c)")
  case True
  with assms show ?thesis by (auto simp: uh_tcp_recv_peeked read_moves_def rx_frame_def pending_def)
next
  case False
  let ?p = "peekbuf c"
  let ?c0 = "c\<lparr>peekbuf := []\<rparr>"
  obtain b c1 where sel: "run_state select_read ?c0 = (b, c1)" by fastforce
  from select_read_moves [OF sel] have
    c1: "pending c1 = rx_bytes (rx c)" "peekbuf c1 = []" "rx_frame c c1"
    by (auto simp: pending_def rx_frame_def)
  let ?rd = "if cl_tls c then uh_tls_client_recv (len - length ?p) else sys_recv (len - length ?p)"
  obtain rn rd c2 where rd: "run_state ?rd c1 = ((rn, rd), c2)" by (metis prod.exhaust)
  then have m: "read_moves (len - length ?p) c1 rn rd c2" "peekbuf c2 = []"
    using sys_recv_moves [OF c1(2)] tls_recv_moves [OF c1(2)] by (auto split: if_splits)
  from c1 have p: "pending c = ?p @ pending c1" by (simp add: pending_def)
  show ?thesis
  proof (cases b)
    case True
    with assms False sel rd have "n = (if ?p = [] \<or> rn > 0 then int (length ?p) + rn else int (length ?p))"
      "d = (if ?p = [] \<or> rn > 0 then ?p @ rd else ?p)" "c' = c2"
      by (auto simp: uh_tcp_recv_def Let_def min_def split: if_splits)
    with m p False c1(3) show ?thesis
      by (cases "rn < 0") (auto simp: read_moves_def rx_frame_def pending_def)
  next
    case no: False
    with assms False sel have "n = (if ?p = [] then - 1 else int (length ?p))" "d = ?p" "c' = c1"
      by (auto simp: uh_tcp_recv_def Let_def min_def split: if_splits)
    with p False c1 show ?thesis by (auto simp: read_moves_def rx_frame_def pending_def)
  qed
qed

section \<open>Faults\<close>

definition keeps_fault :: "int io \<Rightarrow> bool" where
  "keeps_fault m \<longleftrightarrow> (\<forall>c. fault (snd (run_state m c)) = fault c)"

lemma keeps_fault_ensure_ret:
  assumes "keeps_fault m" and "keeps_fault k"
  shows "keeps_fault (ensure_ret m k)"
  unfolding keeps_fault_def
proof
  fix c
  obtain r c' where "run_state m c = (r, c')" by fastforce
  moreover from this have "fault c' = fault c" using assms(1) by (metis keeps_fault_def snd_conv)
  moreover have "fault (snd (run_state k c')) = fault c'" using assms(2) by (simp add: keeps_fault_def)
  ultimately show "fault (snd (run_state (ensure_ret m k) c)) = fault c"
    by (simp add: ensure_ret_def)
qed

lemma keeps_fault_tcp_send: "keeps_fault (uh_tcp_send buf)"
  by (auto simp: keeps_fault_def uh_tcp_send_def sys_send_def uh_tls_client_send_def
      split: list.splits tx_event.splits)

lemma keeps_fault_return: "keeps_fault (return r)"
  by (simp add: keeps_fault_def)

lemma keeps_fault_printf_send:
  "length msg \<le> bufsz \<Longrightarrow> 0 < bufsz \<Longrightarrow> (\<And>m. length m \<le> bufsz \<Longrightarrow> keeps_fault (send m)) \<Longrightarrow>
    keeps_fault (uh_printf_send bufsz msg send)"
  by (simp add: uh_printf_send_def)

lemmas keeps_fault_intros = keeps_fault_return keeps_fault_tcp_send keeps_fault_ensure_ret
  keeps_fault_printf_send

lemma keeps_fault_sendc:
  assumes "length data < 16 ^ 5"
  shows "keeps_fault (uh_http_sendc data)"
  unfolding uh_http_sendc_def using length_fmt_HEX [OF assms]
  by (auto intro!: keeps_fault_intros)

section \<open>Properties\<close>

text \<open>
  C18: Reading delivers the connection's byte stream: a read that does not fail returns the length of
  what it stores, at most what was asked for, and what it stores followed by what is still
  pending is what was pending before; a failed read stores nothing and loses nothing. Bytes kept
  by an earlier peek come first, and nothing is sent.
\<close>
theorem uh_tcp_recv_stream:
  "case run_state (uh_tcp_recv len) c of ((n, d), c') \<Rightarrow>
     (if n < 0 then n = - 1 \<and> d = [] \<and> pending c' = pending c
      else n = int (length d) \<and> length d \<le> len \<and> pending c = d @ pending c') \<and>
     tx c' = tx c \<and> fault c' = fault c"
proof -
  obtain n d c' where e: "run_state (uh_tcp_recv len) c = ((n, d), c')" by (metis prod.exhaust)
  from uh_tcp_recv_moves [OF e] show ?thesis
    unfolding e by (auto simp: read_moves_def rx_frame_def)
qed

text \<open>
  C21: Peeking at a connection whose peek buffer is empty consumes nothing: the pending bytes are
  the same before and after, and the next read of that many bytes returns exactly the bytes
  peeked, without touching the socket, and empties the buffer.
\<close>
theorem uh_tcp_peek_recv:
  assumes "peekbuf c = []" and "run_state (uh_tcp_peek len) c = ((n, d), c')"
  shows "pending c' = pending c \<and>
    (0 < n \<longrightarrow> run_state (uh_tcp_recv (nat n)) c' = ((n, d), c'\<lparr>peekbuf := []\<rparr>))"
proof -
  obtain sz b c1 where e: "run_state (uh_tcp_recv len) c = ((sz, b), c1)" by (metis prod.exhaust)
  note m = uh_tcp_recv_moves [OF e]
  show ?thesis
  proof (cases "0 < sz")
    case True
    with m have sz: "sz = int (length b)" "pending c = b @ pending c1" and "length b \<le> len"
      by (auto simp: read_moves_def)
    with True have "0 < len" by (cases b) auto
    with m assms(1) have "peekbuf c1 = []" by auto
    moreover from assms(2) True e sz have "n = sz" "d = b" "c' = c1\<lparr>peekbuf := b\<rparr>"
      by (auto simp: uh_tcp_peek_def)
    ultimately show ?thesis using sz by (simp add: uh_tcp_recv_peeked pending_def)
  next
    case False
    with assms(2) e have "n = sz" "c' = c1" by (auto simp: uh_tcp_peek_def)
    with False m show ?thesis by (cases "sz < 0") (auto simp: read_moves_def)
  qed
qed

definition demo_conn :: "rx_event list \<Rightarrow> tx_event list \<Rightarrow> conn" where
  "demo_conn evs outs = \<lparr>cl_socket = 5, peekbuf = [], cl_tls = False,
     servaddr = AF_INET 0xC0A80101 80, peeraddr = AF_INET 0xC0A80102 1025,
     rx = evs, tx = [], txq = outs, fault = False\<rparr>"

theorem uh_tcp_peek_recv_witness:
  "run_state (uh_tcp_peek 3) (demo_conn [RxData ''hello''] []) =
     ((3, ''hel''), (demo_conn [RxData ''lo''] [])\<lparr>peekbuf := ''hel''\<rparr>) \<and>
   run_state (uh_tcp_recv 3) ((demo_conn [RxData ''lo''] [])\<lparr>peekbuf := ''hel''\<rparr>) =
     ((3, ''hel''), demo_conn [RxData ''lo''] [])"
proof -
  have p: "run_state (uh_tcp_peek 3) (demo_conn [RxData ''hello''] []) =
     ((3, ''hel''), (demo_conn [RxData ''lo''] [])\<lparr>peekbuf := ''hel''\<rparr>)"
    by (simp add: uh_tcp_peek_def uh_tcp_recv_def select_read_def sys_recv_def demo_conn_def Let_def)
  with uh_tcp_peek_recv [OF _ p] show ?thesis by (simp add: demo_conn_def)
qed

text \<open>
  C12: What the senders put on the wire for an HTTP/1.1 request decodes to the data they were given:
  on a connection that accepts every write, sending any sequence of non-empty blocks and then the
  empty block appends one chunked message to the output, from which a receiver recovers exactly
  the concatenation of the blocks, with nothing left over.
\<close>
theorem uh_http_send_chunked:
  assumes "req_version req = HTTP_1_1" and "reliable c" and "[] \<notin> set bs"
    and "\<And>b. b \<in> set bs \<Longrightarrow> length b < 16 ^ 5"
  shows "\<exists>r msg. run_state (ensure_ret (send_each (uh_http_send (Some req)) bs)
      (uh_http_send (Some req) [])) c = (r, c\<lparr>tx := tx c @ msg\<rparr>) \<and> 0 \<le> r \<and>
    dechunk (Suc (length bs)) msg = Some (concat bs, [])"
proof -
  let ?s = "concat (map (send_text (Some req)) bs)" and ?l = "send_text (Some req) []"
  have "emits (send_each (uh_http_send (Some req)) bs) ?s"
    using assms(4) by (intro send_em.each_emits) (simp add: list_all_iff)
  then have em: "emits (ensure_ret (send_each (uh_http_send (Some req)) bs)
      (uh_http_send (Some req) [])) (?s @ ?l)" by (intro emits_intros) auto
  have "send_text (Some req) b = chunk b" if "b \<in> set bs" for b
    using that assms(1,3)
    by (auto simp: send_text_def chunk_text_def wants_chunked_def version_gt_1_0_def)
  then have "?s = concat (map chunk bs)" by (metis map_eq_conv)
  moreover have "?l = last_chunk"
    using assms(1) by (simp add: send_text_def chunk_text_def wants_chunked_def version_gt_1_0_def)
  ultimately have "dechunk (Suc (length bs)) (?s @ ?l) = Some (concat bs, [])"
    using dechunk_chunks [OF assms(3), of "Suc (length bs)" "[]"] by simp
  with emitsE [OF em assms(2)] show ?thesis by metis
qed

definition demo_req :: http_request where
  "demo_req = \<lparr>req_method = UH_HTTP_MSG_GET, req_version = HTTP_1_1, redirect_status = 200,
     req_url = ''/'', req_headers = [], req_realm = None\<rparr>"

theorem uh_http_send_chunked_witness:
  "\<exists>r msg. run_state (ensure_ret (send_each (uh_http_send (Some demo_req)) [''ab'', ''c''])
      (uh_http_send (Some demo_req) [])) (demo_conn [] []) =
        (r, (demo_conn [] [])\<lparr>tx := tx (demo_conn [] []) @ msg\<rparr>) \<and> 0 \<le> r \<and>
    dechunk (Suc (length [''ab'', ''c''])) msg = Some (concat [''ab'', ''c''], [])"
  by (rule uh_http_send_chunked) (auto simp: demo_req_def demo_conn_def reliable_def)

text \<open>
  A short write is not noticed: the sender reports success although the message on the wire is
  cut, and a receiver cannot decode it.
\<close>
lemma short_write_unnoticed:
  "let (r, c) = run_state (uh_http_sendc ''hello'') (demo_conn [] [TxRet 3, TxRet 2])
   in r = 0 \<and> dechunk 9 (tx c @ last_chunk) = None"
  by code_simp

text \<open>
  \<open>uh_http_sendf\<close> stays within its message buffer exactly when the formatted text is not longer
  than \<^verbatim>\<open>UH_LIMIT_MSGHEAD\<close>; a longer text makes it send bytes past the end of the buffer, because
  the length it passes on is the one \<open>vsnprintf\<close> would have needed.
\<close>
lemma uh_http_sendf_fault:
  "fault (snd (run_state (uh_http_sendf req msg) c)) \<longleftrightarrow> fault c \<or> UH_LIMIT_MSGHEAD < length msg"
proof (cases "length msg \<le> UH_LIMIT_MSGHEAD")
  case True
  have "keeps_fault (uh_http_sendc m)" if "length m \<le> UH_LIMIT_MSGHEAD" for m
    using that by (intro keeps_fault_sendc) (simp add: UH_LIMIT_MSGHEAD_def)
  with True have "keeps_fault (uh_http_sendf req msg)"
    unfolding uh_http_sendf_def by (auto intro!: keeps_fault_intros simp: UH_LIMIT_MSGHEAD_def)
  with True show ?thesis by (simp add: keeps_fault_def)
next
  case False
  then have "msg \<noteq> []" by (auto simp: UH_LIMIT_MSGHEAD_def)
  with False show ?thesis by (simp add: uh_http_sendf_def ensure_ret_def uh_printf_send_def ub_def)
qed

end
