(* ===== verification/Uh_Path.thy ===== *)
theory Uh_Path
  imports Uh_Net
begin

text \<open>
  From a URL to a file: \<open>canonpath\<close> and \<open>uh_path_lookup\<close> of \<^verbatim>\<open>uhttpd-utils.c\<close>. The file system is a
  parameter: what \<^verbatim>\<open>stat()\<close>, \<^verbatim>\<open>realpath()\<close> and \<^verbatim>\<open>getcwd()\<close> answer. The static buffer \<^verbatim>\<open>path_phys\<close> is
  kept as the buffer it is, bytes behind the terminator included, because the code relies on
  them: it turns the terminator of a directory's path into a slash.

  \<open>canonpath\<close> is shown to compute the normal form of a path by refinement: the loop over the
  buffer implements a loop over lists, and that one computes the normal form defined on the
  components of the path.
\<close>

section \<open>The file system\<close>

record fsys =
  fs_stat :: "string \<Rightarrow> fstat option"
  fs_realpath :: "string \<Rightarrow> string \<Rightarrow> string \<times> bool"
    \<comment> \<open>path, old buffer; the buffer afterwards and whether the call succeeded\<close>
  fs_cwd :: string

section \<open>canonpath\<close>

text \<open>\<^verbatim>\<open>while( (path_res > path_resolved) && (*--path_res != '/') ) ;\<close>\<close>

fun canon_pop :: "string \<Rightarrow> nat \<Rightarrow> nat" where
  "canon_pop pbuf 0 = 0"
| "canon_pop pbuf (Suc p) = (if pbuf ! p \<noteq> CHR ''/'' then canon_pop pbuf p else p)"

text \<open>
  The normalisation loop. \<open>n\<close> is the distance of \<^verbatim>\<open>path_cpy\<close> from its bound, \<open>cpy\<close> the rest of the
  copy from \<^verbatim>\<open>path_cpy\<close> on, \<open>pos\<close> the offset of \<^verbatim>\<open>path_res\<close> in the buffer \<open>pbuf\<close>.
\<close>

function canon_loop :: "nat \<Rightarrow> string \<Rightarrow> string \<Rightarrow> nat \<Rightarrow> string \<times> nat" where
  "canon_loop n cpy pbuf pos =
     (if cpy = [] \<or> n = 0 then (pbuf, pos)
      else if char_at cpy 0 = CHR ''/'' \<and> char_at cpy 1 = CHR ''/''
      then canon_loop (n - 1) (drop 1 cpy) pbuf pos
      else if char_at cpy 0 = CHR ''/'' \<and> char_at cpy 1 = CHR ''.'' \<and>
              (char_at cpy 2 = CHR ''/'' \<or> char_at cpy 2 = NUL)
      then canon_loop (n - 2) (drop 2 cpy) pbuf pos
      else if char_at cpy 0 = CHR ''/'' \<and> char_at cpy 1 = CHR ''.'' \<and>
              char_at cpy 2 = CHR ''.'' \<and> (char_at cpy 3 = CHR ''/'' \<or> char_at cpy 3 = NUL)
      then canon_loop (n - 3) (drop 3 cpy) pbuf (canon_pop pbuf pos)
      else canon_loop (n - 1) (drop 1 cpy) (pbuf[pos := char_at cpy 0]) (Suc pos))"
  by pat_completeness auto
termination
  by (relation "measure (\<lambda>(n, cpy, pbuf, pos). length cpy)") auto

declare canon_loop.simps [simp del]

text \<open>Remove a trailing slash if the result is not the root, and terminate the string.\<close>

definition canon_finish :: "string \<times> nat \<Rightarrow> string" where
  "canon_finish bp = (case bp of (pbuf, pos) \<Rightarrow>
     if 1 < pos \<and> pbuf ! (pos - 1) = CHR ''/'' then pbuf[pos - 1 := NUL]
     else if pos = 0 then pbuf[0 := CHR ''/'', 1 := NUL]
     else pbuf[pos := NUL])"

definition canon_copy :: "fsys \<Rightarrow> string \<Rightarrow> string" where
  "canon_copy fs path =
     (if char_at path 0 \<noteq> CHR ''/'' then take PATH_MAX (fs_cwd fs @ ''/'' @ path)
      else take PATH_MAX path)"

text \<open>The new contents of \<^verbatim>\<open>path_resolved\<close>, and whether the result is not \<^verbatim>\<open>NULL\<close>.\<close>

definition canonpath :: "fsys \<Rightarrow> string \<Rightarrow> string \<Rightarrow> string \<times> bool" where
  "canonpath fs path path_resolved =
     (let pbuf = canon_finish (canon_loop (PATH_MAX - 2) (canon_copy fs path) path_resolved 0)
      in (pbuf, case fs_stat fs (cstr pbuf) of None \<Rightarrow> False | Some s \<Rightarrow> has_mode s S_IROTH))"

section \<open>uh_path_lookup\<close>

definition uh_index_files :: "string list" where
  "uh_index_files = [''index.html'', ''index.htm'', ''default.html'', ''default.htm'']"

text \<open>
  The string in \<^verbatim>\<open>buffer\<close> after the document root has been copied and the path part of the URL has
  been decoded behind it, and the query. \<open>UB\<close> where the buffer has been filled without a
  terminator, so that the following \<^verbatim>\<open>strlen(buffer)\<close> runs past its end.
\<close>

definition lookup_decode :: "config \<Rightarrow> string \<Rightarrow> (string \<times> string option) cres" where
  "lookup_decode conf url =
     (let d = docroot conf; blen = UH_LIMIT_MSGHEAD - length d - 1;
          (query, dec) = (case strchr url (CHR ''?'') of
              Some k \<Rightarrow> (if char_at url (Suc k) \<noteq> NUL then Some (drop (Suc k) url) else None,
                         if 0 < k then uh_urldecode blen url (k - 1) else [])
            | None \<Rightarrow> (None, uh_urldecode blen url (length url)));
          buffer = cstr (d @ dec)
      in if length buffer < UH_LIMIT_MSGHEAD then Val (buffer, query) else UB)"

text \<open>
  The loop from the end of the buffer to its start: the longest prefix, ending at a slash or at
  the end, that can be resolved. The result is the buffer \<^verbatim>\<open>path_phys\<close> and the string \<^verbatim>\<open>path_info\<close>.
\<close>

fun lookup_scan :: "(string \<Rightarrow> string \<Rightarrow> string \<times> bool) \<Rightarrow> string \<Rightarrow> nat \<Rightarrow> string \<Rightarrow> string \<Rightarrow>
    string \<times> string" where
  "lookup_scan resolve buffer i phys info =
     (let (phys', info', found) =
        (if char_at buffer i = NUL \<or> char_at buffer i = CHR ''/''
         then let pin = take (min (i + 1) (PATH_MAX - 1)) buffer; (ph, ok) = resolve pin phys
              in if ok then (ph, take (min (length buffer - i) (PATH_MAX - 1)) (drop i buffer), True)
                 else (ph, pin, False)
         else (phys, info, False))
      in if found then (phys', info')
         else case i of 0 \<Rightarrow> (phys', info') | Suc j \<Rightarrow> lookup_scan resolve buffer j phys' info')"

declare lookup_scan.simps [simp del]

text \<open>
  The loop over the index files; the file that was found, with its status. The names are
  appended to the directory in \<^verbatim>\<open>buffer\<close> with a bound that does not protect it.
\<close>

fun lookup_index :: "fsys \<Rightarrow> string \<Rightarrow> string list \<Rightarrow> (string \<times> fstat) option cres" where
  "lookup_index fs dir [] = Val None"
| "lookup_index fs dir (f # fl) =
     (if UH_LIMIT_MSGHEAD \<le> length (dir @ f) then UB
      else case fs_stat fs (dir @ f) of
          Some s \<Rightarrow> if has_mode s S_IFREG then Val (Some (dir @ f, s)) else lookup_index fs dir fl
        | None \<Rightarrow> lookup_index fs dir fl)"

text \<open>The directory's path with a trailing slash: \<^verbatim>\<open>path_phys[strlen(path_phys)] = '/'\<close>.\<close>

definition dir_slash :: "string \<Rightarrow> string" where
  "dir_slash pbuf =
     (let n = length (cstr pbuf)
      in if n = 0 \<or> pbuf ! (n - 1) \<noteq> CHR ''/'' then cstr (pbuf[n := CHR ''/'']) else cstr pbuf)"

definition redirect_msg :: "string \<Rightarrow> string option \<Rightarrow> string" where
  "redirect_msg name query =
     ''HTTP/1.1 302 Found'' @ CRLF @ ''Location: '' @ name @
     (case query of None \<Rightarrow> [] | Some q \<Rightarrow> ''?'' @ q) @ CRLF @
     ''Connection: close'' @ CRLF @ CRLF"

definition resolve_with :: "fsys \<Rightarrow> config \<Rightarrow> string \<Rightarrow> string \<Rightarrow> string \<times> bool" where
  "resolve_with fs conf = (if no_symlinks conf then fs_realpath fs else canonpath fs)"

text \<open>The check whether the found path is within the document root.\<close>

definition within_docroot :: "string \<Rightarrow> string \<Rightarrow> bool" where
  "within_docroot d p \<longleftrightarrow> strneq p d (length d) \<and>
     (char_at p (length d) = NUL \<or> char_at p (length d) = CHR ''/'')"

text \<open>The directory branch: redirect without a trailing slash, else look for an index file.\<close>

definition lookup_dir :: "fsys \<Rightarrow> config \<Rightarrow> string \<Rightarrow> string option \<Rightarrow> string \<Rightarrow> fstat \<Rightarrow>
    path_info option io" where
  "lookup_dir fs conf buffer query dir st =
     (let d = docroot conf;
          pi = (\<lambda>phys s red. \<lparr>pi_root = d, pi_phys = phys, pi_name = drop (length d) phys,
                  pi_info = None, pi_query = query, pi_redirected = red, pi_stat = s\<rparr>)
      in if char_at buffer (length buffer - 1) \<noteq> CHR ''/''
         then do {
           _ \<leftarrow> uh_http_sendf None (redirect_msg (drop (length d) dir) query);
           return (Some (pi dir st True)) }
         else case lookup_index fs dir (case index_file conf of Some f \<Rightarrow> [f] | None \<Rightarrow> uh_index_files) of
             UB \<Rightarrow> do { _ \<leftarrow> ub; return None }
           | Val (Some (phys, s)) \<Rightarrow> return (Some (pi phys s False))
           | Val None \<Rightarrow> return (Some (pi dir st False)))"

definition uh_path_lookup :: "fsys \<Rightarrow> config \<Rightarrow> string option \<Rightarrow> path_info option io" where
  "uh_path_lookup fs conf url = (case url of
      None \<Rightarrow> return None
    | Some u \<Rightarrow> (case lookup_decode conf u of
        UB \<Rightarrow> do { _ \<leftarrow> ub; return None }
      | Val (buffer, query) \<Rightarrow>
          (let (pbuf, info) = lookup_scan (resolve_with fs conf) buffer (length buffer)
                                (replicate PATH_MAX NUL) [];
               phys = cstr pbuf; d = docroot conf
           in if \<not> within_docroot d phys then return None
              else case fs_stat fs phys of
                None \<Rightarrow> return None
              | Some st \<Rightarrow>
                  if has_mode st S_IFREG
                  then return (Some \<lparr>pi_root = d, pi_phys = phys, pi_name = drop (length d) phys,
                         pi_info = (if info \<noteq> [] then Some info else None), pi_query = query,
                         pi_redirected = False, pi_stat = st\<rparr>)
                  else if has_mode st S_IFDIR \<and> info = []
                  then lookup_dir fs conf buffer query (dir_slash pbuf) st
                  else return None)))"

section \<open>Normal forms of paths\<close>

text \<open>The loop of \<open>canonpath\<close> on lists: \<open>res\<close> is the result so far, last character first.\<close>

definition list_pop :: "string \<Rightarrow> string" where
  "list_pop res = drop 1 (dropWhile (\<lambda>c. c \<noteq> CHR ''/'') res)"

function canon_list :: "nat \<Rightarrow> string \<Rightarrow> string \<Rightarrow> string" where
  "canon_list n cpy res =
     (if cpy = [] \<or> n = 0 then res
      else if char_at cpy 0 = CHR ''/'' \<and> char_at cpy 1 = CHR ''/''
      then canon_list (n - 1) (drop 1 cpy) res
      else if char_at cpy 0 = CHR ''/'' \<and> char_at cpy 1 = CHR ''.'' \<and>
              (char_at cpy 2 = CHR ''/'' \<or> char_at cpy 2 = NUL)
      then canon_list (n - 2) (drop 2 cpy) res
      else if char_at cpy 0 = CHR ''/'' \<and> char_at cpy 1 = CHR ''.'' \<and>
              char_at cpy 2 = CHR ''.'' \<and> (char_at cpy 3 = CHR ''/'' \<or> char_at cpy 3 = NUL)
      then canon_list (n - 3) (drop 3 cpy) (list_pop res)
      else canon_list (n - 1) (drop 1 cpy) (char_at cpy 0 # res))"
  by pat_completeness auto
termination
  by (relation "measure (\<lambda>(n, cpy, res). length cpy)") auto

declare canon_list.simps [simp del]

definition list_finish :: "string \<Rightarrow> string" where
  "list_finish res = (case res of
      [] \<Rightarrow> ''/''
    | c # r \<Rightarrow> if r \<noteq> [] \<and> c = CHR ''/'' then rev r else rev res)"

text \<open>
  The components of a path that starts with a slash, the effect of a component on the stack of
  components (innermost first), and the path a stack stands for.
\<close>

function path_comps :: "string \<Rightarrow> string list" where
  "path_comps [] = []"
| "path_comps (c # s) = takeWhile (\<lambda>c. c \<noteq> CHR ''/'') s # path_comps (dropWhile (\<lambda>c. c \<noteq> CHR ''/'') s)"
  by pat_completeness auto
termination
  by (relation "measure length") (auto simp: le_imp_less_Suc length_dropWhile_le)

definition comp_step :: "string list \<Rightarrow> string \<Rightarrow> string list" where
  "comp_step st c = (if c = [] \<or> c = ''.'' then st else if c = ''..'' then tl st else c # st)"

definition render :: "string list \<Rightarrow> string" where
  "render st = (if st = [] then ''/'' else concat (map (\<lambda>c. CHR ''/'' # c) (rev st)))"

definition normal_path :: "string \<Rightarrow> string" where
  "normal_path p = render (foldl comp_step [] (path_comps p))"

text \<open>A component of a normal form: not empty, not a dot or two, without slashes.\<close>

definition plain_comp :: "string \<Rightarrow> bool" where
  "plain_comp c \<longleftrightarrow> c \<notin> {[], ''.'', ''..''} \<and> CHR ''/'' \<notin> set c \<and> NUL \<notin> set c"

section \<open>The buffer implements the list\<close>

text \<open>The first \<open>pos\<close> bytes of the buffer hold the list.\<close>

definition holds :: "string \<Rightarrow> nat \<Rightarrow> string \<Rightarrow> bool" where
  "holds pbuf pos res \<longleftrightarrow> pos = length res \<and> pos \<le> length pbuf \<and> take pos pbuf = rev res"

lemma list_pop_Cons: "list_pop (c # r) = (if c = CHR ''/'' then r else list_pop r)"
  by (simp add: list_pop_def)

lemma holds_pop: "holds pbuf pos res \<Longrightarrow> holds pbuf (canon_pop pbuf pos) (list_pop res)"
proof (induction pbuf pos arbitrary: res rule: canon_pop.induct)
  case (1 pbuf)
  then show ?case by (simp add: holds_def list_pop_def)
next
  case (2 pbuf p)
  from "2.prems" obtain c r where res: "res = c # r" by (cases res) (auto simp: holds_def)
  with "2.prems" have "take (Suc p) pbuf = rev r @ [c]" "p = length r" "p < length pbuf"
    by (auto simp: holds_def)
  then have "take p pbuf = rev r" "pbuf ! p = c" by (auto simp: take_Suc_conv_app_nth)
  with \<open>p = length r\<close> \<open>p < length pbuf\<close> have "holds pbuf p r" by (simp add: holds_def)
  with 2 res \<open>pbuf ! p = c\<close> show ?case by (simp add: list_pop_Cons)
qed

lemma holds_push:
  assumes "holds pbuf pos res" and "pos < length pbuf"
  shows "holds (pbuf[pos := c]) (Suc pos) (c # res)"
proof -
  have "take (Suc pos) (pbuf[pos := c]) = take pos pbuf @ [c]"
    using assms(2) by (simp add: take_Suc_conv_app_nth)
  with assms show ?thesis by (auto simp: holds_def)
qed

lemma length_list_pop: "length (list_pop res) \<le> length res"
  using length_dropWhile_le [of "\<lambda>c. c \<noteq> CHR ''/''" res] by (simp add: list_pop_def)

text \<open>The five ways a step of the loop can go.\<close>

lemma canon_step_cases [case_names stop dslash dot dotdot copy]:
  assumes "cpy = [] \<or> n = 0 \<Longrightarrow> P"
    and "\<lbrakk>cpy \<noteq> []; n \<noteq> 0; char_at cpy 0 = CHR ''/''; char_at cpy 1 = CHR ''/''\<rbrakk> \<Longrightarrow> P"
    and "\<lbrakk>cpy \<noteq> []; n \<noteq> 0; char_at cpy 0 = CHR ''/''; char_at cpy 1 = CHR ''.'';
          char_at cpy 2 = CHR ''/'' \<or> char_at cpy 2 = NUL\<rbrakk> \<Longrightarrow> P"
    and "\<lbrakk>cpy \<noteq> []; n \<noteq> 0; char_at cpy 0 = CHR ''/''; char_at cpy 1 = CHR ''.'';
          char_at cpy 2 = CHR ''.''; char_at cpy 3 = CHR ''/'' \<or> char_at cpy 3 = NUL\<rbrakk> \<Longrightarrow> P"
    and "\<lbrakk>cpy \<noteq> []; n \<noteq> 0; \<not> (char_at cpy 0 = CHR ''/'' \<and> char_at cpy 1 = CHR ''/'');
          \<not> (char_at cpy 0 = CHR ''/'' \<and> char_at cpy 1 = CHR ''.'' \<and>
             (char_at cpy 2 = CHR ''/'' \<or> char_at cpy 2 = NUL));
          \<not> (char_at cpy 0 = CHR ''/'' \<and> char_at cpy 1 = CHR ''.'' \<and>
             char_at cpy 2 = CHR ''.'' \<and> (char_at cpy 3 = CHR ''/'' \<or> char_at cpy 3 = NUL))\<rbrakk> \<Longrightarrow> P"
  shows P
  using assms by blast

lemma canon_copy_step:
  assumes "cpy \<noteq> []" "n \<noteq> 0" "\<not> (char_at cpy 0 = CHR ''/'' \<and> char_at cpy 1 = CHR ''/'')"
    "\<not> (char_at cpy 0 = CHR ''/'' \<and> char_at cpy 1 = CHR ''.'' \<and>
       (char_at cpy 2 = CHR ''/'' \<or> char_at cpy 2 = NUL))"
    "\<not> (char_at cpy 0 = CHR ''/'' \<and> char_at cpy 1 = CHR ''.'' \<and>
       char_at cpy 2 = CHR ''.'' \<and> (char_at cpy 3 = CHR ''/'' \<or> char_at cpy 3 = NUL))"
  shows "canon_list n cpy res = canon_list (n - 1) (drop 1 cpy) (char_at cpy 0 # res)"
    and "canon_loop n cpy pbuf pos =
      canon_loop (n - 1) (drop 1 cpy) (pbuf[pos := char_at cpy 0]) (Suc pos)"
  by (subst canon_list.simps canon_loop.simps, simp only: assms simp_thms if_False)+

lemma canon_list_length: "length (canon_list n cpy res) \<le> length res + n"
proof (induction n cpy res rule: canon_list.induct)
  case (1 n cpy res)
  note eq = canon_list.simps [of n cpy res]
  show ?case
  proof (cases rule: canon_step_cases [of cpy n])
    case dotdot
    with "1.IH"(3) length_list_pop [of res] show ?thesis unfolding eq by simp
  next
    case copy
    with "1.IH"(4) show ?thesis unfolding canon_copy_step(1) [OF copy] by simp
  qed (use "1.IH"(1,2) in \<open>simp_all add: eq\<close>)
qed

lemma canon_loop_refines:
  assumes "holds pbuf pos res" and "pos + n \<le> length pbuf" and "canon_loop n cpy pbuf pos = (pbuf', pos')"
  shows "holds pbuf' pos' (canon_list n cpy res) \<and> length pbuf' = length pbuf"
  using assms
proof (induction n cpy pbuf pos arbitrary: res rule: canon_loop.induct)
  case (1 n cpy pbuf pos)
  note eq = canon_loop.simps [of n cpy pbuf pos] canon_list.simps [of n cpy res]
  show ?case
  proof (cases rule: canon_step_cases [of cpy n])
    case stop
    with "1.prems" show ?thesis by (simp add: eq)
  next
    case dslash
    with "1.prems" "1.IH"(1) [of res] show ?thesis by (simp add: eq)
  next
    case dot
    with "1.prems" "1.IH"(2) [of res] show ?thesis by (simp add: eq)
  next
    case dotdot
    have pop: "holds pbuf (canon_pop pbuf pos) (list_pop res)"
      using "1.prems"(1) by (rule holds_pop)
    then have "canon_pop pbuf pos \<le> pos"
      using length_list_pop [of res] "1.prems"(1) by (simp add: holds_def)
    with dotdot "1.prems" "1.IH"(3) [OF _ _ _ _ pop] show ?thesis by (simp add: eq)
  next
    case copy
    from copy(2) "1.prems"(2) have "pos < length pbuf" by simp
    from "1.IH"(4) [OF _ copy(3-5) holds_push [OF "1.prems"(1) this]] copy(1,2) "1.prems"(2,3)
    show ?thesis unfolding canon_copy_step(1) [OF copy] canon_copy_step(2) [OF copy] by simp
  qed
qed

section \<open>The list computes the normal form\<close>

text \<open>The result so far for a stack of components.\<close>

definition rstack :: "string list \<Rightarrow> string" where
  "rstack st = concat (map (\<lambda>c. rev c @ ''/'') st)"

lemma rstack_simps [simp]: "rstack [] = []" "rstack (c # st) = rev c @ CHR ''/'' # rstack st"
  by (simp_all add: rstack_def)

lemma rev_rstack: "rev (rstack st) = concat (map (\<lambda>c. CHR ''/'' # c) (rev st))"
  by (induction st) auto

lemma rstack_eq_Nil [simp]: "rstack st = [] \<longleftrightarrow> st = []"
  by (cases st) auto

lemma list_pop_append: "CHR ''/'' \<notin> set w \<Longrightarrow> list_pop (w @ CHR ''/'' # r) = r"
  by (induction w) (auto simp: list_pop_Cons)

lemma list_pop_rstack: "\<forall>c\<in>set st. plain_comp c \<Longrightarrow> list_pop (rstack st) = rstack (tl st)"
  by (cases st) (auto simp: list_pop_append plain_comp_def list_pop_def [of "[]"])

lemma list_finish_rstack:
  assumes "\<forall>c\<in>set st. plain_comp c"
  shows "list_finish (rstack st) = render st" and "list_finish (CHR ''/'' # rstack st) = render st"
proof -
  show "list_finish (CHR ''/'' # rstack st) = render st"
    by (auto simp: list_finish_def render_def rev_rstack)
  show "list_finish (rstack st) = render st"
  proof (cases st)
    case (Cons c st')
    with assms have "rev c \<noteq> []" "CHR ''/'' \<notin> set (rev c)" by (auto simp: plain_comp_def)
    then obtain x y where "rev c = x # y" "x \<noteq> CHR ''/''" by (cases "rev c") auto
    with Cons have "list_finish (rstack st) = rev (rstack st)" by (simp add: list_finish_def)
    with Cons show ?thesis by (simp add: render_def rev_rstack del: rstack_simps)
  qed (simp add: list_finish_def render_def)
qed

lemma canon_list_run:
  assumes "CHR ''/'' \<notin> set w" and "length w \<le> n"
  shows "canon_list n (w @ t) res = canon_list (n - length w) t (rev w @ res)"
  using assms
proof (induction w arbitrary: n res)
  case (Cons c w)
  from Cons.prems have "canon_list n ((c # w) @ t) res = canon_list (n - 1) (w @ t) (c # res)"
    by (subst canon_list.simps) auto
  with Cons show ?case by simp
qed simp

lemma slash_at_NUL: "char_at t 0 = CHR ''/'' \<or> char_at t 0 = NUL"
  if "t = [] \<or> hd t = CHR ''/''"
  using that by (cases t) auto

lemma canon_list_comp:
  assumes t: "t = [] \<or> hd t = CHR ''/''" and w: "CHR ''/'' \<notin> set w" "NUL \<notin> set w"
    and n: "length w < n" and st: "\<forall>c\<in>set st. plain_comp c" and d: "w = [] \<Longrightarrow> t \<noteq> []"
  shows "canon_list n (CHR ''/'' # w @ t) (rstack st) =
    canon_list (n - Suc (length w)) t (rstack (comp_step st w))"
proof -
  consider "w = []" | "w = ''.''" | "w = ''..''" | (other) "w \<notin> {[], ''.'', ''..''}" by blast
  then show ?thesis
  proof cases
    case 1
    with d t show ?thesis
      by (subst canon_list.simps) (use n in \<open>cases t; auto simp: comp_step_def\<close>)
  next
    case 2
    with n slash_at_NUL [OF t] show ?thesis
      using canon_list.simps [of n "CHR ''/'' # w @ t" "rstack st"] by (simp add: comp_step_def numeral_2_eq_2)
  next
    case 3
    note list_pop_rstack [OF st]
    with 3 n slash_at_NUL [OF t] show ?thesis
      using canon_list.simps [of n "CHR ''/'' # w @ t" "rstack st"] by (simp add: comp_step_def numeral_3_eq_3)
  next
    case other
    then obtain a w' where w': "w = a # w'" "a \<noteq> CHR ''/''" using w by (cases w) auto
    have nodot: "\<not> (a = CHR ''.'' \<and> (char_at (w' @ t) 0 = CHR ''/'' \<or> char_at (w' @ t) 0 = NUL))"
      using other w w' by (cases w') auto
    have nodots: "\<not> (a = CHR ''.'' \<and> char_at (w' @ t) 0 = CHR ''.'' \<and>
        (char_at (w' @ t) 1 = CHR ''/'' \<or> char_at (w' @ t) 1 = NUL))"
    proof (cases w')
      case Nil
      with t show ?thesis by (cases t) auto
    next
      case (Cons b w'')
      with other w w' show ?thesis by (cases w'') auto
    qed
    have "canon_list n (CHR ''/'' # w @ t) (rstack st) =
        canon_list (n - 1) (w @ t) (CHR ''/'' # rstack st)"
      using w' n nodot nodots canon_copy_step(1) [of "CHR ''/'' # w @ t" n "rstack st"]
      by (simp add: numeral_eq_Suc)
    also have "\<dots> = canon_list (n - Suc (length w)) t (rev w @ CHR ''/'' # rstack st)"
      using w(1) n by (subst canon_list_run) auto
    finally show ?thesis using other by (simp add: comp_step_def)
  qed
qed

lemma plain_comp_step:
  assumes "\<forall>c\<in>set st. plain_comp c" and "CHR ''/'' \<notin> set w" and "NUL \<notin> set w"
  shows "\<forall>c\<in>set (comp_step st w). plain_comp c"
  using assms by (cases st) (auto simp: comp_step_def plain_comp_def)

lemma path_comps_Cons:
  assumes "t = [] \<or> hd t = CHR ''/''" and "CHR ''/'' \<notin> set w"
  shows "path_comps (c # w @ t) = w # path_comps t"
proof -
  have "takeWhile (\<lambda>c. c \<noteq> CHR ''/'') (w @ t) = w" "dropWhile (\<lambda>c. c \<noteq> CHR ''/'') (w @ t) = t"
    using assms by (cases t; force simp: takeWhile_append dropWhile_append)+
  then show ?thesis by simp
qed

lemma split_comp:
  fixes s :: string
  obtains w t where "s = w @ t" "CHR ''/'' \<notin> set w" "t = [] \<or> hd t = CHR ''/''"
proof
  show "s = takeWhile (\<lambda>c. c \<noteq> CHR ''/'') s @ dropWhile (\<lambda>c. c \<noteq> CHR ''/'') s" by simp
  show "CHR ''/'' \<notin> set (takeWhile (\<lambda>c. c \<noteq> CHR ''/'') s)" by (auto dest: set_takeWhileD)
  show "dropWhile (\<lambda>c. c \<noteq> CHR ''/'') s = [] \<or> hd (dropWhile (\<lambda>c. c \<noteq> CHR ''/'') s) = CHR ''/''"
    using hd_dropWhile by blast
qed

lemma canon_list_normal:
  assumes "s = [] \<or> hd s = CHR ''/''" and "NUL \<notin> set s" and "length s \<le> n"
    and "\<forall>c\<in>set st. plain_comp c"
  shows "list_finish (canon_list n s (rstack st)) = render (foldl comp_step st (path_comps s))"
  using assms
proof (induction "length s" arbitrary: s n st rule: less_induct)
  case less
  show ?case
  proof (cases s)
    case Nil
    with less.prems(4) show ?thesis by (simp add: canon_list.simps list_finish_rstack)
  next
    case (Cons c s')
    obtain w t where s': "s' = w @ t" and w: "CHR ''/'' \<notin> set w" and t: "t = [] \<or> hd t = CHR ''/''"
      by (rule split_comp)
    from Cons less.prems s' have c: "s = CHR ''/'' # w @ t" "NUL \<notin> set w" "NUL \<notin> set t" by auto
    note pc = path_comps_Cons [OF t w, of "CHR ''/''"]
    show ?thesis
    proof (cases "w = [] \<and> t = []")
      case True
      with c less.prems have "canon_list n s (rstack st) = CHR ''/'' # rstack st"
        by (simp add: canon_list.simps [of n] canon_list.simps [of _ "[]"])
      with True c pc show ?thesis
        using list_finish_rstack(2) [OF less.prems(4)] by (simp add: comp_step_def)
    next
      case False
      have "canon_list n s (rstack st) = canon_list (n - Suc (length w)) t (rstack (comp_step st w))"
        unfolding c(1) using False c less.prems t w by (intro canon_list_comp) auto
      with less.hyps [OF _ t c(3), of "n - Suc (length w)" "comp_step st w"] c pc less.prems(3)
        plain_comp_step [OF less.prems(4) w c(2)]
      show ?thesis by simp
    qed
  qed
qed

lemma foldl_comp_step_plain:
  "\<forall>w\<in>set ws. CHR ''/'' \<notin> set w \<and> NUL \<notin> set w \<Longrightarrow> \<forall>c\<in>set st. plain_comp c \<Longrightarrow>
   \<forall>c\<in>set (foldl comp_step st ws). plain_comp c"
proof (induction ws arbitrary: st)
  case (Cons w ws)
  have w: "CHR ''/'' \<notin> set w" "NUL \<notin> set w" and ws: "\<forall>w\<in>set ws. CHR ''/'' \<notin> set w \<and> NUL \<notin> set w"
    using Cons.prems(1) by auto
  show ?case
    using Cons.IH [OF ws plain_comp_step [OF Cons.prems(2) w]] by (simp only: foldl_Cons)
qed (simp only: foldl_Nil)

lemma path_comps_chars:
  "w \<in> set (path_comps s) \<Longrightarrow> CHR ''/'' \<notin> set w \<and> set w \<subseteq> set s"
proof (induction s rule: path_comps.induct)
  case (2 c s)
  let ?w = "takeWhile (\<lambda>c. c \<noteq> CHR ''/'') s" and ?t = "dropWhile (\<lambda>c. c \<noteq> CHR ''/'') s"
  have "CHR ''/'' \<notin> set ?w" "set ?w \<subseteq> set s" by (auto dest: set_takeWhileD)
  moreover have "set ?t \<subseteq> set s" by (auto dest: set_dropWhileD)
  ultimately show ?case using 2 by auto
qed simp

lemma holds_finish:
  assumes "holds pbuf pos res" and "Suc pos < length pbuf" and "NUL \<notin> set res"
  shows "cstr (canon_finish (pbuf, pos)) = list_finish res"
proof -
  have cut: "cstr (b[k := NUL]) = w" if "take k b = w" "k < length b" "NUL \<notin> set w" for b w k
    using that by (simp add: upd_conv_take_nth_drop cstr_append_NUL)
  show ?thesis
  proof (cases res)
    case Nil
    with assms have "take 1 (pbuf[0 := CHR ''/'']) = ''/''" "pos = 0"
      by (cases pbuf; auto simp: holds_def)+
    with cut [of 1 "pbuf[0 := CHR ''/'']" "''/''"] assms(2) Nil show ?thesis
      by (simp add: canon_finish_def list_finish_def)
  next
    case (Cons c r)
    with assms have l: "pos = Suc (length r)" "take (Suc (length r)) pbuf = rev r @ [c]"
      by (auto simp: holds_def)
    then have "take (length r) pbuf = rev r" "pbuf ! length r = c"
      using assms(2) by (auto simp: take_Suc_conv_app_nth)
    with l Cons assms cut [of "length r" pbuf "rev r"] cut [of pos pbuf "rev res"] show ?thesis
      by (auto simp: canon_finish_def list_finish_def)
  qed
qed

section \<open>Properties\<close>

lemma canon_list_NUL: "NUL \<notin> set cpy \<Longrightarrow> NUL \<notin> set res \<Longrightarrow> NUL \<notin> set (canon_list n cpy res)"
proof (induction n cpy res rule: canon_list.induct)
  case (1 n cpy res)
  note eq = canon_list.simps [of n cpy res]
  have d: "NUL \<notin> set (drop k cpy)" for k using "1.prems"(1) by (meson in_set_dropD)
  show ?case
  proof (cases rule: canon_step_cases [of cpy n])
    case dotdot
    have "NUL \<notin> set (list_pop res)"
      using "1.prems"(2) by (auto simp: list_pop_def dest: in_set_dropD set_dropWhileD)
    with dotdot "1.IH"(3) d show ?thesis unfolding eq by simp
  next
    case copy
    have "char_at cpy 0 \<noteq> NUL" using copy(1) "1.prems"(1) by (cases cpy) auto
    with copy "1.IH"(4) d "1.prems" show ?thesis unfolding canon_copy_step(1) [OF copy] by simp
  qed (use "1.IH"(1,2) "1.prems" d in \<open>simp_all add: eq\<close>)
qed

lemma canon_buffer:
  assumes "NUL \<notin> set cpy" and "length buf = PATH_MAX"
  shows "cstr (canon_finish (canon_loop (PATH_MAX - 2) cpy buf 0)) =
      list_finish (canon_list (PATH_MAX - 2) cpy [])"
proof -
  obtain b p where e: "canon_loop (PATH_MAX - 2) cpy buf 0 = (b, p)" by (metis prod.exhaust)
  have "holds buf 0 []" by (simp add: holds_def)
  from canon_loop_refines [OF this _ e] assms(2)
  have h: "holds b p (canon_list (PATH_MAX - 2) cpy [])" "length b = PATH_MAX" by auto
  with canon_list_length [of "PATH_MAX - 2" cpy "[]"] have "Suc p < length b"
    by (auto simp: holds_def PATH_MAX_def)
  with holds_finish [OF h(1)] canon_list_NUL [OF assms(1)] e show ?thesis by simp
qed

lemma normal_path_plain:
  assumes "NUL \<notin> set path"
  shows "\<forall>c\<in>set (foldl comp_step [] (path_comps path)). plain_comp c"
proof (rule foldl_comp_step_plain)
  show "\<forall>w\<in>set (path_comps path). CHR ''/'' \<notin> set w \<and> NUL \<notin> set w"
    using path_comps_chars [of _ path] assms by blast
qed simp

lemma canonpath_eq:
  assumes "char_at path 0 = CHR ''/''" and "NUL \<notin> set path" and "length path \<le> PATH_MAX - 2"
    and "length buf = PATH_MAX"
  shows "cstr (fst (canonpath fs path buf)) = normal_path path"
proof -
  from assms have c: "canon_copy fs path = path" by (simp add: canon_copy_def PATH_MAX_def)
  from assms(1) have "hd path = CHR ''/''" by (cases path) auto
  with canon_list_normal [of path "PATH_MAX - 2" "[]"] assms(2,3) canon_buffer [OF assms(2,4)] c
  show ?thesis by (simp add: canonpath_def normal_path_def Let_def)
qed

text \<open>
  C1: For an absolute path of at most \<^verbatim>\<open>PATH_MAX - 2\<close> bytes, \<open>canonpath\<close> leaves the normal form of the
  path in its buffer: the path of the stack of components that remains when empty components and
  dots are dropped and two dots remove the component before them. No component of the result
  is empty, a dot or two dots. The result is not \<^verbatim>\<open>NULL\<close> exactly when that file is there and
  readable for others. What the buffer held before does not matter.
\<close>
theorem canonpath_normal:
  assumes "char_at path 0 = CHR ''/''" and "NUL \<notin> set path" and "length path \<le> PATH_MAX - 2"
    and "length buf = PATH_MAX"
  shows "cstr (fst (canonpath fs path buf)) = normal_path path \<and>
    (\<exists>st. normal_path path = render st \<and> (\<forall>c\<in>set st. plain_comp c)) \<and>
    (snd (canonpath fs path buf) \<longleftrightarrow>
       (\<exists>s. fs_stat fs (normal_path path) = Some s \<and> has_mode s S_IROTH))"
proof -
  note e = canonpath_eq [OF assms, of fs]
  then have "snd (canonpath fs path buf) \<longleftrightarrow>
       (\<exists>s. fs_stat fs (normal_path path) = Some s \<and> has_mode s S_IROTH)"
    by (auto simp: canonpath_def Let_def split: option.splits)
  with e normal_path_plain [OF assms(2)] show ?thesis unfolding normal_path_def by blast
qed

theorem canonpath_normal_witness:
  "cstr (fst (canonpath \<lparr>fs_stat = \<lambda>_. None, fs_realpath = \<lambda>p b. (b, False), fs_cwd = ''/''\<rparr>
      ''/a//b/./../c/'' (replicate PATH_MAX NUL))) = ''/a/c''"
proof -
  have "normal_path ''/a//b/./../c/'' = ''/a/c''"
    by (simp add: normal_path_def comp_step_def render_def)
  with canonpath_normal [of "''/a//b/./../c/''" "replicate PATH_MAX NUL"] show ?thesis
    by (simp add: PATH_MAX_def)
qed

text \<open>
  A path that starts with the document root: the root itself or the root, a slash and more; for a
  root that ends in a slash, the root and anything.
\<close>

definition below :: "string \<Rightarrow> string \<Rightarrow> bool" where
  "below d p \<longleftrightarrow> (\<exists>n. p = d @ n \<and> (n = [] \<or> hd n = CHR ''/'' \<or> (d \<noteq> [] \<and> last d = CHR ''/'')))"

lemma below_append: "below d p \<Longrightarrow> p \<noteq> d \<or> (d \<noteq> [] \<and> last d = CHR ''/'') \<Longrightarrow> below d (p @ q)"
  by (auto simp: below_def)

lemma within_docroot_below: "NUL \<notin> set p \<Longrightarrow> within_docroot d p \<Longrightarrow> below d p"
proof -
  assume p: "NUL \<notin> set p" and "within_docroot d p"
  then have w: "take (length d) p = d" "char_at p (length d) = NUL \<or> char_at p (length d) = CHR ''/''"
    by (auto simp: within_docroot_def strneq_def)
  then have "p = d @ drop (length d) p" by (metis append_take_drop_id)
  moreover have "drop (length d) p = [] \<or> hd (drop (length d) p) = CHR ''/''"
  proof (cases "length d < length p")
    case True
    with w(2) p have "p ! length d = CHR ''/''" by (metis char_at_nth nth_mem)
    with True show ?thesis by (simp add: hd_drop_conv_nth)
  qed simp
  ultimately show ?thesis unfolding below_def by blast
qed

lemma dir_slash_below:
  assumes "below d (cstr pbuf)" and "length (cstr pbuf) < length pbuf"
  shows "below d (dir_slash pbuf) \<and> (dir_slash pbuf \<noteq> d \<or> (d \<noteq> [] \<and> last d = CHR ''/''))"
proof -
  let ?n = "length (cstr pbuf)"
  have t: "take ?n pbuf = cstr pbuf" by (simp add: cstr_def flip: takeWhile_eq_take)
  have nul: "NUL \<notin> set (take ?n pbuf)" using t by simp
  obtain r where r: "cstr pbuf = d @ r" "r = [] \<or> hd r = CHR ''/'' \<or> (d \<noteq> [] \<and> last d = CHR ''/'')"
    using assms(1) by (auto simp: below_def)
  show ?thesis
  proof (cases "?n = 0 \<or> pbuf ! (?n - 1) \<noteq> CHR ''/''")
    case True
    have "pbuf[?n := CHR ''/''] = cstr pbuf @ CHR ''/'' # drop (Suc ?n) pbuf"
      using assms(2) t by (simp add: upd_conv_take_nth_drop)
    with True have "dir_slash pbuf = cstr pbuf @ CHR ''/'' # cstr (drop (Suc ?n) pbuf)"
      using NUL_notin_cstr by (simp add: dir_slash_def Let_def cstr_append)
    with r show ?thesis by (cases r) (auto simp: below_def)
  next
    case False
    then have "dir_slash pbuf = cstr pbuf" by (simp add: dir_slash_def Let_def)
    moreover have "take ?n pbuf ! (?n - 1) = CHR ''/''" using False by simp
    then have "cstr pbuf ! (?n - 1) = CHR ''/''" unfolding t .
    then have "last (cstr pbuf) = CHR ''/''" "cstr pbuf \<noteq> []"
      using False by (auto simp: last_conv_nth)
    ultimately show ?thesis using r assms by (auto simp: below_def)
  qed
qed

lemma lookup_index_below:
  "below d dir \<Longrightarrow> dir \<noteq> d \<or> (d \<noteq> [] \<and> last d = CHR ''/'') \<Longrightarrow>
     lookup_index fs dir fl = Val (Some (phys, s)) \<Longrightarrow> below d phys"
  by (induction fs dir fl rule: lookup_index.induct)
    (auto simp: below_append split: if_splits option.splits)

lemma lookup_dir_result:
  assumes "run_state (lookup_dir fs conf buffer query dir st) c = (Some p, c')"
    and "below (docroot conf) dir" and "dir \<noteq> docroot conf \<or> (docroot conf \<noteq> [] \<and> last (docroot conf) = CHR ''/'')"
  shows "below (docroot conf) (pi_phys p) \<and> pi_root p = docroot conf \<and>
    pi_name p = drop (length (docroot conf)) (pi_phys p)"
  using assms lookup_index_below [OF assms(2,3)] below_append [OF assms(2,3)]
  by (auto simp: lookup_dir_def Let_def split: prod.splits if_splits cres.splits option.splits)

text \<open>
  A path buffer holds a terminated string. \<open>realpath_ok\<close> is what the manual says of
  \<^verbatim>\<open>realpath()\<close>: it stores a terminated string of at most \<^verbatim>\<open>PATH_MAX\<close> bytes.
\<close>

definition path_buffer :: "string \<Rightarrow> bool" where
  "path_buffer b \<longleftrightarrow> length b = PATH_MAX \<and> NUL \<in> set b"

definition realpath_ok :: "fsys \<Rightarrow> bool" where
  "realpath_ok fs \<longleftrightarrow> (\<forall>p b. path_buffer b \<longrightarrow> path_buffer (fst (fs_realpath fs p b)))"

lemma path_buffer_terminated: "path_buffer b \<Longrightarrow> length (cstr b) < length b"
proof -
  assume "path_buffer b"
  then have "cstr b \<noteq> b" using NUL_notin_cstr [of b] by (metis path_buffer_def)
  then show ?thesis
    using length_cstr_le [of b] by (metis cstr_def le_neq_implies_less takeWhile_eq_take take_all_iff order_refl)
qed

lemma path_buffer_canonpath:
  assumes "path_buffer b"
  shows "path_buffer (fst (canonpath fs path b))"
proof -
  let ?cpy = "canon_copy fs path"
  obtain b' p where e: "canon_loop (PATH_MAX - 2) ?cpy b 0 = (b', p)" by (metis prod.exhaust)
  have "holds b 0 []" by (simp add: holds_def)
  from canon_loop_refines [OF this _ e] assms
  have h: "holds b' p (canon_list (PATH_MAX - 2) ?cpy [])" "length b' = PATH_MAX"
    by (auto simp: path_buffer_def)
  with canon_list_length [of "PATH_MAX - 2" ?cpy "[]"] have "Suc p < length b'"
    by (auto simp: holds_def PATH_MAX_def)
  with h(2) have "path_buffer (canon_finish (b', p))"
    by (auto simp: canon_finish_def path_buffer_def set_update_memI)
  with e show ?thesis by (simp add: canonpath_def Let_def)
qed

lemma path_buffer_resolve:
  "realpath_ok fs \<Longrightarrow> path_buffer b \<Longrightarrow> path_buffer (fst (resolve_with fs conf path b))"
  by (simp add: resolve_with_def realpath_ok_def path_buffer_canonpath)

lemma lookup_scan_inv:
  assumes "\<And>path b. P b \<Longrightarrow> P (fst (resolve path b))" and "P phys"
  shows "P (fst (lookup_scan resolve buffer i phys info))"
  using assms(2)
proof (induction i arbitrary: phys info)
  case 0
  obtain ph ok where r: "resolve (take (min (0 + 1) (PATH_MAX - 1)) buffer) phys = (ph, ok)"
    by (metis prod.exhaust)
  with assms(1) [OF 0] have "P ph" by (metis fst_conv)
  with 0 r show ?case by (subst lookup_scan.simps) (auto simp: Let_def)
next
  case (Suc i)
  obtain ph ok where r: "resolve (take (min (Suc i + 1) (PATH_MAX - 1)) buffer) phys = (ph, ok)"
    by (metis prod.exhaust)
  with assms(1) [OF Suc.prems] have "P ph" by (metis fst_conv)
  with Suc r show ?case by (subst lookup_scan.simps) (auto simp: Let_def)
qed

lemma uh_path_lookup_below:
  assumes "run_state (uh_path_lookup fs conf url) c = (Some p, c')" and "realpath_ok fs"
  shows "pi_root p = docroot conf \<and> pi_phys p = docroot conf @ pi_name p \<and>
    (pi_name p = [] \<or> hd (pi_name p) = CHR ''/'' \<or> (docroot conf \<noteq> [] \<and> last (docroot conf) = CHR ''/''))"
proof -
  let ?d = "docroot conf"
  from assms(1) obtain u buffer query pbuf info st where u: "url = Some u"
    and dec: "lookup_decode conf u = Val (buffer, query)"
    and scan: "lookup_scan (resolve_with fs conf) buffer (length buffer) (replicate PATH_MAX NUL) [] = (pbuf, info)"
    and wd: "within_docroot ?d (cstr pbuf)" and st: "fs_stat fs (cstr pbuf) = Some st"
    by (auto simp: uh_path_lookup_def Let_def split: option.splits cres.splits prod.splits if_splits)
  have "path_buffer (replicate PATH_MAX NUL)" by (simp add: path_buffer_def PATH_MAX_def)
  with lookup_scan_inv [of path_buffer "resolve_with fs conf"] path_buffer_resolve [OF assms(2)] scan
  have pb: "path_buffer pbuf" by (metis fst_conv)
  from within_docroot_below [OF _ wd] have b: "below ?d (cstr pbuf)" by simp
  note dir = dir_slash_below [OF b path_buffer_terminated [OF pb]]
  from assms(1) have "run_state (if has_mode st S_IFREG
      then return (Some \<lparr>pi_root = ?d, pi_phys = cstr pbuf, pi_name = drop (length ?d) (cstr pbuf),
             pi_info = (if info \<noteq> [] then Some info else None), pi_query = query,
             pi_redirected = False, pi_stat = st\<rparr>)
      else if has_mode st S_IFDIR \<and> info = []
      then lookup_dir fs conf buffer query (dir_slash pbuf) st else return None) c = (Some p, c')"
    by (simp add: uh_path_lookup_def Let_def u dec scan wd st)
  then have "below ?d (pi_phys p) \<and> pi_root p = ?d \<and> pi_name p = drop (length ?d) (pi_phys p)"
    using b dir lookup_dir_result by (auto split: if_splits)
  then show ?thesis by (auto simp: below_def)
qed

text \<open>
  C5: Every file that \<open>uh_path_lookup\<close> returns has a path that starts with the document root, and
  what follows the root is empty or starts with a slash; the name that is reported is that rest.
  So a sibling directory whose name only starts like the document root is never served. The
  document root is one that does not end in a slash.
\<close>
theorem uh_path_lookup_docroot:
  assumes "run_state (uh_path_lookup fs conf url) c = (Some p, c')" and "realpath_ok fs"
    and "docroot conf = [] \<or> last (docroot conf) \<noteq> CHR ''/''"
  shows "pi_root p = docroot conf \<and> pi_phys p = docroot conf @ pi_name p \<and>
    (pi_name p = [] \<or> hd (pi_name p) = CHR ''/'')"
  using uh_path_lookup_below [OF assms(1,2)] assms(3) by auto

text \<open>A file system with one directory, which others can read.\<close>

definition demo_stat :: fstat where
  "demo_stat = \<lparr>st_mode = 0x4004, st_ino = 7, st_size = 0, st_mtime = 0\<rparr>"

definition demo_fs :: fsys where
  "demo_fs = \<lparr>fs_stat = (\<lambda>p. if p = ''/w'' then Some demo_stat else None),
     fs_realpath = (\<lambda>p b. (b, False)), fs_cwd = ''/''\<rparr>"

definition demo_conf :: config where
  "demo_conf = \<lparr>docroot = ''/w'', conf_realm = None, conf_file = None, index_file = None,
     error_handler = None, no_symlinks = False, no_dirlists = False, network_timeout = 30,
     rfc1918_filter = False, tcp_keepalive = 0, cgi_prefix = None, lua_prefix = None,
     lua_handler = None, lua_state = False, script_timeout = 60, conf_tls = False\<rparr>"

lemma demo_modes [simp]: "has_mode demo_stat S_IROTH" "has_mode demo_stat S_IFDIR"
  "\<not> has_mode demo_stat S_IFREG"
  by (simp_all add: has_mode_def demo_stat_def S_IROTH_def S_IFDIR_def S_IFREG_def)

definition traversal_url :: string where
  "traversal_url = ''/../xy../../w/''"

lemma traversal_decode: "lookup_decode demo_conf traversal_url = Val (''/w/../xy../../w/'', None)"
  by (simp add: lookup_decode_def demo_conf_def traversal_url_def UH_LIMIT_MSGHEAD_def Let_def
      uh_urldecode_def uh_urldecode_from.simps numeral_eq_Suc)

lemma traversal_loop:
  "canon_finish (canon_loop 4094 ''/w/../xy../../w/'' (NUL # NUL # NUL # NUL # NUL # r) 0) =
     CHR ''/'' # CHR ''w'' # NUL # CHR ''.'' # CHR ''.'' # r"
  by (simp add: canon_loop.simps canon_finish_def)

lemma traversal_canon:
  "canonpath demo_fs ''/w/../xy../../w/'' (replicate PATH_MAX NUL) =
     (CHR ''/'' # CHR ''w'' # NUL # CHR ''.'' # CHR ''.'' # replicate (PATH_MAX - 5) NUL, True)"
proof -
  have "replicate PATH_MAX NUL = NUL # NUL # NUL # NUL # NUL # replicate (PATH_MAX - 5) NUL"
    using replicate_add [of 5 "PATH_MAX - 5" NUL] by (simp add: PATH_MAX_def numeral_eq_Suc)
  then show ?thesis
    using traversal_loop by (simp add: canonpath_def canon_copy_def demo_fs_def Let_def PATH_MAX_def)
qed

lemma traversal_scan:
  "lookup_scan (canonpath demo_fs) ''/w/../xy../../w/'' 16 (replicate PATH_MAX NUL) [] =
     (CHR ''/'' # CHR ''w'' # NUL # CHR ''.'' # CHR ''.'' # replicate (PATH_MAX - 5) NUL, [])"
  using traversal_canon by (subst lookup_scan.simps) (simp add: PATH_MAX_def)

lemma traversal_slash:
  "dir_slash (CHR ''/'' # CHR ''w'' # NUL # CHR ''.'' # CHR ''.'' # replicate (PATH_MAX - 5) NUL) =
   ''/w/..''"
  by (simp add: dir_slash_def PATH_MAX_def cstr_def numeral_eq_Suc)

lemma traversal_result:
  "run_state (uh_path_lookup demo_fs demo_conf (Some traversal_url)) c =
     (Some \<lparr>pi_root = ''/w'', pi_phys = ''/w/..'', pi_name = ''/..'', pi_info = None, pi_query = None,
        pi_redirected = False, pi_stat = demo_stat\<rparr>, c)"
proof -
  have r: "resolve_with demo_fs demo_conf = canonpath demo_fs" and d: "docroot demo_conf = ''/w''"
    and i: "index_file demo_conf = None"
    by (simp_all add: resolve_with_def demo_conf_def)
  have st: "fs_stat demo_fs p = (if p = ''/w'' then Some demo_stat else None)" for p
    by (simp add: demo_fs_def)
  have l: "length ''/w/../xy../../w/'' = 16" by simp
  have "lookup_dir demo_fs demo_conf ''/w/../xy../../w/'' None ''/w/..'' demo_stat =
      return (Some \<lparr>pi_root = ''/w'', pi_phys = ''/w/..'', pi_name = ''/..'', pi_info = None,
        pi_query = None, pi_redirected = False, pi_stat = demo_stat\<rparr>)"
    by (simp add: lookup_dir_def d i st uh_index_files_def UH_LIMIT_MSGHEAD_def)
  then show ?thesis
    unfolding uh_path_lookup_def option.case traversal_decode cres.case prod.case l r traversal_scan
      Let_def traversal_slash d
    by (simp add: st within_docroot_def strneq_def)
qed

text \<open>
  C24: The path that \<open>uh_path_lookup\<close> returns for a directory can leave the document root, although
  \<open>canonpath\<close> has removed every pair of dots: setting the trailing slash in place of the
  terminator brings back what the buffer held behind it. With document root \<^verbatim>\<open>/w\<close> the request for
  \<^verbatim>\<open>/../xy../../w/\<close> is answered with the directory \<^verbatim>\<open>/w/..\<close>, the parent of the document root.
\<close>
theorem uh_path_lookup_escapes:
  "\<exists>fs conf url p. docroot conf = ''/w'' \<and> no_symlinks conf = False \<and>
     (\<forall>c. run_state (uh_path_lookup fs conf (Some url)) c = (Some p, c)) \<and>
     pi_phys p = ''/w/..'' \<and> normal_path (pi_phys p) = ''/''"
proof (intro exI conjI)
  show "\<forall>c. run_state (uh_path_lookup demo_fs demo_conf (Some traversal_url)) c =
     (Some \<lparr>pi_root = ''/w'', pi_phys = ''/w/..'', pi_name = ''/..'', pi_info = None, pi_query = None,
        pi_redirected = False, pi_stat = demo_stat\<rparr>, c)"
    by (intro allI traversal_result)
qed (simp_all add: demo_conf_def normal_path_def comp_step_def render_def)

theorem uh_path_lookup_docroot_witness:
  "take 2 (pi_phys \<lparr>pi_root = ''/w'', pi_phys = ''/w/..'', pi_name = ''/..'', pi_info = None,
        pi_query = None, pi_redirected = False, pi_stat = demo_stat\<rparr>) = ''/w'' \<and>
   run_state (uh_path_lookup demo_fs demo_conf (Some traversal_url)) (demo_conn [] []) =
     (Some \<lparr>pi_root = ''/w'', pi_phys = ''/w/..'', pi_name = ''/..'', pi_info = None,
        pi_query = None, pi_redirected = False, pi_stat = demo_stat\<rparr>, demo_conn [] [])"
  using uh_path_lookup_docroot [OF traversal_result]
    traversal_result [of "demo_conn [] []"]
  by (simp add: realpath_ok_def demo_fs_def demo_conf_def)

text \<open>The path part of a URL and its query.\<close>

definition url_path :: "string \<Rightarrow> string" where
  "url_path url = takeWhile (\<lambda>c. c \<noteq> CHR ''?'') url"

definition url_query :: "string \<Rightarrow> string option" where
  "url_query url = (case dropWhile (\<lambda>c. c \<noteq> CHR ''?'') url of c # c' # q \<Rightarrow> Some (c' # q) | _ \<Rightarrow> None)"

lemma uh_urldecode_plain:
  assumes "\<forall>i \<le> min slen blen. char_at src i \<noteq> CHR ''%''" and "slen \<le> length src"
  shows "uh_urldecode blen src slen = upto_index src (min slen blen)"
proof -
  let ?n = "min slen blen"
  have "uh_urldecode_from blen src slen i = drop i (upto_index src ?n)" for i
  proof (induction "Suc ?n - i" arbitrary: i)
    case 0
    then have "\<not> (i \<le> slen \<and> i \<le> blen)" by linarith
    with 0 show ?case using assms(2) by (subst uh_urldecode_from.simps) (simp only: if_False, simp add: upto_index_def)
  next
    case (Suc k)
    from Suc.hyps(2) have "i \<le> ?n" by linarith
    with Suc assms drop_upto_index [of i ?n src] show ?case by (subst uh_urldecode_from.simps) auto
  qed
  then show ?thesis by (simp add: uh_urldecode_def)
qed

lemma cstr_snoc_NUL: "cstr (s @ [NUL]) = cstr s"
  by (induction s) (auto simp: cstr_def)

text \<open>What the decoder writes for the path part \<open>p\<close> of a URL, which ends at index \<open>slen\<close>.\<close>

lemma lookup_decode_path:
  assumes "NUL \<notin> set d" and "length d < UH_LIMIT_MSGHEAD" and "NUL \<notin> set p"
    and "upto_index src slen = p \<and> p \<noteq> [] \<or> upto_index src slen = p @ [NUL]" and "slen \<le> length src"
    and "fits \<longleftrightarrow> length d + length p < UH_LIMIT_MSGHEAD" and "fits \<or> CHR ''%'' \<notin> set p"
  shows "let b = cstr (d @ uh_urldecode (UH_LIMIT_MSGHEAD - length d - 1) src slen) in
    if fits then b = d @ cstr (percent_decode p) \<and> length b < UH_LIMIT_MSGHEAD else length b = UH_LIMIT_MSGHEAD"
proof (cases fits)
  case True
  let ?b = "UH_LIMIT_MSGHEAD - length d - 1"
  have "length (upto_index src slen) = Suc slen" using assms(5) by simp
  then have "slen \<le> ?b" using assms(4,6) True by auto
  then have "uh_urldecode ?b src slen = percent_decode (upto_index src slen)" using assms(5) by (rule uh_urldecode_eq)
  moreover have "cstr (percent_decode (upto_index src slen)) = cstr (percent_decode p)"
    using assms(4) by (auto simp: percent_decode_snoc_NUL cstr_snoc_NUL)
  moreover have "length (cstr (percent_decode p)) \<le> length p"
    using length_cstr_le [of "percent_decode p"] length_percent_decode [of p] by linarith
  ultimately show ?thesis using True assms(1,6) by (simp add: cstr_append)
next
  case False
  let ?b = "UH_LIMIT_MSGHEAD - length d - 1"
  have len: "length (upto_index src slen) = Suc slen" using assms(5) by simp
  have b: "?b < length p" using False assms(2,6) by linarith
  then have s: "?b \<le> slen" using assms(4) len by auto
  have t: "take (Suc ?b) (upto_index src slen) = take (Suc ?b) p" using assms(4) b by auto
  have u: "upto_index src ?b = take (Suc ?b) p"
    unfolding t [symmetric] using s by (simp only: upto_index_def take_take min_absorb1 Suc_le_mono)
  have "char_at src i \<noteq> CHR ''%''" if "i \<le> ?b" for i
  proof -
    have "char_at src i = upto_index src ?b ! i" using that s assms(5) by (auto simp: upto_index_def char_at_def nth_append)
    also have "\<dots> = p ! i" using u that b by simp
    finally show ?thesis using False assms(7) that b by (metis nth_mem order_le_less_trans)
  qed
  then have "uh_urldecode ?b src slen = take (Suc ?b) p"
    using uh_urldecode_plain [of slen ?b src] s assms(5) u by (simp add: min_absorb2)
  moreover have "NUL \<notin> set (take (Suc ?b) p)" using assms(3) by (meson in_set_takeD)
  ultimately show ?thesis using False b assms(1,2) by (simp add: cstr_append cstr_no_NUL)
qed

lemma lookup_result:
  "(if fits then b = x \<and> length b < n else length b = n) \<Longrightarrow>
    r = (if length b < n then Val (b, q) else UB) \<Longrightarrow> r = (if fits then Val (x, q) else UB)"
  by (cases fits) auto

text \<open>
  C33: How much of a request fits. As long as the document root and the path part of the URL, as
  it was sent, are together shorter than the buffer, \<open>uh_path_lookup\<close> works on the document root
  followed by the decoded path (up to a decoded NUL), and on what follows the question mark as
  query. A path without escapes that does not fit fills the buffer to its last byte, no
  terminator is left, and the code reads past the end of the buffer.
\<close>
theorem lookup_decode_bound:
  assumes "NUL \<notin> set (docroot conf)" and "length (docroot conf) < UH_LIMIT_MSGHEAD" and "NUL \<notin> set url"
    and "length (docroot conf) + length (url_path url) < UH_LIMIT_MSGHEAD \<or> CHR ''%'' \<notin> set (url_path url)"
  shows "lookup_decode conf url =
    (if length (docroot conf) + length (url_path url) < UH_LIMIT_MSGHEAD
     then Val (docroot conf @ cstr (percent_decode (url_path url)), url_query url) else UB)"
proof (cases "CHR ''?'' \<in> set url")
  case False
  then have "dropWhile (\<lambda>c. c \<noteq> CHR ''?'') url = []" "takeWhile (\<lambda>c. c \<noteq> CHR ''?'') url = url"
    unfolding dropWhile_eq_Nil_conv takeWhile_eq_all_conv by metis+
  then have "url_path url = url" "url_query url = None" "strchr url (CHR ''?'') = None"
    unfolding url_path_def url_query_def strchr_None_iff using False by (simp_all only: list.case simp_thms)
  note u = this
  let ?fits = "length (docroot conf) + length (url_path url) < UH_LIMIT_MSGHEAD"
  let ?b = "cstr (docroot conf @ uh_urldecode (UH_LIMIT_MSGHEAD - length (docroot conf) - 1) url (length url))"
  have "if ?fits then ?b = docroot conf @ cstr (percent_decode (url_path url)) \<and> length ?b < UH_LIMIT_MSGHEAD
      else length ?b = UH_LIMIT_MSGHEAD"
    using lookup_decode_path [OF assms(1-3), of url "length url" ?fits, unfolded Let_def] assms(4)
    unfolding u(1) upto_index_full by (simp only: order_refl simp_thms True_implies_equals)
  moreover have "lookup_decode conf url = (if length ?b < UH_LIMIT_MSGHEAD then Val (?b, None) else UB)"
    unfolding lookup_decode_def Let_def u(3) option.case prod.case ..
  ultimately show ?thesis unfolding u(2) by (rule lookup_result)
next
  case True
  then obtain p q where url: "url = p @ CHR ''?'' # q" "CHR ''?'' \<notin> set p" by (meson split_list_first)
  then have p: "url_path url = p" "strchr url (CHR ''?'') = Some (length p)"
    by (auto simp: url_path_def strchr_append_notin takeWhile_append)
  have q: "(if char_at url (Suc (length p)) \<noteq> NUL then Some (drop (Suc (length p)) url) else None) = url_query url"
    using assms(3) url by (cases q) (auto simp: url_query_def dropWhile_append char_at_def nth_append)
  show ?thesis
  proof (cases p)
    case Nil
    have "lookup_decode conf url = (if length (cstr (docroot conf @ [])) < UH_LIMIT_MSGHEAD
        then Val (cstr (docroot conf @ []), url_query url) else UB)"
      unfolding lookup_decode_def Let_def p(2) option.case prod.case q using Nil by simp
    with p(1) Nil assms(1,2) show ?thesis by (simp add: cstr_no_NUL)
  next
    case (Cons c r)
    then have "upto_index url (length p - 1) = p" "length p - 1 \<le> length url" using url(1) by (simp_all add: upto_index_def)
    moreover have "NUL \<notin> set p" using assms(3) url(1) by simp
    moreover let ?fits = "length (docroot conf) + length p < UH_LIMIT_MSGHEAD"
    let ?b = "cstr (docroot conf @ uh_urldecode (UH_LIMIT_MSGHEAD - length (docroot conf) - 1) url (length p - 1))"
    have "0 < length p" "p \<noteq> []" using Cons by simp_all
    ultimately have "if ?fits then ?b = docroot conf @ cstr (percent_decode p) \<and> length ?b < UH_LIMIT_MSGHEAD
        else length ?b = UH_LIMIT_MSGHEAD"
      using lookup_decode_path [OF assms(1,2), of p url "length p - 1" ?fits, unfolded Let_def] assms(4)
      unfolding p(1) by (simp only: simp_thms True_implies_equals)
    moreover have "lookup_decode conf url = (if length ?b < UH_LIMIT_MSGHEAD then Val (?b, url_query url) else UB)"
      unfolding lookup_decode_def Let_def p(2) option.case prod.case q using \<open>0 < length p\<close> by (simp only: if_True)
    ultimately show ?thesis unfolding p(1) by (rule lookup_result)
  qed
qed

theorem lookup_decode_bound_witness:
  "lookup_decode demo_conf (replicate 4094 CHR ''a'') = UB \<and> lookup_decode demo_conf ''/a%20b?x=y'' = Val (''/w/a b'', Some ''x=y'')"
proof
  have "url_path (replicate 4094 CHR ''a'') = replicate 4094 CHR ''a''" by (simp add: url_path_def takeWhile_eq_all_conv)
  then show "lookup_decode demo_conf (replicate 4094 CHR ''a'') = UB"
    using lookup_decode_bound [of demo_conf "replicate 4094 CHR ''a''"] by (simp add: demo_conf_def UH_LIMIT_MSGHEAD_def)
  have p: "url_path ''/a%20b?x=y'' = ''/a%20b''" "url_query ''/a%20b?x=y'' = Some ''x=y''" by (simp_all add: url_path_def url_query_def)
  have "percent_decode ''/a%20b'' = ''/a b''" by code_simp
  then show "lookup_decode demo_conf ''/a%20b?x=y'' = Val (''/w/a b'', Some ''x=y'')"
    using lookup_decode_bound [of demo_conf "''/a%20b?x=y''"] by (simp add: p demo_conf_def UH_LIMIT_MSGHEAD_def cstr_def)
qed

end
