(* ===== verification/Uh_Auth.thy ===== *)
theory Uh_Auth
  imports Uh_Path
begin

text \<open>
  The tables uhttpd keeps as linked lists, newest entry first (\<^verbatim>\<open>uhttpd-utils.c\<close>): the protected
  realms with \<open>uh_auth_add\<close> and \<open>uh_auth_check\<close>, the listeners, the clients and the script
  interpreters. Parameters: the password databases (\<^verbatim>\<open>getspnam()\<close>, \<^verbatim>\<open>getpwnam()\<close>), \<^verbatim>\<open>crypt()\<close>, the
  addresses of a socket, and whether \<^verbatim>\<open>malloc()\<close> succeeds.

  The locales \<open>socket_table\<close> and \<open>socket_registry\<close> state what the main loop relies on when it looks
  up, adds and removes entries by their socket; the listeners implement the first, the clients
  the second.
\<close>

section \<open>Realms\<close>

text \<open>What the C library answers for the user named in a password of the form \<^verbatim>\<open>$p$user\<close>.\<close>

record pwdb =
  have_shadow :: bool
  getspnam :: "string \<Rightarrow> string option"
  getpwnam :: "string \<Rightarrow> string option"

definition auth_password :: "pwdb \<Rightarrow> string \<Rightarrow> string" where
  "auth_password db pass =
     (if 3 < length pass \<and> strneq pass ''$p$'' 3
      then let user = drop 3 pass;
               from_passwd = (case getpwnam db user of
                   Some w \<Rightarrow> if char_at w 0 \<noteq> CHR ''!'' \<and> char_at w 0 \<noteq> NUL then take 127 w else []
                 | None \<Rightarrow> [])
           in if have_shadow db
              then case getspnam db user of Some w \<Rightarrow> take 127 w | None \<Rightarrow> from_passwd
              else from_passwd
      else take 127 pass)"

text \<open>The new list of realms and the realm added, if any; \<open>mem\<close>: \<^verbatim>\<open>malloc()\<close> succeeds.\<close>

definition uh_auth_add :: "bool \<Rightarrow> pwdb \<Rightarrow> string \<Rightarrow> string \<Rightarrow> string \<Rightarrow> auth_realm list \<Rightarrow>
    auth_realm option \<times> auth_realm list" where
  "uh_auth_add mem db path user pass uh_realms =
     (if mem
      then let new = \<lparr>realm_path = take (PATH_MAX - 1) path, realm_user = take 31 user,
                      realm_pass = auth_password db pass\<rparr>
           in if char_at (realm_pass new) 0 \<noteq> NUL then (Some new, new # uh_realms) else (None, uh_realms)
      else (None, uh_realms))"

definition realm_covers :: "string \<Rightarrow> auth_realm \<Rightarrow> bool" where
  "realm_covers name realm \<longleftrightarrow> length (realm_path realm) \<le> length name \<and>
     strncaseeq name (realm_path realm) (length (realm_path realm))"

text \<open>The loops over the realms: the first one that satisfies the condition.\<close>

fun find_realm :: "(auth_realm \<Rightarrow> bool) \<Rightarrow> auth_realm list \<Rightarrow> auth_realm option" where
  "find_realm p [] = None"
| "find_realm p (realm # rest) = (if p realm then Some realm else find_realm p rest)"

text \<open>
  The loop over the request headers: the first basic authorization, decoded and split at the
  first colon. It ends at that header even where it has no colon.
\<close>

fun auth_info :: "(string \<times> string) list \<Rightarrow> (string \<times> string) option" where
  "auth_info [] = None"
| "auth_info ((h, v) # hs) =
     (if strcaseeq h ''Authorization'' \<and> 6 < length v \<and> strncaseeq v ''Basic '' 6
      then let buffer = cstr (uh_b64decode (UH_LIMIT_MSGHEAD - 1) (drop 6 v) (length v - 6))
           in case strchr buffer (CHR '':'') of
                Some k \<Rightarrow> Some (take k buffer, drop (Suc k) buffer)
              | None \<Rightarrow> None
      else auth_info hs)"

text \<open>\<open>None\<close>: \<^verbatim>\<open>crypt()\<close> has failed and its null pointer is compared.\<close>

definition pass_matches :: "(string \<Rightarrow> string \<Rightarrow> string option) \<Rightarrow> auth_realm \<Rightarrow> string \<Rightarrow> bool option" where
  "pass_matches crypt realm pass =
     (if char_at (realm_pass realm) 0 = CHR ''$''
      then map_option (\<lambda>h. h = realm_pass realm) (crypt pass (realm_pass realm))
      else Some (pass = realm_pass realm))"

definition auth_401 :: "config \<Rightarrow> http_request \<Rightarrow> string \<Rightarrow> string" where
  "auth_401 conf req realm =
     ''HTTP/'' @ fmt_version (req_version req) @ '' 401 Authorization Required'' @ CRLF @
     ''WWW-Authenticate: Basic realm='' @ [CHR 0x22] @ realm @ [CHR 0x22] @ CRLF @
     ''Content-Type: text/plain'' @ CRLF @ ''Content-Length: 23'' @ CRLF @ CRLF @
     ''Authorization Required'' @ [LF]"

definition auth_deny :: "config \<Rightarrow> http_request \<Rightarrow> (http_request \<times> bool) io" where
  "auth_deny conf req = do {
     _ \<leftarrow> (case conf_realm conf of Some r \<Rightarrow> uh_http_sendf None (auth_401 conf req r) | None \<Rightarrow> ub);
     return (req, False) }"

definition uh_auth_check :: "(string \<Rightarrow> string \<Rightarrow> string option) \<Rightarrow> config \<Rightarrow> auth_realm list \<Rightarrow>
    http_request \<Rightarrow> path_info \<Rightarrow> (http_request \<times> bool) io" where
  "uh_auth_check crypt conf uh_realms req pi =
     (case find_realm (realm_covers (pi_name pi)) uh_realms of
        None \<Rightarrow> return (req, True)
      | Some realm \<Rightarrow>
          (let req1 = req\<lparr>req_realm := Some realm\<rparr> in
           case auth_info (req_headers req) of
             None \<Rightarrow> auth_deny conf req1
           | Some (user, pass) \<Rightarrow>
               (case find_realm (\<lambda>r. realm_covers (pi_name pi) r \<and> user = realm_user r) uh_realms of
                  None \<Rightarrow> auth_deny conf req1
                | Some r \<Rightarrow>
                    (let req2 = req\<lparr>req_realm := Some r\<rparr> in
                     case pass_matches crypt r pass of
                       None \<Rightarrow> do { _ \<leftarrow> ub; return (req2, False) }
                     | Some True \<Rightarrow> return (req2, True)
                     | Some False \<Rightarrow> auth_deny conf req2))))"

section \<open>Listeners and clients\<close>

record netenv =
  getsockname :: "int \<Rightarrow> sockaddr"
  getpeername :: "int \<Rightarrow> sockaddr"

record listener =
  ls_socket :: int
  ls_addr :: sockaddr
  ls_conf :: config
  ls_tls :: bool

record client =
  c_socket :: int
  c_server :: listener
  c_servaddr :: sockaddr
  c_peeraddr :: sockaddr
  c_tls :: bool

definition uh_listener_add :: "bool \<Rightarrow> netenv \<Rightarrow> int \<Rightarrow> config \<Rightarrow> listener list \<Rightarrow>
    listener option \<times> listener list" where
  "uh_listener_add mem net sock conf uh_listeners =
     (if mem
      then let new = \<lparr>ls_socket = sock, ls_addr = getsockname net sock, ls_conf = conf, ls_tls = False\<rparr>
           in (Some new, new # uh_listeners)
      else (None, uh_listeners))"

fun uh_listener_lookup :: "listener list \<Rightarrow> int \<Rightarrow> listener option" where
  "uh_listener_lookup [] sock = None"
| "uh_listener_lookup (cur # rest) sock =
     (if ls_socket cur = sock then Some cur else uh_listener_lookup rest sock)"

definition uh_client_add :: "bool \<Rightarrow> netenv \<Rightarrow> int \<Rightarrow> listener \<Rightarrow> client list \<Rightarrow>
    client option \<times> client list" where
  "uh_client_add mem net sock serv uh_clients =
     (if mem
      then let new = \<lparr>c_socket = sock, c_server = serv, c_servaddr = getsockname net sock,
                      c_peeraddr = getpeername net sock, c_tls = False\<rparr>
           in (Some new, new # uh_clients)
      else (None, uh_clients))"

fun uh_client_lookup :: "client list \<Rightarrow> int \<Rightarrow> client option" where
  "uh_client_lookup [] sock = None"
| "uh_client_lookup (cur # rest) sock =
     (if c_socket cur = sock then Some cur else uh_client_lookup rest sock)"

fun uh_client_remove :: "client list \<Rightarrow> int \<Rightarrow> client list" where
  "uh_client_remove [] sock = []"
| "uh_client_remove (cur # rest) sock =
     (if c_socket cur = sock then rest else cur # uh_client_remove rest sock)"

section \<open>Interpreters\<close>

definition uh_interpreter_add :: "bool \<Rightarrow> string \<Rightarrow> string \<Rightarrow> interpreter list \<Rightarrow>
    interpreter option \<times> interpreter list" where
  "uh_interpreter_add mem extn path uh_interpreters =
     (if mem
      then let new = \<lparr>ipr_path = take (PATH_MAX - 1) path, ipr_extn = take 31 extn\<rparr>
           in (Some new, new # uh_interpreters)
      else (None, uh_interpreters))"

text \<open>
  The difference of the two lengths is unsigned, so that \<^verbatim>\<open>max(..., 0)\<close> never applies: with an
  extension longer than the path the comparison starts in front of the path.
\<close>

fun uh_interpreter_lookup :: "interpreter list \<Rightarrow> string \<Rightarrow> interpreter option cres" where
  "uh_interpreter_lookup [] path = Val None"
| "uh_interpreter_lookup (cur # rest) path =
     (if length path < length (ipr_extn cur) then UB
      else if drop (length path - length (ipr_extn cur)) path = ipr_extn cur then Val (Some cur)
      else uh_interpreter_lookup rest path)"

section \<open>Tables of sockets\<close>

locale socket_table =
  fixes key :: "'e \<Rightarrow> int" and add :: "'e \<Rightarrow> 't \<Rightarrow> 't" and lookup :: "'t \<Rightarrow> int \<Rightarrow> 'e option"
    and socks :: "'t \<Rightarrow> int list"
  assumes lookup_add: "lookup (add x t) k = (if key x = k then Some x else lookup t k)"
    and lookup_None: "lookup t k = None \<longleftrightarrow> k \<notin> set (socks t)"
    and lookup_key: "lookup t k = Some x \<Longrightarrow> key x = k"
    and socks_add: "socks (add x t) = key x # socks t"
begin

lemma lookup_iff: "(\<exists>x. lookup t k = Some x) \<longleftrightarrow> k \<in> set (socks t)"
  using lookup_None [of t k] by auto

lemma distinct_add: "distinct (socks t) \<Longrightarrow> lookup t (key x) = None \<Longrightarrow> distinct (socks (add x t))"
  by (simp add: socks_add lookup_None)

end

locale socket_registry = socket_table +
  fixes del :: "'t \<Rightarrow> int \<Rightarrow> 't"
  assumes lookup_del_other: "k \<noteq> j \<Longrightarrow> lookup (del t k) j = lookup t j"
    and socks_del: "socks (del t k) = remove1 k (socks t)"
begin

lemma distinct_del: "distinct (socks t) \<Longrightarrow> distinct (socks (del t k))"
  by (simp add: socks_del distinct_remove1)

lemma lookup_del:
  "distinct (socks t) \<Longrightarrow> lookup (del t k) j = (if k = j then None else lookup t j)"
  by (auto simp: lookup_None socks_del lookup_del_other set_remove1_eq)

lemma del_add:
  "distinct (socks t) \<Longrightarrow> lookup t (key x) = None \<Longrightarrow> lookup (del (add x t) (key x)) j = lookup t j"
  by (auto simp: lookup_del distinct_add lookup_add)

end

interpretation listeners: socket_table ls_socket "(#)" uh_listener_lookup "map ls_socket"
proof
  show "uh_listener_lookup t k = None \<longleftrightarrow> k \<notin> set (map ls_socket t)" for t k
    by (induction t) auto
  show "uh_listener_lookup t k = Some x \<Longrightarrow> ls_socket x = k" for t k x
    by (induction t) (auto split: if_splits)
qed auto

interpretation clients: socket_registry c_socket "(#)" uh_client_lookup "map c_socket" uh_client_remove
proof
  show "uh_client_lookup t k = None \<longleftrightarrow> k \<notin> set (map c_socket t)" for t k
    by (induction t) auto
  show "uh_client_lookup t k = Some x \<Longrightarrow> c_socket x = k" for t k x
    by (induction t) (auto split: if_splits)
  show "k \<noteq> j \<Longrightarrow> uh_client_lookup (uh_client_remove t k) j = uh_client_lookup t j" for t k j
    by (induction t) auto
  show "map c_socket (uh_client_remove t k) = remove1 k (map c_socket t)" for t k
    by (induction t) auto
qed auto

text \<open>
  The client table behaves as a map from sockets to clients. When the sockets in it are
  distinct and a new connection's socket is not among them, adding the connection makes it, and
  nothing else, available under its socket, with the server and the addresses it was added with;
  removing a socket makes exactly that socket unavailable; both keep the sockets distinct.
\<close>
lemma uh_clients_registry:
  assumes "distinct (map c_socket cls)" and "uh_client_lookup cls sock = None"
    and "uh_client_add True net sock serv cls = (new, cls')"
  shows "(\<exists>x. new = Some x \<and> c_server x = serv \<and> c_peeraddr x = getpeername net sock \<and>
      (\<forall>k. uh_client_lookup cls' k = (if k = sock then Some x else uh_client_lookup cls k))) \<and>
    distinct (map c_socket cls') \<and>
    (\<forall>j k. uh_client_lookup (uh_client_remove cls' j) k =
        (if k = j then None else uh_client_lookup cls' k)) \<and>
    (\<forall>j. distinct (map c_socket (uh_client_remove cls' j)))"
proof -
  let ?x = "\<lparr>c_socket = sock, c_server = serv, c_servaddr = getsockname net sock,
     c_peeraddr = getpeername net sock, c_tls = False\<rparr>"
  from assms(3) have n: "new = Some ?x" "cls' = ?x # cls" by (auto simp: uh_client_add_def Let_def)
  have d: "distinct (map c_socket cls')"
    using clients.distinct_add [OF assms(1), of ?x] assms(2) n by simp
  moreover have "uh_client_lookup cls' k = (if k = sock then Some ?x else uh_client_lookup cls k)" for k
    using n by simp
  ultimately show ?thesis
    using n clients.lookup_del [OF d] clients.distinct_del [OF d] by auto
qed

definition demo_listener :: listener where
  "demo_listener = \<lparr>ls_socket = 3, ls_addr = AF_INET 0 80, ls_conf = demo_conf, ls_tls = False\<rparr>"

definition demo_net :: netenv where
  "demo_net = \<lparr>getsockname = \<lambda>s. AF_INET 0xC0A80101 80, getpeername = \<lambda>s. AF_INET 0xC0A80102 1025\<rparr>"

definition demo_clients :: "client list" where
  "demo_clients = snd (uh_client_add True demo_net 5 demo_listener [])"

lemma uh_clients_registry_example:
  "let (_, cls) = uh_client_add True demo_net 7 demo_listener demo_clients
   in uh_client_lookup (uh_client_remove cls 5) 5 = None \<and> uh_client_lookup (uh_client_remove cls 5) 7 \<noteq> None"
proof -
  obtain new cls where e: "uh_client_add True demo_net 7 demo_listener demo_clients = (new, cls)"
    by (metis prod.exhaust)
  have "distinct (map c_socket demo_clients)" "uh_client_lookup demo_clients 7 = None"
    by (simp_all add: demo_clients_def uh_client_add_def Let_def)
  from uh_clients_registry [OF this e] obtain x where
    "uh_client_lookup cls 7 = Some x"
    "uh_client_lookup (uh_client_remove cls j) k = (if k = j then None else uh_client_lookup cls k)" for j k
    by auto
  with e show ?thesis by simp
qed

section \<open>Properties of the interpreter table\<close>

text \<open>
  \<open>uh_interpreter_lookup\<close> returns the most recently added interpreter whose extension is a
  suffix of the path, and nothing when there is none; unless an interpreter that is newer than
  that one has an extension longer than the whole path, in which case the code reads in front
  of the path.
\<close>
lemma uh_interpreter_lookup_spec:
  "uh_interpreter_lookup ips path =
    (if list_ex (\<lambda>i. length path < length (ipr_extn i))
          (takeWhile (\<lambda>i. \<not> suffix (ipr_extn i) path) ips)
     then UB else Val (find (\<lambda>i. suffix (ipr_extn i) path) ips))"
proof (induction ips)
  case (Cons i ips)
  have "suffix (ipr_extn i) path \<longleftrightarrow> length (ipr_extn i) \<le> length path \<and>
      drop (length path - length (ipr_extn i)) path = ipr_extn i"
    by (auto simp: suffix_def intro: exI [of _ "take (length path - length (ipr_extn i)) path"])
      (metis append_take_drop_id)
  with Cons show ?case by auto
qed simp

section \<open>Properties of the access check\<close>

lemma find_realm_find: "find_realm p rs = find p rs"
  by (induction rs) auto

lemma auth_deny_run [simp]: "run_state (auth_deny conf req) c \<noteq> ((req', True), c')"
  by (auto simp: auth_deny_def split: prod.splits)

lemma auth_deny_emits:
  assumes "conf_realm conf = Some r" and "length (auth_401 conf req r) < UH_LIMIT_MSGHEAD" and "reliable c"
  shows "run_state (auth_deny conf req) c = ((req, False), c\<lparr>tx := tx c @ auth_401 conf req r\<rparr>)"
proof -
  have "emits (uh_http_sendf None (auth_401 conf req r)) (auth_401 conf req r)"
    using sendf_em.op_emits [OF assms(2), of None] by (simp add: send_text_def wants_chunked_def)
  from emitsE [OF this assms(3)] assms(1) show ?thesis by (force simp: auth_deny_def)
qed

lemma auth_deny_401:
  assumes "run_state (auth_deny conf req1) c = ((req', ok), c')" and "req_version req1 = req_version req"
    and "conf_realm conf = Some name" and "length name < 1024" and "reliable c"
  shows "\<not> ok \<and> c' = c\<lparr>tx := tx c @ auth_401 conf req name\<rparr>"
proof -
  have "length (auth_401 conf req1 name) < UH_LIMIT_MSGHEAD"
    using assms(4) by (cases "req_version req1") (auto simp: auth_401_def UH_LIMIT_MSGHEAD_def)
  moreover have "auth_401 conf req1 name = auth_401 conf req name" using assms(2) by (simp add: auth_401_def)
  ultimately show ?thesis using auth_deny_emits [OF assms(3) _ assms(5), of req1] assms(1) by simp
qed

text \<open>
  C3: Access to a protected name needs valid credentials: when a realm covers the name and
  \<open>uh_auth_check\<close> grants access, then the request carries a basic authorization whose user has a
  realm covering the name, and the password given is that realm's password, or encrypts to it
  where it is stored encrypted. When no realm covers the name, access is granted and nothing is
  sent. Whenever access is refused, for a missing or unusable header, an unknown user or a wrong
  password, exactly the 401 message is sent; when it is granted, nothing. (A \<^verbatim>\<open>crypt()\<close> that
  returns \<^verbatim>\<open>NULL\<close> makes the code read through it.)
\<close>
theorem uh_auth_check_sound:
  assumes "run_state (uh_auth_check crypt conf realms req pi) c = ((req', ok), c')"
  shows "(ok \<and> list_ex (realm_covers (pi_name pi)) realms \<longrightarrow>
      (\<exists>user pass r. auth_info (req_headers req) = Some (user, pass) \<and> r \<in> set realms \<and>
         realm_covers (pi_name pi) r \<and> realm_user r = user \<and> req_realm req' = Some r \<and>
         (if char_at (realm_pass r) 0 = CHR ''$'' then crypt pass (realm_pass r) = Some (realm_pass r)
          else pass = realm_pass r))) \<and>
    (\<not> list_ex (realm_covers (pi_name pi)) realms \<longrightarrow> ok \<and> c' = c) \<and>
    (conf_realm conf = Some name \<and> length name < 1024 \<and> reliable c \<and>
     (auth_info (req_headers req) = None \<or> (\<forall>key salt. crypt key salt \<noteq> None)) \<longrightarrow>
       c' = (if ok then c else c\<lparr>tx := tx c @ auth_401 conf req name\<rparr>))"
proof (cases "find (realm_covers (pi_name pi)) realms")
  case None
  then have "\<not> list_ex (realm_covers (pi_name pi)) realms" by (simp add: find_None_iff list_ex_iff)
  with None assms show ?thesis by (simp add: uh_auth_check_def find_realm_find)
next
  case (Some realm)
  then have cov: "list_ex (realm_covers (pi_name pi)) realms" by (auto simp: find_Some_iff list_ex_iff)
  note check = assms [unfolded uh_auth_check_def find_realm_find Some option.case Let_def]
  have deny: ?thesis if "run_state (auth_deny conf (req\<lparr>req_realm := x\<rparr>)) c = ((req', ok), c')" for x
    using that cov auth_deny_401 [OF that, of req name] by auto
  show ?thesis
  proof (cases "auth_info (req_headers req)")
    case None
    with check show ?thesis by (intro deny) simp
  next
    case (Some cred)
    obtain user pass where cr: "auth_info (req_headers req) = Some (user, pass)" using Some by (cases cred) auto
    let ?p = "\<lambda>r. realm_covers (pi_name pi) r \<and> user = realm_user r"
    show ?thesis
    proof (cases "find ?p realms")
      case None
      with check cr show ?thesis by (intro deny) simp
    next
      case (Some r)
      then have r: "r \<in> set realms" "?p r" by (auto simp: find_Some_iff)
      show ?thesis
      proof (cases "pass_matches crypt r pass")
        case None
        with check cr Some have "\<not> ok" by (auto split: prod.splits)
        moreover from None have "crypt pass (realm_pass r) = None" by (auto simp: pass_matches_def split: if_splits option.splits)
        then have "(\<forall>key salt. crypt key salt \<noteq> None) = False" by blast
        ultimately show ?thesis using cov cr by (simp only: simp_thms option.distinct if_False)
      next
        case m: (Some b)
        show ?thesis
        proof (cases b)
          case True
          with check cr Some m have "ok" "req' = req\<lparr>req_realm := Some r\<rparr>" "c' = c" by auto
          moreover from True m have "if char_at (realm_pass r) 0 = CHR ''$'' then crypt pass (realm_pass r) = Some (realm_pass r)
              else pass = realm_pass r" by (auto simp: pass_matches_def split: if_splits option.splits)
          ultimately show ?thesis using cov cr r by auto
        next
          case False
          with check cr Some m show ?thesis by (intro deny) simp
        qed
      qed
    qed
  qed
qed

definition demo_realm :: auth_realm where
  "demo_realm = \<lparr>realm_path = ''/adm'', realm_user = ''root'', realm_pass = ''pw''\<rparr>"

definition demo_path :: path_info where
  "demo_path = \<lparr>pi_root = ''/w'', pi_phys = ''/w/adm/x'', pi_name = ''/adm/x'', pi_info = None,
     pi_query = None, pi_redirected = False, pi_stat = demo_stat\<rparr>"

theorem uh_auth_check_sound_witness:
  "tx (snd (run_state (uh_auth_check (\<lambda>p s. None) (demo_conf\<lparr>conf_realm := Some ''Area''\<rparr>) [demo_realm]
      demo_req demo_path) (demo_conn [] []))) =
   auth_401 (demo_conf\<lparr>conf_realm := Some ''Area''\<rparr>) demo_req ''Area''"
proof -
  obtain req' ok c' where e: "run_state (uh_auth_check (\<lambda>p s. None) (demo_conf\<lparr>conf_realm := Some ''Area''\<rparr>)
      [demo_realm] demo_req demo_path) (demo_conn [] []) = ((req', ok), c')" by (metis prod.exhaust)
  have cov: "realm_covers (pi_name demo_path) demo_realm"
    by (simp add: realm_covers_def demo_path_def demo_realm_def strncaseeq_def)
  have "auth_info (req_headers demo_req) = None" "tx (demo_conn [] []) = []" "reliable (demo_conn [] [])"
    by (simp_all add: demo_req_def demo_conn_def reliable_def)
  with uh_auth_check_sound [OF e, of "''Area''"] cov e show ?thesis by (auto split: if_splits)
qed

lemma b64_encode_not_Nil: "s \<noteq> [] \<Longrightarrow> b64_encode s \<noteq> []"
  by (cases s rule: b64_encode.cases) (auto simp: b64_group_def)

lemma auth_info_basic:
  assumes "NUL \<notin> set (user @ pass)" and "CHR '':'' \<notin> set user"
    and "b64_room (user @ '':'' @ pass) < UH_LIMIT_MSGHEAD - 1"
  shows "auth_info ((''Authorization'', ''Basic '' @ b64_encode (user @ '':'' @ pass)) # hs) = Some (user, pass)"
proof -
  let ?s = "user @ CHR '':'' # pass"
  have "NUL \<notin> set ?s" using assms(1) by auto
  from uh_b64decode_encode [OF this, of "UH_LIMIT_MSGHEAD - 1"] assms(3)
  have "cstr (uh_b64decode (UH_LIMIT_MSGHEAD - 1) (b64_encode ?s) (length (b64_encode ?s))) = ?s"
    by simp
  moreover have "b64_encode ?s \<noteq> []" by (rule b64_encode_not_Nil) simp
  ultimately show ?thesis
    using strchr_append_notin [OF assms(2), of pass] by (simp add: Let_def strncaseeq_def)
qed

text \<open>
  C22: A user added with a plain password gets in with that password and with no other: after
  \<open>uh_auth_add\<close> has registered a realm, a request for a name below the realm's path whose first
  header is the basic authorization of that user is granted exactly when the password sent is
  the registered one. Names and passwords are of the sizes the table has room for.
\<close>
theorem uh_auth_add_check:
  assumes "uh_auth_add True db path user pass realms = (new, realms')"
    and "char_at pass 0 \<noteq> CHR ''$''" and "pass \<noteq> []" and "NUL \<notin> set (user @ pass)" and "CHR '':'' \<notin> set user"
    and "length user < 32" and "length pass < 128" and "length path < PATH_MAX"
    and "strncaseeq (pi_name pi) path (length path)" and "length path \<le> length (pi_name pi)"
    and "req_headers req = (''Authorization'', ''Basic '' @ b64_encode (user @ '':'' @ sent)) # hs"
    and "NUL \<notin> set sent" and "length sent < 1024"
    and "run_state (uh_auth_check crypt conf realms' req pi) c = ((req', ok), c')"
  shows "ok \<longleftrightarrow> sent = pass"
proof -
  have "\<not> strneq pass ''$p$'' 3" using assms(2,3) by (cases pass) (auto simp: strneq_def)
  then have pw: "auth_password db pass = pass" using assms(7) by (simp add: auth_password_def)
  have "char_at pass 0 \<noteq> NUL" using assms(3,4) by (cases pass) auto
  with assms(1,6,8) pw have r: "realms' = \<lparr>realm_path = path, realm_user = user, realm_pass = pass\<rparr> # realms"
    by (auto simp: uh_auth_add_def Let_def)
  have "b64_room (user @ '':'' @ sent) < UH_LIMIT_MSGHEAD - 1"
    using assms(6,13) by (simp add: b64_room_def UH_LIMIT_MSGHEAD_def)
  with auth_info_basic [of user sent hs] assms(4,5,11,12)
  have "auth_info (req_headers req) = Some (user, sent)" by auto
  with assms(2,9,10,14) r show ?thesis
    by (auto simp: uh_auth_check_def realm_covers_def Let_def pass_matches_def split: bool.splits if_splits)
qed

theorem uh_auth_add_check_witness:
  "snd (fst (run_state (uh_auth_check (\<lambda>p s. None) demo_conf
      (snd (uh_auth_add True \<lparr>have_shadow = False, getspnam = \<lambda>u. None, getpwnam = \<lambda>u. None\<rparr> ''/adm'' ''root'' ''pw'' []))
      (demo_req\<lparr>req_headers := [(''Authorization'', ''Basic '' @ b64_encode ''root:pw'')]\<rparr>) demo_path) (demo_conn [] [])))"
proof -
  let ?db = "\<lparr>have_shadow = False, getspnam = \<lambda>u. None, getpwnam = \<lambda>u. None\<rparr>"
  obtain new realms where e: "uh_auth_add True ?db ''/adm'' ''root'' ''pw'' [] = (new, realms)"
    by (metis prod.exhaust)
  obtain req' ok c' where f: "run_state (uh_auth_check (\<lambda>p s. None) demo_conf realms
      (demo_req\<lparr>req_headers := [(''Authorization'', ''Basic '' @ b64_encode ''root:pw'')]\<rparr>) demo_path)
      (demo_conn [] []) = ((req', ok), c')" by (metis prod.exhaust)
  let ?req = "demo_req\<lparr>req_headers := [(''Authorization'', ''Basic '' @ b64_encode ''root:pw'')]\<rparr>"
  have h: "strncaseeq (pi_name demo_path) ''/adm'' (length ''/adm'')" "length ''/adm'' \<le> length (pi_name demo_path)"
    "req_headers ?req = (''Authorization'', ''Basic '' @ b64_encode (''root'' @ '':'' @ ''pw'')) # []"
    by (simp_all add: demo_path_def strncaseeq_def)
  from uh_auth_add_check [OF e _ _ _ _ _ _ _ h _ _ f] f e show ?thesis by (simp add: PATH_MAX_def)
qed

end
