(* ===== verification/Uh_Request.thy ===== *)
theory Uh_Request
  imports Uh_Auth
begin

text \<open>
  Receiving and parsing the head of a request (\<^verbatim>\<open>uhttpd.c\<close>): \<open>uh_http_header_parse\<close> works in place
  on the buffer the head was read into and cuts it into strings by writing terminators;
  \<open>uh_http_header_recv\<close> peeks at the socket until the empty line has arrived, so that the bytes
  of the body are left to be read.

  Shown: a printed request parses to itself; every rejection is answered with its status; and a
  request that arrives in any number of pieces is received, with the body left unread.
\<close>

section \<open>Parsing\<close>

text \<open>
  The loop over the header fields from index \<open>i\<close>. A stored string is read when its terminator is
  written: the loop does not change the bytes before \<open>i\<close> any more. \<open>None\<close>: too many fields.
\<close>

function header_fields :: "nat \<Rightarrow> string \<Rightarrow> nat \<Rightarrow> nat option \<Rightarrow> nat option \<Rightarrow> (string \<times> string) list \<Rightarrow>
    (string \<times> string) list option" where
  "header_fields buflen buffer i hdrname hdrdata headers =
     (if i < buflen
      then case (hdrname, hdrdata) of
          (Some n, Some d) \<Rightarrow>
            if char_at buffer i = CR \<or> char_at buffer i = LF
            then let b = buffer[i := NUL]
                 in if 2 * length headers + 1 < UH_LIMIT_HEADERS
                    then header_fields buflen b (i + 1) None None
                           (headers @ [(cstr (drop n b), cstr (drop d b))])
                    else None
            else header_fields buflen buffer (i + 1) hdrname hdrdata headers
        | (Some n, None) \<Rightarrow>
            if i + 2 < buflen \<and> char_at buffer i = CHR '':'' \<and> char_at buffer (i + 1) = CHR '' ''
            then header_fields buflen (buffer[i := NUL]) (i + 1) hdrname (Some (i + 2)) headers
            else header_fields buflen buffer (i + 1) hdrname hdrdata headers
        | (None, _) \<Rightarrow>
            if isalpha (char_at buffer i)
            then header_fields buflen buffer (i + 1) (Some i) hdrdata headers
            else header_fields buflen buffer (i + 1) hdrname hdrdata headers
      else Some headers)"
  by pat_completeness auto
termination
  by (relation "measure (\<lambda>(buflen, buffer, i, hdrname, hdrdata, headers). buflen - i)") auto

declare header_fields.simps [simp del]

definition parse_method :: "string \<Rightarrow> http_method option" where
  "parse_method s = (if s = ''GET'' then Some UH_HTTP_MSG_GET else if s = ''HEAD'' then Some UH_HTTP_MSG_HEAD
     else if s = ''POST'' then Some UH_HTTP_MSG_POST else None)"

definition parse_version :: "string \<Rightarrow> http_version option" where
  "parse_version s = (if s = ''HTTP/0.9'' then Some HTTP_0_9 else if s = ''HTTP/1.0'' then Some HTTP_1_0
     else if s = ''HTTP/1.1'' then Some HTTP_1_1 else None)"

text \<open>A string cut at the first space: the part before it, and the part behind it if there is one.\<close>

definition cut_space :: "string \<Rightarrow> string \<times> string option" where
  "cut_space s = (case strchr s (CHR '' '') of
      None \<Rightarrow> (s, None) | Some k \<Rightarrow> (take k s, Some (drop (Suc k) s)))"

definition reject :: "int \<Rightarrow> string \<Rightarrow> http_request option io" where
  "reject code message = do { _ \<leftarrow> uh_http_response code message; return None }"

definition uh_http_header_parse :: "string \<Rightarrow> nat \<Rightarrow> http_request option io" where
  "uh_http_header_parse buffer buflen = (case strfind buffer (int buflen) CRLF of
      None \<Rightarrow> reject 400 ''Bad Request''
    | Some k \<Rightarrow>
        (let b = buffer[buflen - 1 := NUL, k := NUL, Suc k := NUL];
             (meth, rest) = cut_space (cstr b);
             (path, version) = (case rest of None \<Rightarrow> (None, None)
                | Some r \<Rightarrow> map_prod Some id (cut_space r))
         in case parse_method meth of
              None \<Rightarrow> reject 405 ''Method Not Allowed''
            | Some m \<Rightarrow>
                (if path = None \<or> path = Some [] then reject 400 ''Bad Request''
                 else case (case version of None \<Rightarrow> None | Some v \<Rightarrow> parse_version v) of
                   None \<Rightarrow> reject 400 ''Bad Request''
                 | Some v \<Rightarrow>
                     (case header_fields buflen b (k + 2) None None [] of
                        None \<Rightarrow> reject 413 ''Request Entity Too Large''
                      | Some hs \<Rightarrow> return (Some \<lparr>req_method = m, req_version = v, redirect_status = 200,
                           req_url = the path, req_headers = hs, req_realm = None\<rparr>)))))"

section \<open>Receiving\<close>

text \<open>Store bytes in a buffer.\<close>

definition put_at :: "string \<Rightarrow> nat \<Rightarrow> string \<Rightarrow> string" where
  "put_at buffer off d = take off buffer @ d @ drop (off + length d) buffer"

text \<open>
  The receive loop. \<open>blen\<close> is the room left in the buffer, whose last byte stays the terminator;
  \<^verbatim>\<open>bufptr\<close> points at offset \<^verbatim>\<open>sizeof(buffer) - 1 - blen\<close>.
\<close>

function header_recv :: "nat \<Rightarrow> string \<Rightarrow> conn \<Rightarrow> http_request option \<times> conn" where
  "header_recv blen buffer c =
     (if 0 < blen
      then case run_state select_read c of
          (False, c1) \<Rightarrow> (None, c1)
        | (True, c1) \<Rightarrow>
            (let off = UH_LIMIT_MSGHEAD - 1 - blen in
             case run_state (uh_tcp_peek blen) c1 of ((rlen, d), c2) \<Rightarrow>
               if rlen < 0 then (None, c2)
               else (let b = put_at buffer off d in
                 case strfind b (int UH_LIMIT_MSGHEAD) (CRLF @ CRLF) of
                   Some idx \<Rightarrow>
                     (case run_state (uh_tcp_recv (idx + 4 - off)) c2 of ((r, d'), c3) \<Rightarrow>
                        if r < 0 then (None, c3)
                        else run_state (uh_http_header_parse (put_at b off d') (off + nat r)) c3)
                 | None \<Rightarrow>
                     (case run_state (uh_tcp_recv (nat rlen)) c2 of ((r, d'), c3) \<Rightarrow>
                        if r \<le> 0 then (None, c3)
                        else header_recv (blen - nat r) (put_at b off d') c3)))
      else run_state (reject 413 ''Request Entity Too Large'') c)"
  by pat_completeness auto
termination
  by (relation "measure (\<lambda>(blen, buffer, c). blen)") auto

declare header_recv.simps [simp del]

definition uh_http_header_recv :: "http_request option io" where
  "uh_http_header_recv =
     State (header_recv (UH_LIMIT_MSGHEAD - 1) (replicate UH_LIMIT_MSGHEAD NUL))"

section \<open>Rejections\<close>

text \<open>The answer \<open>uh_http_response\<close> gives.\<close>

definition response_text :: "int \<Rightarrow> string \<Rightarrow> string" where
  "response_text code message = sendhf_head code message @ chunk message @ last_chunk"

lemma length_fmt_dec: "n < 10 ^ k \<Longrightarrow> 0 < k \<Longrightarrow> length (fmt_dec n) \<le> k"
  unfolding fmt_dec_def by (rule length_num_str_le) auto

lemma length_sendhf_head:
  assumes "0 \<le> code" and "code < 1000"
  shows "length (sendhf_head code summary) \<le> length summary + 100"
proof -
  have "length (fmt_dec (nat \<bar>code\<bar>)) \<le> 3" using assms by (intro length_fmt_dec) auto
  then have "length (fmt_int03 code) = 3" using assms(1) by (simp add: fmt_int03_def Let_def)
  then show ?thesis by (simp add: sendhf_head_def)
qed

lemma emits_response [emits_intros]:
  assumes "0 \<le> code" and "code < 1000" and "message \<noteq> []" and "length message < 1000"
  shows "emits (uh_http_response code message) (response_text code message)"
  unfolding uh_http_response_def response_text_def using length_sendhf_head [OF assms(1,2), of message] assms
  by (intro emits_sendhf) (auto simp: UH_LIMIT_MSGHEAD_def)

lemma reject_run:
  assumes "reliable c" and "0 \<le> code" and "code < 1000" and "message \<noteq> []" and "length message < 1000"
  shows "run_state (reject code message) c = (None, c\<lparr>tx := tx c @ response_text code message\<rparr>)"
  using emitsE [OF emits_response [OF assms(2-5)] assms(1)] by (force simp: reject_def)

lemma reject_None: "run_state (reject code message) c = (r, c') \<Longrightarrow> r = None"
  by (auto simp: reject_def split: prod.splits)

lemma header_fields_steps:
  "buflen \<le> i \<Longrightarrow> header_fields buflen b i n d hs = Some hs"
  "i < buflen \<Longrightarrow> header_fields buflen b i None d hs =
     header_fields buflen b (i + 1) (if isalpha (char_at b i) then Some i else None) d hs"
  "i < buflen \<Longrightarrow> header_fields buflen b i (Some k) None hs =
     (if i + 2 < buflen \<and> char_at b i = CHR '':'' \<and> char_at b (i + 1) = CHR '' ''
      then header_fields buflen (b[i := NUL]) (i + 1) (Some k) (Some (i + 2)) hs
      else header_fields buflen b (i + 1) (Some k) None hs)"
  "i < buflen \<Longrightarrow> header_fields buflen b i (Some k) (Some j) hs =
     (if char_at b i = CR \<or> char_at b i = LF
      then if 2 * length hs + 1 < UH_LIMIT_HEADERS
           then header_fields buflen (b[i := NUL]) (i + 1) None None
                  (hs @ [(cstr (drop k (b[i := NUL])), cstr (drop j (b[i := NUL])))])
           else None
      else header_fields buflen b (i + 1) (Some k) (Some j) hs)"
  by (subst header_fields.simps, simp add: Let_def)+

lemma header_fields_bound:
  "header_fields buflen b i n d hs = Some hs' \<Longrightarrow> length hs \<le> 32 \<Longrightarrow> length hs' \<le> 32"
proof (induction "buflen - i" arbitrary: b i n d hs rule: less_induct)
  case less
  show ?case
  proof (cases "i < buflen")
    case False
    with less.prems show ?thesis by (simp add: header_fields_steps)
  next
    case True
    have IH: "length hs' \<le> 32"
      if "header_fields buflen b' (i + 1) n' d' hs1 = Some hs'" "length hs1 \<le> 32" for b' n' d' hs1
      using less.hyps [OF _ that] True by simp
    show ?thesis
    proof (cases n)
      case None
      with less.prems show ?thesis
        using header_fields_steps(2) [OF True, of b d hs] IH by simp
    next
      case n: (Some k)
      show ?thesis
      proof (cases d)
        case None
        with less.prems n show ?thesis
          using header_fields_steps(3) [OF True, of b k hs] IH by (simp split: if_splits)
      next
        case (Some j)
        show ?thesis
        proof (cases "header_fields buflen b (i + 1) (Some k) (Some j) hs = Some hs'")
          case True
          with IH less.prems(2) show ?thesis by simp
        next
          case False
          with less.prems(1) n Some header_fields_steps(4) [OF True, of b k j hs]
          have "2 * length hs + 1 < UH_LIMIT_HEADERS" and
            "header_fields buflen (b[i := NUL]) (i + 1) None None
               (hs @ [(cstr (drop k (b[i := NUL])), cstr (drop j (b[i := NUL])))]) = Some hs'"
            by (simp_all split: if_splits)
          from IH [OF this(2)] this(1) show ?thesis by (simp add: UH_LIMIT_HEADERS_def)
        qed
      qed
    qed
  qed
qed

text \<open>The three answers of the parser.\<close>

definition parse_errors :: "string set" where
  "parse_errors = {response_text 400 ''Bad Request'', response_text 405 ''Method Not Allowed'',
     response_text 413 ''Request Entity Too Large''}"

lemma NUL_notin_cut_space:
  "NUL \<notin> set s \<Longrightarrow> cut_space s = (a, r) \<Longrightarrow> NUL \<notin> set a \<and> (\<forall>b. r = Some b \<longrightarrow> NUL \<notin> set b)"
  by (auto simp: cut_space_def dest: in_set_takeD in_set_dropD split: option.splits)

text \<open>
  C23: The parser accepts or answers. A request it accepts has a non-empty URL, at most 32 header
  fields and the redirect status 200, and nothing is sent; a request it rejects is answered with
  exactly one of the complete responses 400, 405 or 413, for every content of the buffer.
\<close>
theorem uh_http_header_parse_answers:
  assumes "run_state (uh_http_header_parse buffer buflen) c = (r, c')" and "reliable c"
  shows "case r of
      Some req \<Rightarrow> c' = c \<and> req_url req \<noteq> [] \<and> NUL \<notin> set (req_url req) \<and> length (req_headers req) \<le> 32 \<and>
        redirect_status req = 200
    | None \<Rightarrow> (\<exists>msg\<in>parse_errors. c' = c\<lparr>tx := tx c @ msg\<rparr>)"
proof (cases "strfind buffer (int buflen) CRLF")
  case None
  with assms show ?thesis
    by (auto simp: uh_http_header_parse_def reject_run parse_errors_def)
next
  case (Some k)
  let ?b = "buffer[buflen - 1 := NUL, k := NUL, Suc k := NUL]"
  obtain meth rest where cs: "cut_space (cstr ?b) = (meth, rest)" by fastforce
  obtain path version where pv: "(case rest of None \<Rightarrow> (None, None)
      | Some r \<Rightarrow> map_prod Some id (cut_space r)) = (path, version)" by (metis prod.exhaust)
  have rest: "NUL \<notin> set x" if "rest = Some x" for x
    using NUL_notin_cut_space [OF _ cs] that by simp
  have nul: "NUL \<notin> set p" if "path = Some p" for p
  proof (cases rest)
    case None
    with pv that show ?thesis by simp
  next
    case (Some x)
    obtain a r where "cut_space x = (a, r)" by fastforce
    with NUL_notin_cut_space [OF rest [OF Some] this] pv that Some show ?thesis by simp
  qed
  note run = assms(1) [unfolded uh_http_header_parse_def Some option.case Let_def cs prod.case pv]
  show ?thesis
  proof (cases "parse_method meth")
    case None
    with run assms(2) show ?thesis by (auto simp: reject_run parse_errors_def)
  next
    case (Some m)
    show ?thesis
    proof (cases "(path = None \<or> path = Some []) \<or>
        (case version of None \<Rightarrow> None | Some v \<Rightarrow> parse_version v) = None")
      case True
      with run Some assms(2) show ?thesis
        by (auto simp: reject_run parse_errors_def split: if_splits)
    next
      case False
      then obtain p v where "path = Some p" "p \<noteq> []"
        "(case version of None \<Rightarrow> None | Some v \<Rightarrow> parse_version v) = Some v" by auto
      with run Some assms(2) nul show ?thesis
        by (cases "header_fields buflen ?b (k + 2) None None []")
          (auto simp: reject_run parse_errors_def dest: header_fields_bound)
    qed
  qed
qed

definition demo_head :: string where
  "demo_head = ''GET /x HTTP/1.1'' @ CRLF @ CRLF"

theorem uh_http_header_parse_answers_witness:
  "\<exists>msg\<in>parse_errors. snd (run_state (uh_http_header_parse ''PUT /'' 5) (demo_conn [] [])) =
     (demo_conn [] [])\<lparr>tx := tx (demo_conn [] []) @ msg\<rparr>"
proof -
  have n: "run_state (uh_http_header_parse ''PUT /'' 5) (demo_conn [] []) =
      run_state (reject 400 ''Bad Request'') (demo_conn [] [])"
    by (simp add: uh_http_header_parse_def strfind_def strfind_at.simps)
  obtain c' where "run_state (uh_http_header_parse ''PUT /'' 5) (demo_conn [] []) = (None, c')"
    using reject_None [of 400 "''Bad Request''" "demo_conn [] []"] unfolding n by (metis prod.exhaust)
  from uh_http_header_parse_answers [OF this] this show ?thesis by (simp add: reliable_def demo_conn_def)
qed

section \<open>A printed request parses to itself\<close>

definition field_text :: "string \<times> string \<Rightarrow> string" where
  "field_text f = fst f @ '': '' @ snd f @ CRLF"

fun method_text :: "http_method \<Rightarrow> string" where
  "method_text UH_HTTP_MSG_GET = ''GET''"
| "method_text UH_HTTP_MSG_HEAD = ''HEAD''"
| "method_text UH_HTTP_MSG_POST = ''POST''"

definition request_line :: "http_request \<Rightarrow> string" where
  "request_line req = method_text (req_method req) @ '' '' @ req_url req @ '' HTTP/'' @ fmt_version (req_version req)"

definition request_text :: "http_request \<Rightarrow> string" where
  "request_text req = request_line req @ CRLF @ concat (map field_text (req_headers req)) @ CRLF"

definition wf_field :: "string \<times> string \<Rightarrow> bool" where
  "wf_field f \<longleftrightarrow> fst f \<noteq> [] \<and> isalpha (hd (fst f)) \<and> set (fst f) \<inter> {CHR '':'', CR, LF, NUL} = {} \<and>
     set (snd f) \<inter> {CR, LF, NUL} = {}"

definition wf_request :: "http_request \<Rightarrow> bool" where
  "wf_request req \<longleftrightarrow> req_url req \<noteq> [] \<and> set (req_url req) \<inter> {CHR '' '', CR, LF, NUL} = {} \<and>
     length (req_headers req) \<le> 32 \<and> list_all wf_field (req_headers req) \<and>
     redirect_status req = 200 \<and> req_realm req = None"

lemma char_at_append: "char_at (P @ s) (length P + i) = char_at s i"
  by (simp add: char_at_def nth_append)

lemma char_at_append_0: "char_at (P @ s) (length P) = char_at s 0"
  using char_at_append [of P s 0] by simp

lemma fields_skip_name:
  "CHR '':'' \<notin> set w \<Longrightarrow> length P + length w \<le> buflen \<Longrightarrow>
   header_fields buflen (P @ w @ R) (length P) (Some k) None hs =
   header_fields buflen (P @ w @ R) (length P + length w) (Some k) None hs"
proof (induction w arbitrary: P)
  case (Cons c w)
  from Cons.IH [of "P @ [c]"] Cons.prems
  have "header_fields buflen (P @ (c # w) @ R) (length P + 1) (Some k) None hs =
      header_fields buflen (P @ (c # w) @ R) (length P + length (c # w)) (Some k) None hs" by simp
  with Cons.prems show ?case by (subst header_fields_steps) (auto simp: char_at_append_0)
qed simp

lemma fields_skip_value:
  "CR \<notin> set w \<Longrightarrow> LF \<notin> set w \<Longrightarrow> length P + length w \<le> buflen \<Longrightarrow>
   header_fields buflen (P @ w @ R) (length P) (Some k) (Some j) hs =
   header_fields buflen (P @ w @ R) (length P + length w) (Some k) (Some j) hs"
proof (induction w arbitrary: P)
  case (Cons c w)
  from Cons.IH [of "P @ [c]"] Cons.prems
  have "header_fields buflen (P @ (c # w) @ R) (length P + 1) (Some k) (Some j) hs =
      header_fields buflen (P @ (c # w) @ R) (length P + length (c # w)) (Some k) (Some j) hs" by simp
  with Cons.prems show ?case by (subst header_fields_steps) (auto simp: char_at_append_0)
qed simp

lemma cstr_drop_append: "NUL \<notin> set w \<Longrightarrow> cstr (drop (length P) (P @ w @ NUL # r)) = w"
  by (simp add: cstr_append_NUL)

text \<open>One field: its two strings are cut out and the scan stands behind it.\<close>

lemma header_fields_field:
  assumes f: "wf_field (n, v)" and len: "length P + length (field_text (n, v)) \<le> buflen"
    and room: "2 * length hs + 1 < UH_LIMIT_HEADERS"
  shows "header_fields buflen (P @ field_text (n, v) @ R) (length P) None None hs =
    header_fields buflen (P @ n @ [NUL, CHR '' ''] @ v @ [NUL, LF] @ R)
      (length P + length (field_text (n, v))) None None (hs @ [(n, v)])"
proof -
  from f obtain a n' where n: "n = a # n'" "isalpha a" by (cases n) (auto simp: wf_field_def)
  let ?hf = "header_fields buflen"
  let ?b1 = "P @ n @ [NUL, CHR '' ''] @ v @ [CR, LF] @ R" and ?k = "length P" and ?i = "length P + length n"
  let ?b2 = "P @ n @ [NUL, CHR '' ''] @ v @ [NUL, LF] @ R"
  have "?hf (P @ field_text (n, v) @ R) ?k None None hs =
      ?hf (P @ field_text (n, v) @ R) (?k + 1) (Some ?k) None hs"
    using len n by (subst header_fields_steps) (auto simp: field_text_def char_at_append_0)
  also have "\<dots> = ?hf (P @ field_text (n, v) @ R) ?i (Some ?k) None hs"
    using fields_skip_name [of n' "P @ [a]" buflen "'': '' @ v @ CRLF @ R" ?k hs] f len n
    by (auto simp: field_text_def wf_field_def)
  also have "\<dots> = ?hf ?b1 (?i + 1) (Some ?k) (Some (?i + 2)) hs"
    using len char_at_append [of "P @ n" "'': '' @ v @ CRLF @ R" 0]
      char_at_append [of "P @ n" "'': '' @ v @ CRLF @ R" 1]
    by (subst header_fields_steps) (auto simp: field_text_def list_update_append)
  also have "\<dots> = ?hf ?b1 (?i + 2 + length v) (Some ?k) (Some (?i + 2)) hs"
    using fields_skip_value [of "'' '' @ v" "P @ n @ [NUL]" buflen "CRLF @ R" ?k "?i + 2" hs] f len
    by (auto simp: field_text_def wf_field_def)
  also have "\<dots> = ?hf ?b2 (?i + 3 + length v) None None (hs @ [(n, v)])"
  proof -
    have u: "?b1[?i + 2 + length v := NUL] = ?b2" by (simp add: list_update_append)
    have c: "char_at ?b1 (?i + 2 + length v) = CR"
      using char_at_append_0 [of "P @ n @ [NUL, CHR '' ''] @ v" "CRLF @ R"] by (simp add: add.commute add.left_commute)
    have "cstr (drop ?k ?b2) = n"
      using f cstr_drop_append [of n P "'' '' @ v @ [NUL, LF] @ R"] by (auto simp: wf_field_def)
    moreover have "cstr (drop (?i + 2) ?b2) = v"
      using f cstr_drop_append [of v "P @ n @ [NUL, CHR '' '']" "LF # R"] by (auto simp: wf_field_def)
    ultimately show ?thesis
      using len room u c by (subst header_fields_steps) (auto simp: field_text_def numeral_eq_Suc)
  qed
  also have "\<dots> = ?hf ?b2 (?i + 4 + length v) None None (hs @ [(n, v)])"
  proof -
    have "char_at ?b2 (?i + 3 + length v) = LF" by (simp add: nth_append)
    then show ?thesis
      using len by (subst header_fields_steps) (auto simp: field_text_def ctype_defs numeral_eq_Suc)
  qed
  finally show ?thesis by (simp add: field_text_def numeral_eq_Suc add.commute add.left_commute)
qed

definition cut_field :: "string \<times> string \<Rightarrow> string" where
  "cut_field f = fst f @ [NUL, CHR '' ''] @ snd f @ [NUL, LF]"

lemma length_cut_field: "length (cut_field f) = length (field_text f)"
  by (simp add: cut_field_def field_text_def)

lemma header_fields_all:
  assumes "list_all wf_field fs" and "length hs + length fs \<le> 32"
    and "length P + length (concat (map field_text fs)) \<le> buflen"
  shows "header_fields buflen (P @ concat (map field_text fs) @ R) (length P) None None hs =
    header_fields buflen (P @ concat (map cut_field fs) @ R)
      (length P + length (concat (map field_text fs))) None None (hs @ fs)"
  using assms
proof (induction fs arbitrary: P hs)
  case (Cons f fs)
  obtain n v where f: "f = (n, v)" by fastforce
  have "header_fields buflen (P @ field_text f @ concat (map field_text fs) @ R) (length P) None None hs =
      header_fields buflen (P @ cut_field f @ concat (map field_text fs) @ R)
        (length P + length (field_text f)) None None (hs @ [f])"
    using header_fields_field [of n v P buflen hs] Cons.prems f
    by (simp add: UH_LIMIT_HEADERS_def cut_field_def)
  also have "\<dots> = header_fields buflen (P @ cut_field f @ concat (map cut_field fs) @ R)
      (length P + length (field_text f) + length (concat (map field_text fs))) None None (hs @ f # fs)"
    using Cons.IH [of "hs @ [f]" "P @ cut_field f"] Cons.prems by (simp add: length_cut_field)
  finally show ?case by (simp add: add.assoc)
qed simp

lemma strfind_CRLF:
  assumes "CR \<notin> set line" and "h = line @ CRLF @ r"
  shows "strfind h (int (length h)) CRLF = Some (length line)"
proof (rule uh_search.find_first)
  show "occurs_at h CRLF (length line)" using assms(2) by (simp add: occurs_at_def)
  fix j assume j: "j < length line"
  then have "h ! j \<in> set line" using assms(2) by (simp add: nth_append)
  moreover have "drop j h = h ! j # drop (Suc j) h"
    using j assms(2) by (intro Cons_nth_drop_Suc [symmetric]) simp
  ultimately show "\<not> occurs_at h CRLF j" using assms(1) by (auto simp: occurs_at_def)
qed simp

lemma parse_method_text [simp]: "parse_method (method_text m) = Some m"
  by (cases m) (auto simp: parse_method_def)

lemma parse_version_text [simp]: "parse_version (''HTTP/'' @ fmt_version v) = Some v"
  by (cases v) (auto simp: parse_version_def)

lemma method_text_chars: "set (method_text m) \<inter> {CHR '' '', CR, LF, NUL} = {}"
  by (cases m) auto

lemma version_text_chars: "set (fmt_version v) \<inter> {CHR '' '', CR, LF, NUL} = {}"
  by (cases v) auto

lemma request_line_chars: "wf_request req \<Longrightarrow> set (request_line req) \<inter> {CR, LF, NUL} = {}"
  using method_text_chars [of "req_method req"] version_text_chars [of "req_version req"]
  by (auto simp: request_line_def wf_request_def)

lemma cut_request_line:
  assumes "wf_request req"
  shows "cut_space (request_line req) = (method_text (req_method req),
      Some (req_url req @ '' HTTP/'' @ fmt_version (req_version req)))"
    and "cut_space (req_url req @ '' HTTP/'' @ fmt_version (req_version req)) =
      (req_url req, Some (''HTTP/'' @ fmt_version (req_version req)))"
  using strchr_append_notin [of "CHR '' ''" "method_text (req_method req)"]
    strchr_append_notin [of "CHR '' ''" "req_url req"] method_text_chars [of "req_method req"] assms
  by (auto simp: cut_space_def request_line_def wf_request_def)

lemma parse_request_text:
  assumes wf: "wf_request req" and n: "n = length (request_text req)"
  shows "uh_http_header_parse (request_text req @ R) n = return (Some req)"
proof -
  let ?l = "request_line req" and ?f = "concat (map field_text (req_headers req))"
  let ?k = "length ?l" and ?buf = "request_text req @ R"
  note lc = request_line_chars [OF wf]
  have "take n ?buf = request_text req" using n by simp
  with strfind_take [of CRLF "int n" ?buf] n
  have "strfind ?buf (int n) CRLF = strfind (request_text req) (int (length (request_text req))) CRLF"
    by simp
  also have "\<dots> = Some ?k"
    using lc by (intro strfind_CRLF [of _ _ "?f @ CRLF"]) (auto simp: request_text_def)
  finally have sf: "strfind ?buf (int n) CRLF = Some ?k" .
  have b: "?buf[n - 1 := NUL, ?k := NUL, Suc ?k := NUL] = ?l @ [NUL, NUL] @ ?f @ [CR, NUL] @ R"
    using n by (simp add: request_text_def list_update_append)
  have cs: "cstr (?l @ [NUL, NUL] @ ?f @ [CR, NUL] @ R) = ?l"
    using lc by (simp add: cstr_append_NUL)
  let ?P = "?l @ [NUL, NUL]"
  have "header_fields n (?P @ ?f @ [CR, NUL] @ R) (length ?P) None None [] =
      header_fields n (?P @ concat (map cut_field (req_headers req)) @ [CR, NUL] @ R)
        (length ?P + length ?f) None None (req_headers req)"
    using header_fields_all [of "req_headers req" "[]" ?P n "[CR, NUL] @ R"] wf n
    by (simp add: wf_request_def request_text_def)
  also have "\<dots> = Some (req_headers req)"
  proof -
    let ?b = "?P @ concat (map cut_field (req_headers req)) @ [CR, NUL] @ R"
    have len: "length (concat (map cut_field fs)) = length (concat (map field_text fs))" for fs
      by (induction fs) (auto simp: length_cut_field)
    have "char_at ?b (length ?P + length ?f) = CR" "char_at ?b (length ?P + length ?f + 1) = NUL"
      using len [of "req_headers req"] by (auto simp: nth_append)
    moreover have "n = length ?P + length ?f + 2" using n by (simp add: request_text_def)
    ultimately show ?thesis by (simp add: header_fields_steps ctype_defs)
  qed
  finally have hf: "header_fields n (?l @ [NUL, NUL] @ ?f @ [CR, NUL] @ R) (?k + 2) None None [] =
      Some (req_headers req)" by simp
  show ?thesis
    unfolding uh_http_header_parse_def sf option.case b cs Let_def cut_request_line(1) [OF wf] prod.case
      map_prod_simp cut_request_line(2) [OF wf] hf id_apply parse_version_text
    using wf by (cases req) (simp add: wf_request_def)
qed

text \<open>
  C7: Printing and parsing: the parser reads every well-formed request back from its text, with
  the method, the URL, the version and all header fields in their order, whatever follows the
  head in the buffer, and sends nothing. Well-formed: the URL is not empty and has no blanks, there
  are at most 32 fields, their names start with a letter and have no colon.
\<close>
theorem uh_http_header_parse_roundtrip:
  assumes "wf_request req"
  shows "run_state (uh_http_header_parse (request_text req @ rest) (length (request_text req))) c = (Some req, c)"
  using parse_request_text [OF assms refl] by simp

definition demo_request :: http_request where
  "demo_request = demo_req\<lparr>req_url := ''/a?b'', req_headers := [(''Host'', ''x:80''), (''Accept'', [])]\<rparr>"

theorem uh_http_header_parse_roundtrip_witness:
  "run_state (uh_http_header_parse (''GET /a?b HTTP/1.1'' @ CRLF @ ''Host: x:80'' @ CRLF @ ''Accept: '' @ CRLF @ CRLF
      @ ''body'') 43) (demo_conn [] []) = (Some demo_request, demo_conn [] [])"
proof -
  have "wf_request demo_request" and t: "request_text demo_request =
      ''GET /a?b HTTP/1.1'' @ CRLF @ ''Host: x:80'' @ CRLF @ ''Accept: '' @ CRLF @ CRLF"
    by (simp_all add: wf_request_def wf_field_def demo_request_def demo_req_def ctype_defs
        request_text_def request_line_def field_text_def)
  from uh_http_header_parse_roundtrip [OF this(1), of "''body''"] show ?thesis
    unfolding t by (simp add: numeral_eq_Suc)
qed

section \<open>A request that arrives in pieces is received\<close>

text \<open>The text of a head is a list of lines, none empty, followed by an empty line.\<close>

definition head_lines :: "string list \<Rightarrow> string" where
  "head_lines ls = concat (map (\<lambda>l. l @ CRLF) ls) @ CRLF"

lemma head_lines_simps [simp]: "head_lines [] = CRLF" "head_lines (l # ls) = l @ CR # LF # head_lines ls"
  by (simp_all add: head_lines_def)

lemma occurs_at_append: "occurs_at (p @ h) n (length p + j) = occurs_at h n j"
  by (simp add: occurs_at_def)

lemma occurs_nth:
  "occurs_at h (CRLF @ CRLF) j \<longleftrightarrow> j + 4 \<le> length h \<and> (\<forall>k<4. h ! (j + k) = (CRLF @ CRLF) ! k)"
  unfolding occurs_at_def prefix_drop_iff by (simp add: numeral_eq_Suc)

lemma head_end_unique:
  assumes "list_all (\<lambda>l. l \<noteq> [] \<and> CR \<notin> set l) ls" and "occurs_at (head_lines ls) (CRLF @ CRLF) j"
  shows "j + 4 = length (head_lines ls)"
  using assms
proof (induction ls arbitrary: j)
  case Nil
  then show ?case by (simp only: occurs_nth) simp
next
  case (Cons l ls)
  let ?h = "l @ CR # LF # head_lines ls"
  from Cons.prems have occ: "prefix (CRLF @ CRLF) (drop j ?h)" and l: "CR \<notin> set l"
    by (auto simp: occurs_at_def)
  consider "j < length l" | "j = length l" | "j = Suc (length l)" | "length l + 2 \<le> j" by linarith
  then show ?case
  proof cases
    case 1
    then have "drop j ?h = ?h ! j # drop (Suc j) ?h" by (intro Cons_nth_drop_Suc [symmetric]) simp
    moreover have "?h ! j \<in> set l" using 1 by (simp add: nth_append)
    ultimately show ?thesis using occ l by auto
  next
    case 2
    with occ have "prefix CRLF (head_lines ls)" by simp
    with Cons.prems(1) 2 show ?thesis by (cases ls) (auto simp: neq_Nil_conv prefix_def)
  next
    case 3
    with occ show ?thesis by simp
  next
    case 4
    define k where "k = j - length l - 2"
    with 4 have j: "j = length (l @ CRLF) + k" by simp
    with Cons.prems occurs_at_append [of "l @ CRLF" "head_lines ls" "CRLF @ CRLF" k]
    have "occurs_at (head_lines ls) (CRLF @ CRLF) k" by simp
    with Cons.IH [of k] Cons.prems(1) j show ?thesis by simp
  qed
qed

lemma head_end_occurs:
  "ls \<noteq> [] \<Longrightarrow> occurs_at (head_lines ls) (CRLF @ CRLF) (length (head_lines ls) - 4) \<and> 4 \<le> length (head_lines ls)"
proof (induction ls rule: rev_induct)
  case (snoc l ls)
  have "head_lines (ls @ [l]) = (concat (map (\<lambda>l. l @ CRLF) ls) @ l) @ CRLF @ CRLF"
    by (simp add: head_lines_def)
  then show ?case by (simp add: occurs_at_def)
qed simp

lemma request_text_lines:
  assumes "wf_request req"
  obtains ls where "request_text req = head_lines ls" "ls \<noteq> []" "list_all (\<lambda>l. l \<noteq> [] \<and> CR \<notin> set l) ls"
proof
  let ?ls = "request_line req # map (\<lambda>f. fst f @ '': '' @ snd f) (req_headers req)"
  show "request_text req = head_lines ?ls"
    by (simp add: request_text_def head_lines_def field_text_def [abs_def] comp_def)
  have "list_all (\<lambda>l. l \<noteq> [] \<and> CR \<notin> set l) (map (\<lambda>f. fst f @ '': '' @ snd f) fs)"
    if "list_all wf_field fs" for fs using that by (induction fs) (auto simp: wf_field_def)
  with assms request_line_chars [OF assms]
  show "list_all (\<lambda>l. l \<noteq> [] \<and> CR \<notin> set l) ?ls" by (auto simp: wf_request_def request_line_def)
qed simp

lemma strfind_head_end:
  assumes "list_all (\<lambda>l. l \<noteq> [] \<and> CR \<notin> set l) ls" and "ls \<noteq> []" and "b = head_lines ls @ r"
  shows "strfind b (int (length b)) (CRLF @ CRLF) = Some (length (head_lines ls) - 4)"
proof (rule uh_search.find_first)
  let ?t = "head_lines ls"
  have inside: "occurs_at ?t (CRLF @ CRLF) j" if "occurs_at (?t @ r) (CRLF @ CRLF) j" "j + 4 \<le> length ?t" for j
    using that unfolding occurs_nth by (simp add: nth_append)
  show "occurs_at b (CRLF @ CRLF) (length ?t - 4)"
    using head_end_occurs [OF assms(2)] assms(3) by (auto simp: occurs_at_def prefix_def)
  fix j assume "j < length ?t - 4"
  with inside head_end_unique [OF assms(1)] assms(3) show "\<not> occurs_at b (CRLF @ CRLF) j"
    by fastforce
qed simp

lemma head_end_found:
  assumes "wf_request req" and "length b = UH_LIMIT_MSGHEAD" and "b = request_text req @ r"
  shows "strfind b (int UH_LIMIT_MSGHEAD) (CRLF @ CRLF) = Some (length (request_text req) - 4)"
proof -
  from request_text_lines [OF assms(1)] obtain ls where ls: "request_text req = head_lines ls" "ls \<noteq> []"
    "list_all (\<lambda>l. l \<noteq> [] \<and> CR \<notin> set l) ls" .
  from strfind_head_end [OF ls(3,2), of b r] assms(3) ls(1)
  show ?thesis unfolding assms(2) ls(1) by simp
qed

lemma head_end_missing:
  assumes wf: "wf_request req" and "length (g @ replicate k NUL) = UH_LIMIT_MSGHEAD"
    and "prefix g (request_text req)" and "g \<noteq> request_text req"
  shows "strfind (g @ replicate k NUL) (int UH_LIMIT_MSGHEAD) (CRLF @ CRLF) = None"
proof -
  from request_text_lines [OF wf] obtain ls where ls: "request_text req = head_lines ls" "ls \<noteq> []"
    "list_all (\<lambda>l. l \<noteq> [] \<and> CR \<notin> set l) ls" .
  have lt: "length g < length (request_text req)"
    using assms(3,4) by (metis prefix_length_less strict_prefix_def)
  have "\<not> occurs_at (g @ replicate k NUL) (CRLF @ CRLF) j" for j
  proof
    assume "occurs_at (g @ replicate k NUL) (CRLF @ CRLF) j"
    then have bnd: "j + 4 \<le> length (g @ replicate k NUL)"
      and "\<forall>i<4. (g @ replicate k NUL) ! (j + i) = (CRLF @ CRLF) ! i"
      unfolding occurs_nth by blast+
    then have o: "(g @ replicate k NUL) ! (j + i) = (CRLF @ CRLF) ! i" if "i < 4" for i using that by blast
    have j: "j + 3 < length g"
    proof (rule ccontr)
      assume "\<not> j + 3 < length g"
      with bnd o [of 3] show False by (simp add: nth_append)
    qed
    have "request_text req ! (j + i) = (CRLF @ CRLF) ! i" if "i < 4" for i
      using o [OF that] j that assms(3) by (auto simp: nth_append prefix_def)
    with j lt have "occurs_at (request_text req) (CRLF @ CRLF) j"
      unfolding occurs_nth by simp
    with head_end_unique [OF ls(3)] ls(1) j lt show False by fastforce
  qed
  then have "strfind (g @ replicate k NUL) (int (length (g @ replicate k NUL))) (CRLF @ CRLF) = None"
    using uh_search.find_Some [of "CRLF @ CRLF" "g @ replicate k NUL"]
    by (cases "strfind (g @ replicate k NUL) (int (length (g @ replicate k NUL))) (CRLF @ CRLF)") auto
  then show ?thesis unfolding assms(2) .
qed

lemma put_at_append:
  "length d \<le> k \<Longrightarrow> put_at (g @ replicate k NUL) (length g) d = (g @ d) @ replicate (k - length d) NUL"
  by (simp add: put_at_def)

lemma put_at_same: "put_at (g @ d @ r) (length g) (take n d) = g @ d @ r"
  by (simp add: put_at_def min_def)

lemma append_split:
  assumes "a @ b = t @ c" and "length t \<le> length a"
  obtains r where "a = t @ r" and "r @ b = c"
  using assms by (auto simp: append_eq_append_conv2)

lemma peek_segment:
  assumes "peekbuf c = []" and "rx c = RxData s # evs" and "s \<noteq> []" and "0 < blen"
  shows "run_state select_read c = (True, c)"
    and "run_state (uh_tcp_peek blen) c = ((int (length (take blen s)), take blen s),
      c\<lparr>rx := (if blen < length s then RxData (drop blen s) # evs else evs), peekbuf := take blen s\<rparr>)"
  using assms
  by (auto simp: uh_tcp_peek_def uh_tcp_recv_def select_read_def sys_recv_def uh_tls_client_recv_def Let_def)

lemma header_recv_segments:
  assumes "wf_request req" and "length (request_text req) < UH_LIMIT_MSGHEAD"
    and "length g < length (request_text req)" and "blen = UH_LIMIT_MSGHEAD - 1 - length g"
    and "g @ concat segs = request_text req @ body" and "[] \<notin> set segs"
    and "rx c = map RxData segs" and "peekbuf c = []"
  shows "\<exists>c'. header_recv blen (g @ replicate (UH_LIMIT_MSGHEAD - length g) NUL) c = (Some req, c') \<and>
    pending c' = body \<and> tx c' = tx c"
  using assms(3-)
proof (induction blen arbitrary: g segs c rule: less_induct)
  case (less blen)
  let ?t = "request_text req"
  from less.prems(1,2) assms(2) have bl: "0 < blen" "length g + blen = UH_LIMIT_MSGHEAD - 1" by auto
  have "concat segs \<noteq> []" using less.prems(1,3) by (metis append_Nil2 length_append linorder_not_less le_add1)
  then obtain s ss where segs: "segs = s # ss" "s \<noteq> []" using less.prems(4) by (cases segs) auto
  let ?d = "take blen s"
  let ?evs = "if blen < length s then drop blen s # ss else ss"
  let ?c2 = "c\<lparr>rx := map RxData ?evs, peekbuf := ?d\<rparr>"
  have evs: "concat segs = ?d @ concat ?evs" "[] \<notin> set ?evs" "?d \<noteq> []"
    using segs less.prems(4) bl(1) by auto
  have rx: "rx c = RxData s # map RxData ss" using less.prems(5) segs by simp
  note pk = peek_segment [OF less.prems(6) rx segs(2) bl(1)]
  have pk2: "run_state (uh_tcp_peek blen) c = ((int (length ?d), ?d), ?c2)" unfolding pk(2) by simp
  have dl: "length ?d \<le> UH_LIMIT_MSGHEAD - length g" using bl by simp
  let ?b = "(g @ ?d) @ replicate (UH_LIMIT_MSGHEAD - length g - length ?d) NUL"
  have off: "UH_LIMIT_MSGHEAD - 1 - blen = length g" using bl by simp
  have len: "length ?b = UH_LIMIT_MSGHEAD" using dl bl by simp
  have put: "put_at ?b (length g) (take n ?d) = ?b" for n
    using put_at_same [of g ?d "replicate (UH_LIMIT_MSGHEAD - length g - length ?d) NUL" n] by simp
  show ?case
  proof (cases "length ?t \<le> length (g @ ?d)")
    case True
    from less.prems(3) evs(1) have e: "(g @ ?d) @ concat ?evs = ?t @ body" by simp
    from append_split [OF this True] obtain r where r: "g @ ?d = ?t @ r" "r @ concat ?evs = body" .
    have n4: "4 \<le> length ?t" using head_end_occurs request_text_lines [OF assms(1)] by metis
    have sf: "strfind ?b (int UH_LIMIT_MSGHEAD) (CRLF @ CRLF) = Some (length ?t - 4)"
      using head_end_found [OF assms(1) len] r(1) by simp
    let ?n = "length ?t - length g"
    have n: "length ?t - 4 + 4 - length g = ?n" "?n \<le> length ?d" "length g + ?n = length ?t"
      using n4 True less.prems(1) by auto
    have rv: "run_state (uh_tcp_recv ?n) ?c2 = ((int ?n, take ?n ?d), ?c2\<lparr>peekbuf := drop ?n ?d\<rparr>)"
      using uh_tcp_recv_peeked [of ?n ?c2] n(2) by simp
    have "drop ?n ?d = r" using arg_cong [OF r(1), of "drop (length ?t)"] n less.prems(1) by simp
    then have "pending (?c2\<lparr>peekbuf := drop ?n ?d\<rparr>) = r @ rx_bytes (map RxData ?evs)" by (simp add: pending_def)
    moreover have "rx_bytes (map RxData es) = concat es" for es by (induction es) auto
    moreover have "uh_http_header_parse ?b (length ?t) = return (Some req)"
      using parse_request_text [OF assms(1) refl] r(1) by simp
    then have "header_recv blen (g @ replicate (UH_LIMIT_MSGHEAD - length g) NUL) c =
        (Some req, ?c2\<lparr>peekbuf := drop ?n ?d\<rparr>)"
      by (subst header_recv.simps) (simp only: bl(1) if_True if_False pk(1) pk2 prod.case bool.case Let_def
          off put_at_append [OF dl] sf option.case n(1,3) rv put of_nat_less_0_iff nat_int
          State_Monad.run_state_return)
    ultimately show ?thesis using r(2) by simp
  next
    case False
    from less.prems(3) evs(1) have "?t @ body = (g @ ?d) @ concat ?evs" by simp
    from append_split [OF this] False have pre: "prefix (g @ ?d) ?t" by (metis nat_le_linear prefixI)
    have sf: "strfind ?b (int UH_LIMIT_MSGHEAD) (CRLF @ CRLF) = None"
    proof (rule head_end_missing [OF assms(1) len pre])
      show "g @ ?d \<noteq> ?t" using False by (metis order_refl)
    qed
    let ?c3 = "?c2\<lparr>peekbuf := []\<rparr>"
    have rv: "run_state (uh_tcp_recv (length ?d)) ?c2 = ((int (length ?d), take (length ?d) ?d), ?c3)"
      using uh_tcp_recv_peeked [of "length ?d" ?c2] by simp
    have "0 < length ?d" using evs(3) by (metis length_greater_0_conv)
    then have dec: "blen - length ?d < blen" using bl(1) by (rule diff_less)
    have "\<exists>c'. header_recv (blen - length ?d) ((g @ ?d) @ replicate (UH_LIMIT_MSGHEAD - length (g @ ?d)) NUL) ?c3 =
        (Some req, c') \<and> pending c' = body \<and> tx c' = tx ?c3"
      using False less.prems evs bl assms(2) by (intro less.IH [OF dec, where segs = ?evs]) auto
    moreover have "\<not> int (length ?d) \<le> 0" using evs(3) by simp
    ultimately show ?thesis
      by (subst header_recv.simps)
        (simp only: bl(1) if_True pk(1) pk2 prod.case bool.case Let_def off put_at_append [OF dl] sf option.case rv put nat_int, simp)
  qed
qed

text \<open>
  C2: A request is received however it is cut into pieces. For every well-formed request whose
  head is shorter than the buffer, and every way the network may deliver its text and the body
  behind it as non-empty pieces, \<open>uh_http_header_recv\<close> returns that request, has sent nothing, and
  leaves exactly the body to be read.
\<close>
theorem uh_http_header_recv_segments:
  assumes "wf_request req" and "length (request_text req) < UH_LIMIT_MSGHEAD"
    and "concat segs = request_text req @ body" and "[] \<notin> set segs"
    and "rx c = map RxData segs" and "peekbuf c = []"
  shows "\<exists>c'. run_state uh_http_header_recv c = (Some req, c') \<and> pending c' = body \<and> tx c' = tx c"
proof -
  have "request_text req \<noteq> []" by (simp add: request_text_def)
  with header_recv_segments [OF assms(1,2), of "[]" "UH_LIMIT_MSGHEAD - 1" segs body c] assms(3-6)
  show ?thesis by (simp add: uh_http_header_recv_def)
qed

theorem uh_http_header_recv_segments_witness:
  "\<exists>c'. run_state uh_http_header_recv (demo_conn (map RxData [''GET / HTTP/1.1'' @ [CR], [LF, CR], LF # ''body'']) [])
     = (Some demo_req, c') \<and> pending c' = ''body'' \<and> tx c' = []"
proof -
  have "wf_request demo_req" and t: "request_text demo_req = ''GET / HTTP/1.1'' @ CRLF @ CRLF"
    by (simp_all add: wf_request_def demo_req_def request_text_def request_line_def)
  with uh_http_header_recv_segments [of demo_req "[''GET / HTTP/1.1'' @ [CR], [LF, CR], LF # ''body'']" "''body''"
      "demo_conn (map RxData [''GET / HTTP/1.1'' @ [CR], [LF, CR], LF # ''body'']) []"]
  show ?thesis by (simp add: demo_conn_def UH_LIMIT_MSGHEAD_def)
qed

end
