(* ===== verification/Uh_Date.thy ===== *)
theory Uh_Date
  imports OSan_Prelude
begin

text \<open>
  The date functions of \<^verbatim>\<open>uhttpd-file.c\<close>, \<open>uh_file_unix2date\<close> and \<open>uh_file_date2unix\<close>, with what they use of
  the C library: \<^verbatim>\<open>gmtime()\<close>, \<^verbatim>\<open>timegm()\<close>, and \<^verbatim>\<open>strftime()\<close> and \<^verbatim>\<open>strptime()\<close> for the one format the server
  uses. The calendar is the proleptic Gregorian one; \<open>gmtime\<close> counts the years from 1970 on. The
  theorem at the end says that a date the server prints is read back as the same time.
\<close>

section \<open>The calendar\<close>

definition leap_year :: "int \<Rightarrow> bool" where
  "leap_year y \<longleftrightarrow> (y mod 4 = 0 \<and> y mod 100 \<noteq> 0) \<or> y mod 400 = 0"

definition year_len :: "int \<Rightarrow> int" where
  "year_len y = (if leap_year y then 366 else 365)"

text \<open>Days from the first of January 1970 to the first of January of a year.\<close>

definition year_start :: "int \<Rightarrow> int" where
  "year_start y = 365 * (y - 1970) + ((y - 1) div 4 - (y - 1) div 100 + (y - 1) div 400) - 477"

definition month_lens :: "int \<Rightarrow> int list" where
  "month_lens y = [31, if leap_year y then 29 else 28, 31, 30, 31, 30, 31, 31, 30, 31, 30, 31]"

text \<open>The fields of \<^verbatim>\<open>struct tm\<close>; the year is the full one and the month counts from 0.\<close>

record tm =
  tm_sec :: int
  tm_min :: int
  tm_hour :: int
  tm_mday :: int
  tm_mon :: int
  tm_year :: int
  tm_wday :: int

function find_year :: "int \<Rightarrow> int \<Rightarrow> int \<times> int" where
  "find_year y d = (if d < year_len y then (y, d) else find_year (y + 1) (d - year_len y))"
  by pat_completeness auto
termination
  by (relation "measure (\<lambda>(y, d). nat d)") (auto simp: year_len_def split: if_splits)

declare find_year.simps [simp del]

fun find_month :: "int \<Rightarrow> int list \<Rightarrow> int \<Rightarrow> int \<times> int" where
  "find_month m [] d = (m, d)"
| "find_month m (l # ls) d = (if d < l then (m, d) else find_month (m + 1) ls (d - l))"

definition gmtime :: "nat \<Rightarrow> tm" where
  "gmtime ts =
     (let days = int ts div 86400; secs = int ts mod 86400;
          (y, yday) = find_year 1970 days; (m, mday) = find_month 0 (month_lens y) yday
      in \<lparr>tm_sec = secs mod 60, tm_min = secs div 60 mod 60, tm_hour = secs div 3600,
          tm_mday = mday + 1, tm_mon = m, tm_year = y, tm_wday = (days + 4) mod 7\<rparr>)"

definition timegm :: "tm \<Rightarrow> int" where
  "timegm t =
     ((year_start (tm_year t) + sum_list (take (nat (tm_mon t)) (month_lens (tm_year t))) + tm_mday t - 1)
       * 24 + tm_hour t) * 3600 + tm_min t * 60 + tm_sec t"

section \<open>Printing\<close>

definition day_names :: "string list" where
  "day_names = [''Sunday'', ''Monday'', ''Tuesday'', ''Wednesday'', ''Thursday'', ''Friday'', ''Saturday'']"

definition month_names :: "string list" where
  "month_names = [''January'', ''February'', ''March'', ''April'', ''May'', ''June'', ''July'', ''August'',
     ''September'', ''October'', ''November'', ''December'']"

definition fmt_02 :: "int \<Rightarrow> string" where
  "fmt_02 n = [char_of (48 + nat n div 10), char_of (48 + nat n mod 10)]"

definition strftime_http :: "tm \<Rightarrow> string" where
  "strftime_http t = take 3 (day_names ! nat (tm_wday t)) @ '', '' @ fmt_02 (tm_mday t) @ '' '' @
     take 3 (month_names ! nat (tm_mon t)) @ '' '' @ fmt_dec (nat (tm_year t)) @ '' '' @
     fmt_02 (tm_hour t) @ '':'' @ fmt_02 (tm_min t) @ '':'' @ fmt_02 (tm_sec t) @ '' GMT''"

definition uh_file_unix2date :: "nat \<Rightarrow> string" where
  "uh_file_unix2date ts = strftime_http (gmtime ts)"

section \<open>Parsing\<close>

text \<open>
  The directives of \<^verbatim>\<open>strptime()\<close>: white space in the format matches any white space, a name matches
  in full or abbreviated to three letters in any case, a number has at most as many digits as
  its directive allows and must be in its range.
\<close>

definition scan_space :: "string \<Rightarrow> string option" where
  "scan_space s = Some (dropWhile isspace s)"

definition scan_char :: "char \<Rightarrow> string \<Rightarrow> string option" where
  "scan_char c s = (case s of x # r \<Rightarrow> if x = c then Some r else None | [] \<Rightarrow> None)"

fun scan_name :: "int \<Rightarrow> string list \<Rightarrow> string \<Rightarrow> (int \<times> string) option" where
  "scan_name k [] s = None"
| "scan_name k (n # ns) s =
     (if strncaseeq s n (length n) then Some (k, drop (length n) s)
      else if strncaseeq s (take 3 n) 3 then Some (k, drop 3 s)
      else scan_name (k + 1) ns s)"

fun scan_digits :: "nat \<Rightarrow> int \<Rightarrow> string \<Rightarrow> int \<times> string" where
  "scan_digits (Suc n) v (c # s) =
     (if isdigit c then scan_digits n (v * 10 + int (byte c - 48)) s else (v, c # s))"
| "scan_digits n v s = (v, s)"

definition scan_number :: "nat \<Rightarrow> int \<Rightarrow> int \<Rightarrow> string \<Rightarrow> (int \<times> string) option" where
  "scan_number n lo hi s =
     (let s' = dropWhile isspace s in
      if s' = [] \<or> \<not> isdigit (hd s') then None
      else let (v, r) = scan_digits n 0 s' in if lo \<le> v \<and> v \<le> hi then Some (v, r) else None)"

definition strptime_http :: "string \<Rightarrow> tm option" where
  "strptime_http s0 = do {
     (wd, s1) \<leftarrow> scan_name 0 day_names s0;
     s2 \<leftarrow> scan_char CHR '','' s1; s3 \<leftarrow> scan_space s2;
     (md, s4) \<leftarrow> scan_number 2 1 31 s3; s5 \<leftarrow> scan_space s4;
     (mo, s6) \<leftarrow> scan_name 0 month_names s5; s7 \<leftarrow> scan_space s6;
     (ye, s8) \<leftarrow> scan_number 4 0 9999 s7; s9 \<leftarrow> scan_space s8;
     (ho, s10) \<leftarrow> scan_number 2 0 23 s9; s11 \<leftarrow> scan_char CHR '':'' s10;
     (mi, s12) \<leftarrow> scan_number 2 0 59 s11; s13 \<leftarrow> scan_char CHR '':'' s12;
     (se, s14) \<leftarrow> scan_number 2 0 61 s13;
     Some \<lparr>tm_sec = se, tm_min = mi, tm_hour = ho, tm_mday = md, tm_mon = mo, tm_year = ye, tm_wday = wd\<rparr> }"

definition uh_file_date2unix :: "string \<Rightarrow> int" where
  "uh_file_date2unix date = (case strptime_http date of Some t \<Rightarrow> timegm t | None \<Rightarrow> 0)"

section \<open>A printed date is read back\<close>

lemma div_pred: "0 < m \<Longrightarrow> (y::int) div m = (y - 1) div m + (if y mod m = 0 then 1 else 0)"
proof -
  assume m: "0 < m"
  have y: "y = m * (y div m) + y mod m" and r: "0 \<le> y mod m" "y mod m < m" using m by simp_all
  show ?thesis
  proof (cases "y mod m = 0")
    case True
    with y have "y - 1 = m * (y div m - 1) + (m - 1)" by (simp add: algebra_simps)
    from int_div_pos_eq [OF this] m True show ?thesis by simp
  next
    case False
    with y have "y - 1 = m * (y div m) + (y mod m - 1)" by simp
    from int_div_pos_eq [OF this] r False show ?thesis by simp
  qed
qed

lemma leap_step:
  fixes y a4 a1 a0 b4 b1 b0 :: int
  assumes "a4 = b4 + (if P then 1 else 0)" "a1 = b1 + (if Q then 1 else 0)" "a0 = b0 + (if R then 1 else 0)"
    and "Q \<Longrightarrow> P" "R \<Longrightarrow> Q"
  shows "365 * (y + 1 - 1970) + (a4 - a1 + a0) - 477 =
    365 * (y - 1970) + (b4 - b1 + b0) - 477 + (if P \<and> \<not> Q \<or> R then 366 else 365)"
  using assms by auto

lemma year_start_Suc: "year_start (y + 1) = year_start y + year_len y"
proof -
  have dvd: "y mod k = 0" if "y mod l = 0" "k dvd l" for k l :: int
    using that dvd_trans [of k l y] by (simp add: mod_eq_0_iff_dvd)
  show ?thesis
    unfolding year_start_def year_len_def leap_year_def add_diff_cancel
    by (rule leap_step; (rule div_pred)?) (auto intro: dvd)
qed

lemma find_year_spec:
  assumes "find_year y d = (y', d')" and "0 \<le> d"
  shows "year_start y' + d' = year_start y + d \<and> 0 \<le> d' \<and> d' < year_len y' \<and> y \<le> y'"
  using assms
proof (induction y d rule: find_year.induct)
  case (1 y d)
  show ?case
  proof (cases "d < year_len y")
    case True
    with "1.prems" show ?thesis by (simp add: find_year.simps)
  next
    case False
    with "1.prems"(1) have "find_year (y + 1) (d - year_len y) = (y', d')"
      by (subst (asm) find_year.simps) simp
    with "1.IH" [OF False this] False year_start_Suc [of y] show ?thesis by auto
  qed
qed

lemma find_month_spec:
  assumes "find_month m ls d = (m', d')" and "0 \<le> d" and "d < sum_list ls" and "0 \<le> m"
  shows "m \<le> m' \<and> m' < m + int (length ls) \<and> 0 \<le> d' \<and> d' < ls ! nat (m' - m) \<and>
    sum_list (take (nat (m' - m)) ls) + d' = d"
  using assms
proof (induction m ls d rule: find_month.induct)
  case (2 m l ls d)
  show ?case
  proof (cases "d < l")
    case True
    with 2 show ?thesis by simp
  next
    case False
    with 2 have IH: "m + 1 \<le> m' \<and> m' < m + 1 + int (length ls) \<and> 0 \<le> d' \<and> d' < ls ! nat (m' - (m + 1)) \<and>
        sum_list (take (nat (m' - (m + 1))) ls) + d' = d - l" by simp
    then have "nat (m' - m) = Suc (nat (m' - (m + 1)))" by linarith
    with IH show ?thesis by simp
  qed
qed simp

definition valid_tm :: "tm \<Rightarrow> bool" where
  "valid_tm t \<longleftrightarrow> 0 \<le> tm_sec t \<and> tm_sec t < 60 \<and> 0 \<le> tm_min t \<and> tm_min t < 60 \<and> 0 \<le> tm_hour t \<and> tm_hour t < 24 \<and>
     1 \<le> tm_mday t \<and> tm_mday t \<le> 31 \<and> 0 \<le> tm_mon t \<and> tm_mon t < 12 \<and> 1970 \<le> tm_year t \<and>
     0 \<le> tm_wday t \<and> tm_wday t < 7"

lemma sum_month_lens: "sum_list (month_lens y) = year_len y"
  by (simp add: month_lens_def year_len_def)

lemma month_lens_le: "i < 12 \<Longrightarrow> month_lens y ! i \<le> 31"
proof -
  assume "i < 12"
  moreover have "length (month_lens y) = 12" by (simp add: month_lens_def)
  ultimately have "month_lens y ! i \<in> set (month_lens y)" by (intro nth_mem) simp
  then show ?thesis by (auto simp: month_lens_def split: if_splits)
qed

lemma gmtime_spec: "valid_tm (gmtime ts) \<and> timegm (gmtime ts) = int ts"
proof -
  let ?d = "int ts div 86400" and ?s = "int ts mod 86400"
  obtain y yd where y: "find_year 1970 ?d = (y, yd)" by fastforce
  from find_year_spec [OF this] have ys: "year_start y + yd = ?d" "0 \<le> yd" "yd < year_len y" "1970 \<le> y"
    by (simp_all add: year_start_def)
  obtain m md where m: "find_month 0 (month_lens y) yd = (m, md)" by fastforce
  have ml: "length (month_lens y) = 12" by (simp add: month_lens_def)
  from find_month_spec [OF m] ys ml have ms: "0 \<le> m" "m < 12" "0 \<le> md" "md < month_lens y ! nat m"
    "sum_list (take (nat m) (month_lens y)) + md = yd" by (simp_all add: sum_month_lens)
  have t: "gmtime ts = \<lparr>tm_sec = ?s mod 60, tm_min = ?s div 60 mod 60, tm_hour = ?s div 3600,
      tm_mday = md + 1, tm_mon = m, tm_year = y, tm_wday = (?d + 4) mod 7\<rparr>"
    by (simp add: gmtime_def Let_def y m)
  have "nat m < 12" using ms by simp
  from month_lens_le [OF this] ms(4) have "md + 1 \<le> 31" by (smt (verit))
  moreover have "0 \<le> ?s" "?s < 86400" by simp_all
  moreover from this have "?s div 3600 < 24" by linarith
  ultimately have "valid_tm (gmtime ts)" using ms ys by (simp add: t valid_tm_def)
  moreover have "timegm (gmtime ts) = int ts"
  proof -
    have "timegm (gmtime ts) = (?d * 24 + ?s div 3600) * 3600 + ?s div 60 mod 60 * 60 + ?s mod 60"
      using ys(1) ms(5) by (simp add: t timegm_def)
    also have "\<dots> = ?d * 86400 + (?s div 3600 * 3600 + ?s div 60 mod 60 * 60 + ?s mod 60)" by simp
    also have "?s div 3600 * 3600 + ?s div 60 mod 60 * 60 + ?s mod 60 = ?s"
    proof -
      have "?s div 3600 = ?s div 60 div 60" by (simp add: zdiv_zmult2_eq [symmetric])
      moreover have "?s div 60 div 60 * 60 + ?s div 60 mod 60 = ?s div 60" by simp
      moreover have "?s div 60 * 60 + ?s mod 60 = ?s" by simp
      ultimately show ?thesis by linarith
    qed
    finally show ?thesis by simp
  qed
  ultimately show ?thesis ..
qed

lemma scan_digits_append:
  "\<forall>c\<in>set w. isdigit c \<Longrightarrow> length w \<le> n \<Longrightarrow> r = [] \<or> length w = n \<or> \<not> isdigit (hd r) \<Longrightarrow>
   scan_digits n v (w @ r) = (foldl (\<lambda>a c. a * 10 + int (byte c - 48)) v w, r)"
proof (induction w arbitrary: n v)
  case Nil
  then show ?case by (cases n; cases r) auto
next
  case (Cons c w)
  then show ?case by (cases n) auto
qed

lemma scan_number_append:
  assumes "\<forall>c\<in>set w. isdigit c" "w \<noteq> []" "length w \<le> n" "r = [] \<or> length w = n \<or> \<not> isdigit (hd r)"
    and "foldl (\<lambda>a c. a * 10 + int (byte c - 48)) 0 w = v" "lo \<le> v" "v \<le> hi"
  shows "scan_number n lo hi (w @ r) = Some (v, r)"
proof -
  obtain c w' where w: "w = c # w'" "isdigit c" using assms(1,2) by (cases w) auto
  then have "\<not> isspace c" by (auto simp: ctype_defs)
  with w have "dropWhile isspace (w @ r) = w @ r" "w @ r \<noteq> []" "isdigit (hd (w @ r))" by auto
  with scan_digits_append [OF assms(1,3,4), of 0] assms(5-7) show ?thesis
    by (simp add: scan_number_def Let_def)
qed

lemma digit_char: "k < 10 \<Longrightarrow> isdigit (char_of (48 + k)) \<and> byte (char_of (48 + k) :: char) - 48 = k"
  by (simp add: ctype_defs)

lemma int_div_10: "int (n div 10) * 10 + int (n mod 10) = int n"
  by presburger

lemma scan_number_02:
  assumes "0 \<le> v" "v < 100" "lo \<le> v" "v \<le> hi"
  shows "scan_number 2 lo hi (fmt_02 v @ r) = Some (v, r)"
proof (rule scan_number_append)
  have "nat v div 10 < 10" "nat v mod 10 < 10" using assms by auto
  note d = digit_char [OF this(1)] digit_char [OF this(2)]
  then show "\<forall>c\<in>set (fmt_02 v). isdigit c" by (simp add: fmt_02_def)
  have "int (nat v div 10) * 10 + int (nat v mod 10) = v" using int_div_10 [of "nat v"] assms by simp
  with d show "foldl (\<lambda>a c. a * 10 + int (byte c - 48)) 0 (fmt_02 v) = v" by (simp add: fmt_02_def)
qed (use assms in \<open>auto simp: fmt_02_def\<close>)

lemma num_str_digits:
  "(\<forall>c\<in>set (fmt_dec n). isdigit c) \<and> foldl (\<lambda>a c. a * 10 + int (byte c - 48)) 0 (fmt_dec n) = int n"
  unfolding fmt_dec_def
proof (induction n rule: less_induct)
  case (less n)
  show ?case
  proof (cases "n < 10")
    case True
    then show ?thesis using digit_char [OF True] by (subst (1 2) num_str.simps) simp
  next
    case False
    then have "n div 10 < n" by simp
    note IH = less [OF this]
    have e: "num_str (\<lambda>k. char_of (48 + k)) 10 n =
        num_str (\<lambda>k. char_of (48 + k)) 10 (n div 10) @ [char_of (48 + n mod 10)]"
      using False by (subst num_str.simps) simp
    show ?thesis unfolding e using IH digit_char [of "n mod 10"] by (simp add: int_div_10)
  qed
qed

lemma month_cases:
  assumes "0 \<le> (k::int)" "k < 12"
  obtains "k = 0" | "k = 1" | "k = 2" | "k = 3" | "k = 4" | "k = 5" | "k = 6"
    | "k = 7" | "k = 8" | "k = 9" | "k = 10" | "k = 11"
  using assms by atomize_elim presburger

lemma scan_day_name:
  assumes "0 \<le> k" "k < 7"
  shows "scan_name 0 day_names (take 3 (day_names ! nat k) @ CHR '','' # r) = Some (k, CHR '','' # r)"
proof -
  from assms consider "k = 0" | "k = 1" | "k = 2" | "k = 3" | "k = 4" | "k = 5" | "k = 6" by linarith
  then show ?thesis by cases (simp_all add: day_names_def strncaseeq_def tolower_def ctype_defs)
qed

lemma scan_month_name:
  assumes "0 \<le> k" "k < 12"
  shows "scan_name 0 month_names (take 3 (month_names ! nat k) @ CHR '' '' # r) = Some (k, CHR '' '' # r)"
proof -
  from assms show ?thesis by (cases rule: month_cases) (simp_all add: month_names_def strncaseeq_def tolower_def ctype_defs)
qed

lemma scan_space_digits: "w \<noteq> [] \<Longrightarrow> \<not> isspace (hd w) \<Longrightarrow> scan_space (CHR '' '' # w @ r) = Some (w @ r)"
  by (cases w) (auto simp: scan_space_def ctype_defs)

lemma hd_not_space:
  "0 \<le> v \<Longrightarrow> v < 100 \<Longrightarrow> \<not> isspace (hd (fmt_02 v))" "\<not> isspace (hd (fmt_dec n))"
  "0 \<le> k \<Longrightarrow> k < 12 \<Longrightarrow> \<not> isspace (hd (take 3 (month_names ! nat k)))"
proof -
  assume v: "0 \<le> v" "v < 100"
  then have "nat v div 10 < 10" by auto
  from digit_char [OF this] show "\<not> isspace (hd (fmt_02 v))" by (auto simp: fmt_02_def ctype_defs)
next
  have "hd (fmt_dec n) \<in> set (fmt_dec n)" by (simp add: fmt_dec_def)
  with num_str_digits [of n] have "isdigit (hd (fmt_dec n))" by blast
  then show "\<not> isspace (hd (fmt_dec n))" by (auto simp: ctype_defs)
next
  assume "0 \<le> k" "k < 12"
  then show "\<not> isspace (hd (take 3 (month_names ! nat k)))" by (cases rule: month_cases) (simp_all add: month_names_def ctype_defs)
qed

lemma month_name_not_Nil: "0 \<le> k \<Longrightarrow> k < 12 \<Longrightarrow> take 3 (month_names ! nat k) \<noteq> []"
proof -
  assume "0 \<le> k" "k < 12"
  then show ?thesis by (cases rule: month_cases) (simp_all add: month_names_def)
qed

lemma scan_year:
  assumes "0 \<le> y" "y \<le> 9999"
  shows "scan_number 4 0 9999 (fmt_dec (nat y) @ CHR '' '' # r) = Some (y, CHR '' '' # r)"
proof (rule scan_number_append)
  show "length (fmt_dec (nat y)) \<le> 4"
    unfolding fmt_dec_def by (rule length_num_str_le) (use assms in auto)
  show "foldl (\<lambda>a c. a * 10 + int (byte c - 48)) 0 (fmt_dec (nat y)) = y"
    using num_str_digits [of "nat y"] assms by simp
qed (use num_str_digits [of "nat y"] assms in \<open>auto simp: fmt_dec_def ctype_defs\<close>)

lemma strptime_strftime:
  assumes "valid_tm t" and "tm_year t \<le> 9999"
  shows "strptime_http (strftime_http t) = Some t"
proof -
  have b: "0 \<le> tm_mday t" "tm_mday t < 100" "tm_hour t < 100" "tm_min t < 100" "tm_sec t < 100"
    "tm_hour t \<le> 23" "tm_min t \<le> 59" "tm_sec t \<le> 61" "0 \<le> tm_year t"
    and v: "1 \<le> tm_mday t" "tm_mday t \<le> 31" "0 \<le> tm_hour t" "0 \<le> tm_min t" "0 \<le> tm_sec t"
      "0 \<le> tm_mon t" "tm_mon t < 12" "0 \<le> tm_wday t" "tm_wday t < 7"
    using assms(1) by (simp_all add: valid_tm_def)
  have f: "fmt_02 k \<noteq> []" "fmt_dec n \<noteq> []" for k n by (simp_all add: fmt_02_def fmt_dec_def)
  note sp = scan_space_digits [OF f(1) hd_not_space(1)] scan_space_digits [OF f(2) hd_not_space(2)]
    scan_space_digits [OF month_name_not_Nil hd_not_space(3)]
  have c: "scan_char x (x # r) = Some r" for x r by (simp add: scan_char_def)
  have a: "'', '' @ s = CHR '','' # CHR '' '' # s" "'' '' @ s = CHR '' '' # s" "'':'' @ s = CHR '':'' # s" for s by simp_all
  show ?thesis
    unfolding strptime_http_def strftime_http_def a
    by (simp only: scan_day_name scan_month_name scan_number_02 scan_year sp c bind.bind_lunit
        prod.case b v assms(2)) simp
qed

lemma date2unix_unix2date:
  "tm_year (gmtime ts) \<le> 9999 \<Longrightarrow> uh_file_date2unix (uh_file_unix2date ts) = int ts"
  using strptime_strftime gmtime_spec [of ts] by (simp add: uh_file_date2unix_def uh_file_unix2date_def)

lemma length_unix2date: "tm_year (gmtime ts) \<le> 9999 \<Longrightarrow> length (uh_file_unix2date ts) \<le> 40"
proof -
  assume y: "tm_year (gmtime ts) \<le> 9999"
  then have "length (fmt_dec (nat (tm_year (gmtime ts)))) \<le> 4"
    unfolding fmt_dec_def by (intro length_num_str_le) auto
  then show ?thesis
    by (simp add: uh_file_unix2date_def strftime_http_def fmt_02_def)
qed

text \<open>
  C30: A date the server sends is understood when it comes back: for every time up to the end of
  the year 9999, \<open>uh_file_date2unix\<close> reads the text that \<open>uh_file_unix2date\<close> prints as that time. This
  is what the comparison of \<^verbatim>\<open>If-Modified-Since\<close> with \<^verbatim>\<open>Last-Modified\<close> rests on.
\<close>
theorem uh_file_date_roundtrip:
  assumes "tm_year (gmtime ts) \<le> 9999"
  shows "uh_file_date2unix (uh_file_unix2date ts) = int ts"
  using assms by (rule date2unix_unix2date)

theorem uh_file_date_roundtrip_witness:
  "uh_file_date2unix ''Sun, 01 Feb 1970 01:01:01 GMT'' = 2682061"
proof -
  have t: "gmtime 2682061 = \<lparr>tm_sec = 1, tm_min = 1, tm_hour = 1, tm_mday = 1, tm_mon = 1, tm_year = 1970, tm_wday = 0\<rparr>"
    by (simp add: gmtime_def find_year.simps month_lens_def year_len_def leap_year_def)
  then have "uh_file_unix2date 2682061 = ''Sun, 01 Feb 1970 01:01:01 GMT''"
    by (simp add: uh_file_unix2date_def strftime_http_def day_names_def month_names_def fmt_02_def fmt_dec_def num_str.simps char_of_def bit_0)
  with uh_file_date_roundtrip [of 2682061] t show ?thesis by simp
qed

end
