(* ===== verification/Uh_File.thy ===== *)
theory Uh_File
  imports Uh_Request Uh_Date "HOL-Library.Char_ord" "HOL-Library.List_Lexorder"
begin

text \<open>
  Static files (\<^verbatim>\<open>uhttpd-file.c\<close>, \<^verbatim>\<open>uhttpd-mimetypes.h\<close>): the table of types, entity tags, the
  conditional request headers, the directory listing and \<open>uh_file_request\<close>. Parameters: what
  \<^verbatim>\<open>open()\<close> and \<^verbatim>\<open>read()\<close> give for a path (\<open>contents\<close>), what \<^verbatim>\<open>scandir()\<close> finds in a directory before its
  filter and order (\<open>entries\<close>), \<^verbatim>\<open>stat()\<close> and \<^verbatim>\<open>time()\<close>. A routine that C leaves by a jump to \<^verbatim>\<open>out\<close>
  returns a negative value.
\<close>

section \<open>Types of files\<close>

definition uh_mime_types :: "(string \<times> string) list" where
  "uh_mime_types = [
     (''txt'', ''text/plain''), (''log'', ''text/plain''), (''js'', ''text/javascript''), (''css'', ''text/css''),
     (''htm'', ''text/html''), (''html'', ''text/html''), (''diff'', ''text/x-patch''), (''patch'', ''text/x-patch''),
     (''c'', ''text/x-csrc''), (''h'', ''text/x-chdr''), (''o'', ''text/x-object''), (''ko'', ''text/x-object''),
     (''bmp'', ''image/bmp''), (''gif'', ''image/png''), (''png'', ''image/png''), (''jpg'', ''image/jpeg''),
     (''jpeg'', ''image/jpeg''), (''svg'', ''image/svg+xml''),
     (''zip'', ''application/zip''), (''pdf'', ''application/pdf''), (''xml'', ''application/xml''),
     (''xsl'', ''application/xml''), (''doc'', ''application/msword''),
     (''ppt'', ''application/vnd.ms-powerpoint''), (''xls'', ''application/vnd.ms-excel''),
     (''odt'', ''application/vnd.oasis.opendocument.text''),
     (''odp'', ''application/vnd.oasis.opendocument.presentation''), (''pl'', ''application/x-perl''),
     (''sh'', ''application/x-shellscript''), (''php'', ''application/x-php''), (''deb'', ''application/x-deb''),
     (''iso'', ''application/x-cd-image''), (''tar.gz'', ''application/x-compressed-tar''),
     (''tgz'', ''application/x-compressed-tar''), (''gz'', ''application/x-gzip''),
     (''tar.bz2'', ''application/x-bzip-compressed-tar''), (''tbz'', ''application/x-bzip-compressed-tar''),
     (''bz2'', ''application/x-bzip''), (''tar'', ''application/x-tar''), (''rar'', ''application/x-rar-compressed''),
     (''mp3'', ''audio/mpeg''), (''ogg'', ''audio/x-vorbis+ogg''), (''wav'', ''audio/x-wav''),
     (''mpg'', ''video/mpeg''), (''mpeg'', ''video/mpeg''), (''avi'', ''video/x-msvideo''),
     (''README'', ''text/plain''), (''log'', ''text/plain''), (''cfg'', ''text/plain''), (''conf'', ''text/plain''),
     (''pac'', ''application/x-ns-proxy-autoconfig''), (''wpad.dat'', ''application/x-ns-proxy-autoconfig'')]"

text \<open>The inner loop: \<^verbatim>\<open>e\<close> points at index \<open>k - 1\<close> and moves to the start of the path.\<close>

fun mime_scan :: "string \<Rightarrow> string \<Rightarrow> nat \<Rightarrow> bool" where
  "mime_scan path extn 0 = False"
| "mime_scan path extn (Suc k) =
     (if (path ! k = CHR ''.'' \<or> path ! k = CHR ''/'') \<and> strcaseeq (drop (Suc k) path) extn then True
      else mime_scan path extn k)"

fun mime_lookup_in :: "(string \<times> string) list \<Rightarrow> string \<Rightarrow> string" where
  "mime_lookup_in [] path = ''application/octet-stream''"
| "mime_lookup_in ((extn, mime) # ms) path =
     (if mime_scan path extn (length path) then mime else mime_lookup_in ms path)"

definition uh_file_mime_lookup :: "string \<Rightarrow> string" where
  "uh_file_mime_lookup path = mime_lookup_in uh_mime_types path"

section \<open>Tags and headers\<close>

definition uh_file_mktag :: "fstat \<Rightarrow> string" where
  "uh_file_mktag s = CHR 0x22 # fmt_hex (st_ino s mod 2 ^ 32) @ ''-'' @ fmt_hex (st_size s mod 2 ^ 32) @ ''-'' @
     fmt_hex (st_mtime s mod 2 ^ 32) @ [CHR 0x22]"

fun uh_file_header_lookup :: "(string \<times> string) list \<Rightarrow> string \<Rightarrow> string option" where
  "uh_file_header_lookup [] name = None"
| "uh_file_header_lookup ((h, v) # hs) name =
     (if strcaseeq h name then Some v else uh_file_header_lookup hs name)"

definition uh_file_response_ok_hdrs :: "nat \<Rightarrow> fstat option \<Rightarrow> int io" where
  "uh_file_response_ok_hdrs now s =
     ensure_ret (uh_http_sendf None (''Connection: close'' @ CRLF))
    (ensure_ret (case s of
        None \<Rightarrow> return 0
      | Some st \<Rightarrow>
          ensure_ret (uh_http_sendf None (''ETag: '' @ uh_file_mktag st @ CRLF))
            (uh_http_sendf None (''Last-Modified: '' @ uh_file_unix2date (st_mtime st) @ CRLF)))
      (uh_http_sendf None (''Date: '' @ uh_file_unix2date now @ CRLF)))"

definition uh_file_response_200 :: "nat \<Rightarrow> http_request \<Rightarrow> fstat option \<Rightarrow> int io" where
  "uh_file_response_200 now req s =
     ensure_ret (uh_http_sendf None (''HTTP/'' @ fmt_version (req_version req) @ '' 200 OK'' @ CRLF))
       (uh_file_response_ok_hdrs now s)"

definition uh_file_response_304 :: "nat \<Rightarrow> http_request \<Rightarrow> fstat option \<Rightarrow> int io" where
  "uh_file_response_304 now req s =
     ensure_ret (uh_http_sendf None (''HTTP/'' @ fmt_version (req_version req) @ '' 304 Not Modified'' @ CRLF))
       (uh_file_response_ok_hdrs now s)"

definition uh_file_response_412 :: "http_request \<Rightarrow> int io" where
  "uh_file_response_412 req =
     uh_http_sendf None (''HTTP/'' @ fmt_version (req_version req) @ '' 412 Precondition Failed'' @ CRLF @
       ''Connection: close'' @ CRLF)"

section \<open>Preconditions\<close>

text \<open>
  The result is the value returned, which is negative when sending fails, and \<^verbatim>\<open>*ok\<close>.
  \<open>fails m\<close>: \<^verbatim>\<open>*ok = 0; ensure_ret(m); return *ok;\<close>
\<close>

definition fails :: "int io \<Rightarrow> (int \<times> bool) io" where
  "fails m = do { r \<leftarrow> m; return (if r < 0 then (- 1, False) else (0, False)) }"

abbreviation passes :: "(int \<times> bool) io" where "passes \<equiv> return (1, True)"

text \<open>
  The loop over the tags of a header value. It cuts the value at a separator by a terminator,
  which changes the length it compares with.
\<close>

function tag_loop :: "string \<Rightarrow> string \<Rightarrow> nat \<Rightarrow> nat \<Rightarrow> bool" where
  "tag_loop tag hdr p i =
     (if i < length (cstr hdr)
      then if hdr ! i = CHR '' '' \<or> hdr ! i = CHR '',''
           then tag_loop tag (hdr[i := NUL]) (i + 1) (i + 2)
           else if cstr (drop p hdr) = ''*'' \<or> cstr (drop p hdr) = tag then True
           else tag_loop tag hdr p (i + 1)
      else False)"
  by pat_completeness auto
termination
proof (relation "measure (\<lambda>(tag, hdr, p, i). length hdr - i)")
  fix tag hdr p i
  assume "i < length (cstr hdr)"
  moreover have "length (cstr hdr) \<le> length hdr" by (rule length_cstr_le)
  ultimately have "i < length hdr" by simp
  then show "((tag, hdr[i := NUL], i + 1, i + 2), tag, hdr, p, i) \<in> measure (\<lambda>(tag, hdr, p, i). length hdr - i)"
    and "((tag, hdr, p, i + 1), tag, hdr, p, i) \<in> measure (\<lambda>(tag, hdr, p, i). length hdr - i)" by auto
qed auto

declare tag_loop.simps [simp del]

definition uh_file_if_match :: "http_request \<Rightarrow> fstat \<Rightarrow> (int \<times> bool) io" where
  "uh_file_if_match req s = (case uh_file_header_lookup (req_headers req) ''If-Match'' of
      Some hdr \<Rightarrow> if tag_loop (uh_file_mktag s) hdr 0 0 then passes else fails (uh_file_response_412 req)
    | None \<Rightarrow> passes)"

definition uh_file_if_modified_since :: "nat \<Rightarrow> http_request \<Rightarrow> fstat \<Rightarrow> (int \<times> bool) io" where
  "uh_file_if_modified_since now req s = (case uh_file_header_lookup (req_headers req) ''If-Modified-Since'' of
      Some hdr \<Rightarrow> if int (st_mtime s) \<le> uh_file_date2unix hdr then fails (uh_file_response_304 now req (Some s))
                  else passes
    | None \<Rightarrow> passes)"

definition uh_file_if_none_match :: "nat \<Rightarrow> http_request \<Rightarrow> fstat \<Rightarrow> (int \<times> bool) io" where
  "uh_file_if_none_match now req s = (case uh_file_header_lookup (req_headers req) ''If-None-Match'' of
      Some hdr \<Rightarrow>
        if tag_loop (uh_file_mktag s) hdr 0 0
        then if req_method req = UH_HTTP_MSG_GET \<or> req_method req = UH_HTTP_MSG_HEAD
             then fails (uh_file_response_304 now req (Some s)) else fails (uh_file_response_412 req)
        else passes
    | None \<Rightarrow> passes)"

definition uh_file_if_range :: "http_request \<Rightarrow> (int \<times> bool) io" where
  "uh_file_if_range req = (case uh_file_header_lookup (req_headers req) ''If-Range'' of
      Some hdr \<Rightarrow> fails (uh_file_response_412 req)
    | None \<Rightarrow> passes)"

definition uh_file_if_unmodified_since :: "http_request \<Rightarrow> fstat \<Rightarrow> (int \<times> bool) io" where
  "uh_file_if_unmodified_since req s = (case uh_file_header_lookup (req_headers req) ''If-Unmodified-Since'' of
      Some hdr \<Rightarrow> if uh_file_date2unix hdr \<le> int (st_mtime s) then fails (uh_file_response_412 req) else passes
    | None \<Rightarrow> passes)"

section \<open>Directory listing\<close>

record files =
  contents :: "string \<Rightarrow> string option"
  entries :: "string \<Rightarrow> string list"

definition uh_file_scandir_filter_dir :: "string \<Rightarrow> bool" where
  "uh_file_scandir_filter_dir name \<longleftrightarrow> name \<noteq> ''.''"

text \<open>\<^verbatim>\<open>%.02f\<close> of \<^verbatim>\<open>n / 1024.0\<close>, which is exact; rounding is to the nearest, ties to even.\<close>

definition fmt_kbyte :: "nat \<Rightarrow> string" where
  "fmt_kbyte n =
     (let q = n * 100 div 1024; r = n * 100 mod 1024; h = (if 512 < r \<or> r = 512 \<and> odd q then q + 1 else q)
      in fmt_dec (h div 100) @ ''.'' @ fmt_02 (int (h mod 100)))"

text \<open>
  The file name in the buffer after \<^verbatim>\<open>strncat()\<close>, whose bound is the size of the buffer less
  the length of the entry; \<open>UB\<close> where the buffer is too small.
\<close>

definition list_name :: "string \<Rightarrow> string \<Rightarrow> string cres" where
  "list_name dir name =
     (let s = dir @ take (PATH_MAX - length name) name in if length s < PATH_MAX then Val s else UB)"

definition dir_item :: "path_info \<Rightarrow> string \<Rightarrow> fstat \<Rightarrow> string" where
  "dir_item pi name s =
     ''<li><strong><a href='' @ [CHR 0x27] @ pi_name pi @ name @ [CHR 0x27] @ ''>'' @ name @ ''</a>/</strong><br />'' @
     ''<small>modified: '' @ uh_file_unix2date (st_mtime s) @ ''<br />directory - '' @ fmt_kbyte (st_size s) @
     '' kbyte<br /><br /></small></li>''"

definition file_item :: "path_info \<Rightarrow> string \<Rightarrow> string \<Rightarrow> fstat \<Rightarrow> string" where
  "file_item pi filename name s =
     ''<li><strong><a href='' @ [CHR 0x27] @ pi_name pi @ name @ [CHR 0x27] @ ''>'' @ name @ ''</a></strong><br />'' @
     ''<small>modified: '' @ uh_file_unix2date (st_mtime s) @ ''<br />'' @ uh_file_mime_lookup filename @ '' - '' @
     fmt_kbyte (st_size s) @ '' kbyte<br /><br /></small></li>''"

definition list_subdir :: "fsys \<Rightarrow> http_request \<Rightarrow> path_info \<Rightarrow> string \<Rightarrow> int io" where
  "list_subdir fs req pi name = (case list_name (pi_phys pi) name of
      UB \<Rightarrow> ub
    | Val filename \<Rightarrow> (case fs_stat fs filename of
          Some s \<Rightarrow> if has_mode s S_IFDIR \<and> has_mode s S_IXOTH
                    then uh_http_sendf (Some req) (dir_item pi name s) else return 0
        | None \<Rightarrow> return 0))"

definition list_file :: "fsys \<Rightarrow> http_request \<Rightarrow> path_info \<Rightarrow> string \<Rightarrow> int io" where
  "list_file fs req pi name = (case list_name (pi_phys pi) name of
      UB \<Rightarrow> ub
    | Val filename \<Rightarrow> (case fs_stat fs filename of
          Some s \<Rightarrow> if \<not> has_mode s S_IFDIR \<and> has_mode s S_IROTH
                    then uh_http_sendf (Some req) (file_item pi filename name s) else return 0
        | None \<Rightarrow> return 0))"

definition dirlist_head :: "path_info \<Rightarrow> string" where
  "dirlist_head pi = ''<html><head><title>Index of '' @ pi_name pi @ ''</title></head>'' @
     ''<body><h1>Index of '' @ pi_name pi @ ''</h1><hr /><ol>''"

definition uh_file_dirlist :: "fsys \<Rightarrow> files \<Rightarrow> http_request \<Rightarrow> path_info \<Rightarrow> int io" where
  "uh_file_dirlist fs fl req pi =
     (let names = sort (filter uh_file_scandir_filter_dir (entries fl (pi_phys pi)))
      in ensure_ret (uh_http_sendf (Some req) (dirlist_head pi))
        (ensure_ret (send_each (list_subdir fs req pi) names)
        (ensure_ret (send_each (list_file fs req pi) names)
        (ensure_ret (uh_http_sendf (Some req) ''</ol><hr /></body></html>'')
                    (uh_http_sendf (Some req) [])))))"

section \<open>uh_file_request\<close>

text \<open>The blocks \<^verbatim>\<open>read()\<close> returns for a buffer of the given size.\<close>

function blocks :: "nat \<Rightarrow> string \<Rightarrow> string list" where
  "blocks n s = (if s = [] \<or> n = 0 then [] else take n s # blocks n (drop n s))"
  by pat_completeness auto
termination
  by (relation "measure (\<lambda>(n, s). length s)") auto

declare blocks.simps [simp del]

text \<open>The chain \<^verbatim>\<open>if(ok) ensure_out(...)\<close>.\<close>

fun file_checks :: "(int \<times> bool) io list \<Rightarrow> (int \<times> bool) io" where
  "file_checks [] = passes"
| "file_checks (m # ms) = do {
     (r, ok) \<leftarrow> m;
     if r < 0 then return (r, ok) else if ok then file_checks ms else return (r, ok) }"

definition file_ok :: "nat \<Rightarrow> http_request \<Rightarrow> path_info \<Rightarrow> string \<Rightarrow> int io" where
  "file_ok now req pi data =
     ensure_ret (uh_file_response_200 now req (Some (pi_stat pi)))
    (ensure_ret (uh_http_sendf None (''Content-Type: '' @ uh_file_mime_lookup (pi_name pi) @ CRLF))
    (ensure_ret (uh_http_sendf None (''Content-Length: '' @ fmt_int (sint (of_nat (st_size (pi_stat pi)) :: u32)) @ CRLF))
    (ensure_ret (if version_gt_1_0 (req_version req) \<and> req_method req \<noteq> UH_HTTP_MSG_HEAD
                 then uh_http_send None (''Transfer-Encoding: chunked'' @ CRLF) else return 0)
    (ensure_ret (uh_http_send None CRLF)
       (if req_method req \<noteq> UH_HTTP_MSG_HEAD
        then ensure_ret (send_each (uh_http_send (Some req)) (blocks UH_LIMIT_MSGHEAD data))
               (uh_http_send (Some req) [])
        else return 0)))))"

definition uh_file_request :: "fsys \<Rightarrow> files \<Rightarrow> nat \<Rightarrow> config \<Rightarrow> http_request \<Rightarrow> path_info \<Rightarrow> int io" where
  "uh_file_request fs fl now conf req pi =
     (let s = pi_stat pi in
      case (if has_mode s S_IFREG then contents fl (pi_phys pi) else None) of
        Some data \<Rightarrow> do {
          (r, ok) \<leftarrow> file_checks [uh_file_if_modified_since now req s, uh_file_if_match req s,
             uh_file_if_range req, uh_file_if_unmodified_since req s, uh_file_if_none_match now req s];
          if r < 0 then return (- 1)
          else if ok then file_ok now req pi data
          else uh_http_send None CRLF }
      | None \<Rightarrow>
          if has_mode s S_IFDIR \<and> \<not> no_dirlists conf
          then ensure_ret (uh_file_response_200 now req None)
              (ensure_ret (if version_gt_1_0 (req_version req)
                           then uh_http_send None (''Transfer-Encoding: chunked'' @ CRLF) else return 0)
              (ensure_ret (uh_http_send None (''Content-Type: text/html'' @ CRLF @ CRLF))
                 (uh_file_dirlist fs fl req pi)))
          else uh_http_sendhf 403 ''Forbidden'' ''Access to this resource is forbidden'')"

section \<open>Types and tags\<close>

text \<open>A path has an extension when it ends in a dot or a slash followed by it, in any case.\<close>

definition has_extn :: "string \<Rightarrow> string \<Rightarrow> bool" where
  "has_extn path extn \<longleftrightarrow> length extn < length path \<and>
     path ! (length path - length extn - 1) \<in> {CHR ''.'', CHR ''/''} \<and>
     strcaseeq (drop (length path - length extn) path) extn"

lemma strcaseeq_length: "strcaseeq a b \<Longrightarrow> length a = length b"
  by (metis strcaseeq_def length_map)

lemma mime_scan_iff:
  "mime_scan path extn n \<longleftrightarrow>
     (\<exists>k<n. (path ! k = CHR ''.'' \<or> path ! k = CHR ''/'') \<and> strcaseeq (drop (Suc k) path) extn)"
  by (induction n) (auto simp: less_Suc_eq)

lemma mime_scan_extn: "mime_scan path extn (length path) \<longleftrightarrow> has_extn path extn"
proof
  assume "mime_scan path extn (length path)"
  then obtain k where k: "k < length path" "path ! k = CHR ''.'' \<or> path ! k = CHR ''/''"
    "strcaseeq (drop (Suc k) path) extn" by (auto simp: mime_scan_iff)
  from strcaseeq_length [OF k(3)] k(1) have "length path - length extn = Suc k" "length extn < length path" by auto
  with k show "has_extn path extn" by (auto simp: has_extn_def)
next
  assume e: "has_extn path extn"
  then have "Suc (length path - length extn - 1) = length path - length extn" by (auto simp: has_extn_def)
  with e show "mime_scan path extn (length path)"
    unfolding mime_scan_iff by (intro exI [of _ "length path - length extn - 1"]) (auto simp: has_extn_def)
qed

text \<open>
  \<open>uh_file_mime_lookup\<close> returns the type of the first entry of the table whose extension the
  path has, that is, the path ends in a dot or a slash followed by the extension in any case;
  and \<^verbatim>\<open>application/octet-stream\<close> when there is none. The scan over all dots and slashes does not
  find more than that.
\<close>
lemma uh_file_mime_lookup_spec:
  "uh_file_mime_lookup path = (case find (\<lambda>(extn, mime). has_extn path extn) uh_mime_types of
      Some (extn, mime) \<Rightarrow> mime | None \<Rightarrow> ''application/octet-stream'')"
proof -
  have "mime_lookup_in ms path = (case find (\<lambda>(extn, mime). has_extn path extn) ms of
      Some (extn, mime) \<Rightarrow> mime | None \<Rightarrow> ''application/octet-stream'')" for ms
    by (induction ms) (auto simp: mime_scan_extn)
  then show ?thesis by (simp add: uh_file_mime_lookup_def)
qed

lemma tag_loop_stops: "length (cstr hdr) \<le> i \<Longrightarrow> \<not> tag_loop tag hdr p i"
  by (subst tag_loop.simps) simp

lemma length_cstr_cut: "length (cstr (hdr[i := NUL])) \<le> i"
proof (cases "i < length hdr")
  case True
  then have "hdr[i := NUL] = take i hdr @ NUL # drop (Suc i) hdr" by (simp add: upd_conv_take_nth_drop)
  then show ?thesis using length_cstr_le [of "take i hdr"] True by (auto simp: cstr_append)
next
  case False
  then show ?thesis using length_cstr_le [of "hdr[i := NUL]"] by simp
qed

lemma tag_loop_miss: "hdr \<noteq> ''*'' \<Longrightarrow> hdr \<noteq> tag \<Longrightarrow> NUL \<notin> set hdr \<Longrightarrow> \<not> tag_loop tag hdr 0 i"
proof (induction "length hdr - i" arbitrary: i rule: less_induct)
  case less
  have "\<not> tag_loop tag (hdr[i := NUL]) (i + 1) (i + 2)"
    using length_cstr_cut [of hdr i] by (intro tag_loop_stops) simp
  with less show ?case by (subst tag_loop.simps) (auto simp: cstr_no_NUL)
qed

lemma tag_loop_eq:
  assumes "NUL \<notin> set hdr" and "tag \<noteq> []" and "hd tag \<noteq> CHR '' ''" and "hd tag \<noteq> CHR '',''"
  shows "tag_loop tag hdr 0 0 \<longleftrightarrow> hdr = ''*'' \<or> hdr = tag"
proof (cases "hdr = ''*'' \<or> hdr = tag")
  case True
  with assms have "0 < length (cstr hdr)" "hdr ! 0 \<noteq> CHR '' ''" "hdr ! 0 \<noteq> CHR '',''"
    by (auto simp: cstr_no_NUL hd_conv_nth)
  with True assms(1) show ?thesis by (subst tag_loop.simps) (auto simp: cstr_no_NUL)
next
  case False
  with tag_loop_miss assms(1) show ?thesis by blast
qed

lemma mktag_hd: "uh_file_mktag s \<noteq> []" "hd (uh_file_mktag s) = CHR 0x22"
  by (simp_all add: uh_file_mktag_def)

text \<open>
  C34: The tag list of \<^verbatim>\<open>If-Match\<close> is not read as a list: the precondition holds exactly when the whole
  header is a star or the tag of the file. With a list of several tags it always fails, even if
  the tag of the file is among them, because cutting the first one off also ends the loop.
\<close>
theorem uh_file_if_match_whole:
  assumes "uh_file_header_lookup (req_headers req) ''If-Match'' = Some hdr" and "NUL \<notin> set hdr"
  shows "snd (fst (run_state (uh_file_if_match req s) c)) \<longleftrightarrow> hdr = ''*'' \<or> hdr = uh_file_mktag s"
  using tag_loop_eq [OF assms(2) mktag_hd(1) [of s]] mktag_hd(2) [of s] assms(1)
  by (auto simp: uh_file_if_match_def fails_def split: prod.splits)

theorem uh_file_if_match_whole_witness:
  "\<not> snd (fst (run_state (uh_file_if_match
      (demo_req\<lparr>req_headers := [(''If-Match'', uh_file_mktag demo_stat @ '', '' @ uh_file_mktag demo_stat)]\<rparr>) demo_stat) (demo_conn [] [])))"
proof -
  let ?h = "uh_file_mktag demo_stat @ '', '' @ uh_file_mktag demo_stat"
  let ?r = "demo_req\<lparr>req_headers := [(''If-Match'', ?h)]\<rparr>"
  have "uh_file_header_lookup (req_headers ?r) ''If-Match'' = Some ?h" by simp
  moreover have "uh_file_mktag demo_stat = CHR 0x22 # ''7-0-0'' @ [CHR 0x22]"
    by (simp add: uh_file_mktag_def demo_stat_def fmt_hex_def num_str.simps hexdigit_lower_def char_of_def bit_0)
  then have "NUL \<notin> set ?h" "?h \<noteq> ''*''" "?h \<noteq> uh_file_mktag demo_stat" by simp_all
  ultimately show ?thesis using uh_file_if_match_whole [of ?r ?h demo_stat] by blast
qed

section \<open>What a file request puts on the wire\<close>

lemma emits_sendf_None [emits_intros]: "length msg < UH_LIMIT_MSGHEAD \<Longrightarrow> emits (uh_http_sendf None msg) msg"
  using sendf_em.op_emits [of msg None] by (simp add: send_text_def wants_chunked_def)

lemma emits_send_None [emits_intros]: "length msg < 16 ^ 5 \<Longrightarrow> emits (uh_http_send None msg) msg"
  using send_em.op_emits [of msg None] by (simp add: send_text_def wants_chunked_def)

lemma emits_return_0 [emits_intros]: "emits (return 0) []"
  by (rule emits_return) simp

lemma concat_blocks: "0 < n \<Longrightarrow> concat (blocks n s) = s"
proof (induction n s rule: blocks.induct)
  case (1 n s)
  then show ?case by (subst blocks.simps) auto
qed

lemma blocks_lengths: "b \<in> set (blocks n s) \<Longrightarrow> b \<noteq> [] \<and> length b \<le> n"
proof (induction n s rule: blocks.induct)
  case (1 n s)
  then show ?case by (subst (asm) (2) blocks.simps) (auto split: if_splits)
qed

definition ok_hdrs_text :: "nat \<Rightarrow> fstat option \<Rightarrow> string" where
  "ok_hdrs_text now s = ''Connection: close'' @ CRLF @ (case s of None \<Rightarrow> [] | Some st \<Rightarrow>
       ''ETag: '' @ uh_file_mktag st @ CRLF @ ''Last-Modified: '' @ uh_file_unix2date (st_mtime st) @ CRLF) @
     ''Date: '' @ uh_file_unix2date now @ CRLF"

definition printable_time :: "nat \<Rightarrow> bool" where
  "printable_time ts \<longleftrightarrow> tm_year (gmtime ts) \<le> 9999"

lemma length_mktag: "length (uh_file_mktag s) \<le> 30"
proof -
  have "length (fmt_hex (n mod 2 ^ 32)) \<le> 8" for n
    unfolding fmt_hex_def by (rule length_num_str_le) auto
  from this [of "st_ino s"] this [of "st_size s"] this [of "st_mtime s"]
  show ?thesis by (simp add: uh_file_mktag_def)
qed

lemma emits_ok_hdrs:
  assumes "printable_time now" and "\<And>st. s = Some st \<Longrightarrow> printable_time (st_mtime st)"
  shows "emits (uh_file_response_ok_hdrs now s) (ok_hdrs_text now s)"
proof -
  note l = length_mktag length_unix2date [OF assms(1) [unfolded printable_time_def]]
  have "emits (uh_file_response_ok_hdrs now s) ((''Connection: close'' @ CRLF) @ (case s of None \<Rightarrow> [] | Some st \<Rightarrow>
       (''ETag: '' @ uh_file_mktag st @ CRLF) @ (''Last-Modified: '' @ uh_file_unix2date (st_mtime st) @ CRLF)) @
     ''Date: '' @ uh_file_unix2date now @ CRLF)"
  proof (cases s)
    case None
    show ?thesis
      unfolding uh_file_response_ok_hdrs_def None option.case using l
      by (intro emits_ensure_ret emits_intros) (auto simp: UH_LIMIT_MSGHEAD_def)
  next
    case (Some st)
    note m = length_unix2date [OF assms(2) [OF Some, unfolded printable_time_def]]
    show ?thesis
      unfolding uh_file_response_ok_hdrs_def Some option.case using l(2) m length_mktag [of st]
      by (intro emits_ensure_ret emits_intros) (auto simp: UH_LIMIT_MSGHEAD_def)
  qed
  then show ?thesis by (simp add: ok_hdrs_text_def split: option.splits)
qed

definition status_line :: "http_request \<Rightarrow> string \<Rightarrow> string" where
  "status_line req st = ''HTTP/'' @ fmt_version (req_version req) @ st @ CRLF"

lemma length_fmt_version: "length (fmt_version v) = 3"
  by (cases v) auto

lemma emits_response_status:
  assumes "printable_time now" and "\<And>st. s = Some st \<Longrightarrow> printable_time (st_mtime st)"
  shows "emits (uh_file_response_200 now req s) (status_line req '' 200 OK'' @ ok_hdrs_text now s)"
    and "emits (uh_file_response_304 now req s) (status_line req '' 304 Not Modified'' @ ok_hdrs_text now s)"
proof -
  show "emits (uh_file_response_200 now req s) (status_line req '' 200 OK'' @ ok_hdrs_text now s)"
    unfolding uh_file_response_200_def status_line_def
    by (intro emits_ensure_ret emits_sendf_None emits_ok_hdrs assms)
      (simp_all add: length_fmt_version UH_LIMIT_MSGHEAD_def)
  show "emits (uh_file_response_304 now req s) (status_line req '' 304 Not Modified'' @ ok_hdrs_text now s)"
    unfolding uh_file_response_304_def status_line_def
    by (intro emits_ensure_ret emits_sendf_None emits_ok_hdrs assms)
      (simp_all add: length_fmt_version UH_LIMIT_MSGHEAD_def)
qed

lemma length_mime: "length (uh_file_mime_lookup path) \<le> 60"
proof -
  have "list_all (\<lambda>(e, m). length m \<le> 60) uh_mime_types" by (simp add: uh_mime_types_def)
  moreover have "length (mime_lookup_in ms path) \<le> 60" if "list_all (\<lambda>(e, m). length m \<le> 60) ms" for ms
    using that by (induction ms) auto
  ultimately show ?thesis by (simp add: uh_file_mime_lookup_def)
qed

lemma length_fmt_int_word: "length (fmt_int (sint (w :: u32))) \<le> 11"
proof -
  have "- (2 ^ 31) \<le> sint w" "sint w < 2 ^ 31"
    using sint_ge [of w] sint_lt [of w] by simp_all
  then have "length (fmt_dec (nat (sint w))) \<le> 10" "length (fmt_dec (nat (- sint w))) \<le> 10"
    unfolding fmt_dec_def by (intro length_num_str_le; simp)+
  then show ?thesis by (simp add: fmt_int_def)
qed

text \<open>The head of the answer to a request for a file.\<close>

definition file_head :: "nat \<Rightarrow> http_request \<Rightarrow> path_info \<Rightarrow> string" where
  "file_head now req pi =
     (status_line req '' 200 OK'' @ ok_hdrs_text now (Some (pi_stat pi))) @
     (''Content-Type: '' @ uh_file_mime_lookup (pi_name pi) @ CRLF) @
     (''Content-Length: '' @ fmt_int (sint (of_nat (st_size (pi_stat pi)) :: u32)) @ CRLF) @
     (if version_gt_1_0 (req_version req) \<and> req_method req \<noteq> UH_HTTP_MSG_HEAD
      then ''Transfer-Encoding: chunked'' @ CRLF else []) @ CRLF"

definition file_body :: "http_request \<Rightarrow> string \<Rightarrow> string" where
  "file_body req data = (if req_method req \<noteq> UH_HTTP_MSG_HEAD
     then concat (map (send_text (Some req)) (blocks UH_LIMIT_MSGHEAD data)) @ send_text (Some req) [] else [])"

lemma emits_file_ok:
  assumes "printable_time now" and "printable_time (st_mtime (pi_stat pi))"
  shows "emits (file_ok now req pi data) (file_head now req pi @ file_body req data)"
proof -
  have bl: "emits (send_each (uh_http_send (Some req)) (blocks UH_LIMIT_MSGHEAD data))
      (concat (map (send_text (Some req)) (blocks UH_LIMIT_MSGHEAD data)))"
  proof (rule send_em.each_emits)
    show "list_all (\<lambda>buf. length buf < 16 ^ 5) (blocks UH_LIMIT_MSGHEAD data)"
      using blocks_lengths [of _ UH_LIMIT_MSGHEAD data]
      by (force simp: list_all_iff UH_LIMIT_MSGHEAD_def)
  qed
  have te: "emits (if version_gt_1_0 (req_version req) \<and> req_method req \<noteq> UH_HTTP_MSG_HEAD
      then uh_http_send None (''Transfer-Encoding: chunked'' @ CRLF) else return 0)
    (if version_gt_1_0 (req_version req) \<and> req_method req \<noteq> UH_HTTP_MSG_HEAD
      then ''Transfer-Encoding: chunked'' @ CRLF else [])"
    by (auto intro!: emits_intros)
  have "emits (if req_method req \<noteq> UH_HTTP_MSG_HEAD
        then ensure_ret (send_each (uh_http_send (Some req)) (blocks UH_LIMIT_MSGHEAD data))
               (uh_http_send (Some req) []) else return 0) (file_body req data)"
    unfolding file_body_def by (auto intro!: emits_ensure_ret bl send_em.op_emits emits_intros)
  then show ?thesis
    unfolding file_ok_def file_head_def append_assoc [of _ _ "file_body req data"]
    using assms length_mime [of "pi_name pi"] length_fmt_int_word [of "of_nat (st_size (pi_stat pi))"] te
    by (intro emits_ensure_ret emits_response_status emits_sendf_None emits_send_None)
      (auto simp: UH_LIMIT_MSGHEAD_def)
qed

lemma file_body_decodes:
  "file_body req data =
     (if req_method req = UH_HTTP_MSG_HEAD then []
      else if req_version req = HTTP_1_1
      then concat (map chunk (blocks UH_LIMIT_MSGHEAD data)) @ last_chunk
      else data)"
proof -
  have ne: "b \<noteq> []" if "b \<in> set (blocks UH_LIMIT_MSGHEAD data)" for b using blocks_lengths [OF that] by simp
  have "map (send_text (Some req)) (blocks UH_LIMIT_MSGHEAD data) =
      (if req_version req = HTTP_1_1 then map chunk (blocks UH_LIMIT_MSGHEAD data) else blocks UH_LIMIT_MSGHEAD data)"
    using ne by (auto simp: send_text_def wants_chunked_def version_gt_1_0_def chunk_text_def intro: map_idI)
  then show ?thesis
    using concat_blocks [of UH_LIMIT_MSGHEAD data]
    by (auto simp: file_body_def send_text_def wants_chunked_def version_gt_1_0_def chunk_text_def UH_LIMIT_MSGHEAD_def)
qed

text \<open>The request has none of the conditional headers.\<close>

definition unconditional :: "http_request \<Rightarrow> bool" where
  "unconditional req \<longleftrightarrow> list_all (\<lambda>h. uh_file_header_lookup (req_headers req) h = None)
     [''If-Modified-Since'', ''If-Match'', ''If-Range'', ''If-Unmodified-Since'', ''If-None-Match'']"

text \<open>
  C11: Serving a file. On a connection that takes every write, the answer to an unconditional
  request for a readable regular file is the 200 head followed by the body: nothing for
  \<^verbatim>\<open>HEAD\<close>, the bytes of the file for HTTP/1.0 and 0.9, and for HTTP/1.1 a chunked message that decodes
  to exactly the bytes of the file, with nothing behind it.
\<close>
theorem uh_file_request_serves:
  assumes "reliable c" and "has_mode (pi_stat pi) S_IFREG" and "contents fl (pi_phys pi) = Some data"
    and "unconditional req" and "printable_time now" and "printable_time (st_mtime (pi_stat pi))"
  shows "\<exists>r body. run_state (uh_file_request fs fl now conf req pi) c =
      (r, c\<lparr>tx := tx c @ file_head now req pi @ body\<rparr>) \<and> 0 \<le> r \<and>
    (if req_method req = UH_HTTP_MSG_HEAD then body = []
     else if req_version req = HTTP_1_1 then \<exists>fuel. dechunk fuel body = Some (data, [])
     else body = data)"
proof -
  have "uh_file_request fs fl now conf req pi = file_ok now req pi data"
    using assms(2-4) by (intro state.expand ext)
      (simp add: uh_file_request_def unconditional_def uh_file_if_modified_since_def uh_file_if_match_def
        uh_file_if_range_def uh_file_if_unmodified_since_def uh_file_if_none_match_def)
  with emits_file_ok [OF assms(5,6), of req data] emitsE [OF _ assms(1)]
  obtain r where r: "run_state (uh_file_request fs fl now conf req pi) c =
      (r, c\<lparr>tx := tx c @ file_head now req pi @ file_body req data\<rparr>)" "0 \<le> r" by metis
  have "dechunk (Suc (length (blocks UH_LIMIT_MSGHEAD data)))
      (concat (map chunk (blocks UH_LIMIT_MSGHEAD data)) @ last_chunk) = Some (data, [])"
  proof -
    have "[] \<notin> set (blocks UH_LIMIT_MSGHEAD data)" using blocks_lengths by blast
    from dechunk_chunks [OF this lessI, of "[]"] show ?thesis
      unfolding append_Nil2 by (simp only: concat_blocks UH_LIMIT_MSGHEAD_def zero_less_numeral)
  qed
  then have "\<exists>fuel. dechunk fuel (concat (map chunk (blocks UH_LIMIT_MSGHEAD data)) @ last_chunk) = Some (data, [])"
    by blast
  with r show ?thesis unfolding file_body_decodes by (intro exI conjI) auto
qed

definition demo_file :: path_info where
  "demo_file = demo_path\<lparr>pi_stat := demo_stat\<lparr>st_mode := 0x81A4\<rparr>\<rparr>"

theorem uh_file_request_serves_witness:
  "\<exists>r body. run_state (uh_file_request demo_fs \<lparr>contents = \<lambda>p. Some ''hello'', entries = \<lambda>p. []\<rparr> 0 demo_conf
      demo_req demo_file) (demo_conn [] []) =
      (r, (demo_conn [] [])\<lparr>tx := tx (demo_conn [] []) @ file_head 0 demo_req demo_file @ body\<rparr>) \<and> 0 \<le> r \<and>
    (\<exists>fuel. dechunk fuel body = Some (''hello'', []))"
proof -
  have "reliable (demo_conn [] [])" "has_mode (pi_stat demo_file) S_IFREG" "unconditional demo_req"
    "printable_time 0" "printable_time (st_mtime (pi_stat demo_file))"
    by (simp_all add: reliable_def demo_conn_def demo_file_def demo_path_def demo_stat_def has_mode_def
        S_IFREG_def unconditional_def demo_req_def printable_time_def gmtime_def find_year.simps
        year_len_def leap_year_def month_lens_def)
  from uh_file_request_serves [OF this(1,2) _ this(3-5), of "\<lparr>contents = \<lambda>p. Some ''hello'', entries = \<lambda>p. []\<rparr>" "''hello''" demo_fs demo_conf]
  show ?thesis by (simp add: demo_req_def)
qed

text \<open>
  C31: Revalidation. A client that sends back the \<^verbatim>\<open>Last-Modified\<close> date of an unchanged file as
  \<^verbatim>\<open>If-Modified-Since\<close> is answered with the head of a 304 response, which ends in an empty line, and
  the file itself is not sent.
\<close>
theorem uh_file_request_not_modified:
  assumes "reliable c" and "has_mode (pi_stat pi) S_IFREG" and "contents fl (pi_phys pi) = Some data"
    and "uh_file_header_lookup (req_headers req) ''If-Modified-Since'' =
      Some (uh_file_unix2date (st_mtime (pi_stat pi)))"
    and "printable_time now" and "printable_time (st_mtime (pi_stat pi))"
  shows "\<exists>r. run_state (uh_file_request fs fl now conf req pi) c =
    (r, c\<lparr>tx := tx c @ status_line req '' 304 Not Modified'' @ ok_hdrs_text now (Some (pi_stat pi)) @ CRLF\<rparr>)"
proof -
  let ?s = "pi_stat pi"
  let ?t = "status_line req '' 304 Not Modified'' @ ok_hdrs_text now (Some ?s)"
  have "int (st_mtime ?s) \<le> uh_file_date2unix (uh_file_unix2date (st_mtime ?s))"
    using date2unix_unix2date assms(6) by (simp add: printable_time_def)
  with assms(4) have ims: "uh_file_if_modified_since now req ?s = fails (uh_file_response_304 now req (Some ?s))"
    by (simp add: uh_file_if_modified_since_def)
  have "emits (uh_file_response_304 now req (Some ?s)) ?t"
    using assms(5,6) by (intro emits_response_status) auto
  from emitsE [OF this assms(1)] obtain r where
    r: "run_state (uh_file_response_304 now req (Some ?s)) c = (r, c\<lparr>tx := tx c @ ?t\<rparr>)" "0 \<le> r" .
  have "emits (uh_http_send None CRLF) CRLF" by (intro emits_intros) simp
  from emitsE [OF this, of "c\<lparr>tx := tx c @ ?t\<rparr>"] assms(1) obtain r' where
    "run_state (uh_http_send None CRLF) (c\<lparr>tx := tx c @ ?t\<rparr>) = (r', c\<lparr>tx := tx c @ ?t @ CRLF\<rparr>)" by auto
  with assms(2,3) ims r show ?thesis by (simp add: uh_file_request_def fails_def Let_def)
qed

theorem uh_file_request_not_modified_witness:
  "\<exists>r. run_state (uh_file_request demo_fs \<lparr>contents = \<lambda>p. Some ''hello'', entries = \<lambda>p. []\<rparr> 0 demo_conf
      (demo_req\<lparr>req_headers := [(''If-modified-since'', uh_file_unix2date 0)]\<rparr>) demo_file) (demo_conn [] []) =
    (r, (demo_conn [] [])\<lparr>tx := tx (demo_conn [] []) @ status_line demo_req '' 304 Not Modified'' @
        ok_hdrs_text 0 (Some (pi_stat demo_file)) @ CRLF\<rparr>)"
proof -
  let ?r = "demo_req\<lparr>req_headers := [(''If-modified-since'', uh_file_unix2date 0)]\<rparr>"
  have "strcaseeq ''If-modified-since'' ''If-Modified-Since''" by (simp add: strcaseeq_def tolower_def ctype_defs char_of_def bit_0 bit_numeral_rec)
  then have "reliable (demo_conn [] [])" "has_mode (pi_stat demo_file) S_IFREG"
    "uh_file_header_lookup (req_headers ?r) ''If-Modified-Since'' = Some (uh_file_unix2date (st_mtime (pi_stat demo_file)))"
    "printable_time 0" "printable_time (st_mtime (pi_stat demo_file))"
    by (simp_all add: reliable_def demo_conn_def demo_file_def demo_path_def demo_stat_def has_mode_def
        S_IFREG_def demo_req_def printable_time_def gmtime_def find_year.simps
        year_len_def leap_year_def month_lens_def)
  from uh_file_request_not_modified [OF this(1,2) _ this(3-5), of "\<lparr>contents = \<lambda>p. Some ''hello'', entries = \<lambda>p. []\<rparr>" "''hello''" demo_fs demo_conf]
  show ?thesis by (simp add: status_line_def)
qed

end
