(* ===== verification/Uh_Cgi.thy ===== *)
theory Uh_Cgi
  imports Uh_File
begin

text \<open>
  CGI programs (\<^verbatim>\<open>uhttpd-cgi.c\<close>): parsing the head a program prints, the environment it is started
  with, and the loop that relays the request body to the program and its output to the client.
  The child and the kernel are a parameter: the list of what the calls of \<^verbatim>\<open>select()\<close> report. The
  loop may run as long as the child lives; a run over a list of reports that is not finished when
  the list ends gives no result.
\<close>

section \<open>Parsing the head of a response\<close>

text \<open>
  The loop over the head. The program's bytes are in \<open>buf\<close>, \<open>len\<close> of them; \<open>off\<close> is the end of the
  head. \<open>bufptr\<close> and \<open>hdrname\<close> are offsets. A string is read where its terminator is written. The
  result is the buffer afterwards and the response, if it does not have too many fields.
\<close>

definition cgi_store :: "string \<Rightarrow> string \<Rightarrow> http_response \<Rightarrow> http_response" where
  "cgi_store name val res =
     (if strcaseeq name ''Status''
      then res\<lparr>res_statuscode := (if atoi val < 100 then 200 else atoi val),
               res_statusmsg := (case strchr val (CHR '' '') of
                   Some k \<Rightarrow> drop (Suc k) val | None \<Rightarrow> res_statusmsg res)\<rparr>
      else res\<lparr>res_headers := res_headers res @ [(name, val)]\<rparr>)"

function cgi_fields :: "nat \<Rightarrow> nat \<Rightarrow> string \<Rightarrow> nat \<Rightarrow> nat \<Rightarrow> nat option \<Rightarrow> http_response \<Rightarrow>
    string \<times> http_response option" where
  "cgi_fields len off buf pos bufptr hdrname res =
     (if pos < off
      then if hdrname = None \<and> char_at buf pos = CHR '':''
           then (let b = buf[pos := NUL];
                     p = (if pos + 1 < len \<and> char_at b (pos + 1) = CHR '' '' then pos + 2 else pos + 1)
                 in if p < len then cgi_fields len off b (p + 1) p (Some bufptr) res
                    else cgi_fields len off b (p + 1) bufptr hdrname res)
           else if char_at buf pos = CR \<or> char_at buf pos = LF
           then (case hdrname of
                   None \<Rightarrow> (buf, Some res)
                 | Some n \<Rightarrow>
                     (let b = buf[pos := NUL];
                          p = (if pos + 1 < len \<and> char_at b (pos + 1) = LF then pos + 2 else pos + 1)
                      in if p \<le> len
                         then if 2 * length (res_headers res) + 1 < UH_LIMIT_HEADERS
                              then cgi_fields len off b (p + 1) p None
                                     (cgi_store (cstr (drop n b)) (cstr (drop bufptr b)) res)
                              else (b, None)
                         else cgi_fields len off b (p + 1) bufptr hdrname res))
           else cgi_fields len off buf (pos + 1) bufptr hdrname res
      else (buf, Some res))"
  by pat_completeness auto
termination
  by (relation "measure (\<lambda>(len, off, buf, pos, bufptr, hdrname, res). off - pos)") auto

declare cgi_fields.simps [simp del]

definition cgi_head_end :: "string \<Rightarrow> nat \<Rightarrow> nat option" where
  "cgi_head_end buf len = (case strfind buf (int len) (CRLF @ CRLF) of
      Some k \<Rightarrow> Some (k + 4)
    | None \<Rightarrow> map_option (\<lambda>k. k + 2) (strfind buf (int len) [LF, LF]))"

text \<open>The buffer afterwards; the response with the offset of the body.\<close>

definition uh_cgi_header_parse :: "string \<Rightarrow> nat \<Rightarrow> string \<times> (http_response \<times> nat) option" where
  "uh_cgi_header_parse buf len = (case cgi_head_end buf len of
      None \<Rightarrow> (buf, None)
    | Some off \<Rightarrow> map_prod id (map_option (\<lambda>res. (res, off)))
        (cgi_fields len off buf 0 0 None \<lparr>res_statuscode = 200, res_statusmsg = ''OK'', res_headers = []\<rparr>))"

fun uh_cgi_header_lookup :: "(string \<times> string) list \<Rightarrow> string \<Rightarrow> string option" where
  "uh_cgi_header_lookup [] hdrname = None"
| "uh_cgi_header_lookup ((h, v) # hs) hdrname =
     (if strcaseeq h hdrname then Some v else uh_cgi_header_lookup hs hdrname)"

definition chunked_hdr :: "http_request \<Rightarrow> string" where
  "chunked_hdr req = (if version_gt_1_0 (req_version req) then ''Transfer-Encoding: chunked'' @ CRLF else [])"

definition uh_cgi_error_500 :: "http_request \<Rightarrow> string \<Rightarrow> int io" where
  "uh_cgi_error_500 req message =
     ensure_ret (uh_http_sendf None (''HTTP/'' @ fmt_version (req_version req) @ '' 500 Internal Server Error'' @ CRLF @
        ''Content-Type: text/plain'' @ CRLF @ chunked_hdr req @ CRLF))
       (uh_http_send (Some req) message)"

section \<open>The environment of a program\<close>

type_synonym env = "string \<Rightarrow> string option"

definition setenv :: "string \<Rightarrow> string \<Rightarrow> env \<Rightarrow> env" where
  "setenv n v e = e(n := Some v)"

text \<open>The variables that request headers are passed in.\<close>

definition cgi_header_vars :: "(string \<times> string) list" where
  "cgi_header_vars = [
     (''Accept'', ''HTTP_ACCEPT''), (''Accept-Charset'', ''HTTP_ACCEPT_CHARSET''),
     (''Accept-Encoding'', ''HTTP_ACCEPT_ENCODING''), (''Accept-Language'', ''HTTP_ACCEPT_LANGUAGE''),
     (''Authorization'', ''HTTP_AUTHORIZATION''), (''Connection'', ''HTTP_CONNECTION''),
     (''Cookie'', ''HTTP_COOKIE''), (''Host'', ''HTTP_HOST''), (''Referer'', ''HTTP_REFERER''),
     (''User-Agent'', ''HTTP_USER_AGENT''), (''Content-Type'', ''CONTENT_TYPE''),
     (''Content-Length'', ''CONTENT_LENGTH'')]"

fun cgi_header_var :: "(string \<times> string) list \<Rightarrow> string \<Rightarrow> string option" where
  "cgi_header_var [] h = None"
| "cgi_header_var ((name, var) # vs) h = (if strcaseeq h name then Some var else cgi_header_var vs h)"

fun cgi_header_env :: "(string \<times> string) list \<Rightarrow> env \<Rightarrow> env" where
  "cgi_header_env [] e = e"
| "cgi_header_env ((h, v) # hs) e =
     cgi_header_env hs (case cgi_header_var cgi_header_vars h of Some n \<Rightarrow> setenv n v e | None \<Rightarrow> e)"

fun method_name :: "http_method \<Rightarrow> string" where
  "method_name UH_HTTP_MSG_GET = ''GET''"
| "method_name UH_HTTP_MSG_HEAD = ''HEAD''"
| "method_name UH_HTTP_MSG_POST = ''POST''"

text \<open>\<open>straddr\<close> stands for \<open>sa_straddr\<close>, the text \<^verbatim>\<open>inet_ntop()\<close> gives for an address.\<close>

definition cgi_base_env :: "(sockaddr \<Rightarrow> string) \<Rightarrow> conn \<Rightarrow> http_request \<Rightarrow> path_info \<Rightarrow> env" where
  "cgi_base_env straddr cl req pi =
     (let e0 = setenv ''PATH'' ''/sbin:/usr/sbin:/bin:/usr/bin''
                (setenv ''SERVER_SOFTWARE'' ''uHTTPd'' (setenv ''GATEWAY_INTERFACE'' ''CGI/1.1'' (\<lambda>_. None)));
          e1 = (if cl_tls cl then setenv ''HTTPS'' ''on'' e0 else e0);
          e2 = setenv ''SERVER_PORT'' (sa_strport (servaddr cl)) (setenv ''SERVER_ADDR'' (straddr (servaddr cl))
                (setenv ''SERVER_NAME'' (straddr (servaddr cl)) e1));
          e3 = setenv ''REMOTE_PORT'' (sa_strport (peeraddr cl)) (setenv ''REMOTE_ADDR'' (straddr (peeraddr cl))
                (setenv ''REMOTE_HOST'' (straddr (peeraddr cl)) e2));
          e4 = setenv ''QUERY_STRING'' (case pi_query pi of Some q \<Rightarrow> q | None \<Rightarrow> [])
                (setenv ''DOCUMENT_ROOT'' (pi_root pi) (setenv ''SCRIPT_FILENAME'' (pi_phys pi)
                (setenv ''SCRIPT_NAME'' (pi_name pi) e3)));
          e5 = (case pi_info pi of Some i \<Rightarrow> setenv ''PATH_INFO'' i e4 | None \<Rightarrow> e4);
          e6 = setenv ''REDIRECT_STATUS'' (if redirect_status req = 404 then ''404'' else ''200'') e5;
          e7 = setenv ''SERVER_PROTOCOL'' (if version_gt_1_0 (req_version req) then ''HTTP/1.1'' else ''HTTP/1.0'') e6;
          e8 = setenv ''REQUEST_URI'' (req_url req) (setenv ''REQUEST_METHOD'' (method_name (req_method req)) e7)
      in case req_realm req of Some r \<Rightarrow> setenv ''REMOTE_USER'' (realm_user r) e8 | None \<Rightarrow> e8)"

definition cgi_env :: "(sockaddr \<Rightarrow> string) \<Rightarrow> conn \<Rightarrow> http_request \<Rightarrow> path_info \<Rightarrow> env" where
  "cgi_env straddr cl req pi = cgi_header_env (req_headers req) (cgi_base_env straddr cl req pi)"

text \<open>What the child does: replace itself by a program in a directory, or print a text.\<close>

datatype child_action = Exec string "string list" env string | Print string

definition cgi_child :: "(sockaddr \<Rightarrow> string) \<Rightarrow> conn \<Rightarrow> http_request \<Rightarrow> path_info \<Rightarrow> interpreter option \<Rightarrow> child_action" where
  "cgi_child straddr cl req pi ip =
     (if (has_mode (pi_stat pi) S_IFREG \<and> has_mode (pi_stat pi) S_IXOTH) \<or> ip \<noteq> None
      then let e = cgi_env straddr cl req pi
           in case ip of
                Some i \<Rightarrow> Exec (ipr_path i) [ipr_path i, pi_phys pi] e (pi_root pi)
              | None \<Rightarrow> Exec (pi_phys pi) [pi_phys pi] e (pi_root pi)
      else Print (''Status: 403 Forbidden'' @ CRLF @ CRLF @ ''Access to this resource is forbidden'' @ [LF]))"

section \<open>The relay loop\<close>

text \<open>
  A report of \<^verbatim>\<open>select()\<close>: an error; a timeout, and whether the child is still alive; or readiness,
  with the result of writing to the child where it can be written (\<open>Some False\<close>: the write fails)
  and the bytes it has printed where it can be read (none at its end).
\<close>

datatype cgi_event = SelError | SelTimeout bool | SelReady "bool option" "string option"

record cgi_state =
  content_length :: int
  header_sent :: bool
  hdr :: string
  child_in :: string
  stdin_open :: bool

definition cgi_init :: "http_request \<Rightarrow> cgi_state" where
  "cgi_init req = \<lparr>content_length =
       (if req_method req = UH_HTTP_MSG_POST
        then case uh_cgi_header_lookup (req_headers req) ''Content-Length'' of Some v \<Rightarrow> atoi v | None \<Rightarrow> 0
        else 0),
     header_sent = False, hdr = [], child_in = [], stdin_open = True\<rparr>"

text \<open>The part of a round that writes to the child; \<open>None\<close>: the routine is left.\<close>

definition cgi_feed :: "bool \<Rightarrow> cgi_state \<Rightarrow> cgi_state option io" where
  "cgi_feed wr st =
     (if content_length st > 0
      then do {
        (n, d) \<leftarrow> uh_tcp_recv (nat (min (content_length st) (int UH_LIMIT_MSGHEAD)));
        return (if n < 0 then None
                else if n > 0
                then Some (st\<lparr>child_in := (if wr then child_in st @ d else child_in st),
                              content_length := content_length st - n\<rparr>)
                else Some (st\<lparr>content_length := 0\<rparr>)) }
      else if content_length st > - 1 then return (Some (st\<lparr>stdin_open := False, content_length := - 1\<rparr>))
      else return (Some st))"

definition cgi_status :: "http_request \<Rightarrow> http_response \<Rightarrow> string" where
  "cgi_status req res = ''HTTP/'' @ fmt_version (req_version req) @ '' '' @ fmt_int03 (res_statuscode res) @ '' '' @
     res_statusmsg res @ CRLF @ ''Connection: close'' @ CRLF"

text \<open>The response to a complete head.\<close>

definition cgi_send_head :: "http_request \<Rightarrow> http_response \<Rightarrow> int io" where
  "cgi_send_head req res =
     ensure_ret (uh_http_sendf None (cgi_status req res))
    (ensure_ret (if uh_cgi_header_lookup (res_headers res) ''Location'' = None \<and>
                    uh_cgi_header_lookup (res_headers res) ''Content-Type'' = None
                 then uh_http_send None (''Content-Type: text/plain'' @ CRLF) else return 0)
    (ensure_ret (if version_gt_1_0 (req_version req) \<and>
                    uh_cgi_header_lookup (res_headers res) ''Transfer-Encoding'' = None
                 then uh_http_send None (''Transfer-Encoding: chunked'' @ CRLF) else return 0)
    (ensure_ret (send_each (\<lambda>(h, v). uh_http_sendf None (h @ '': '' @ v @ CRLF)) (res_headers res))
       (uh_http_send None CRLF))))"

text \<open>
  A block read from the child. The result is the new state and whether sending has failed.
\<close>

definition cgi_output :: "http_request \<Rightarrow> string \<Rightarrow> cgi_state \<Rightarrow> (int \<times> cgi_state) io" where
  "cgi_output req buf st =
     (if header_sent st
      then do { r \<leftarrow> uh_http_send (Some req) buf; return (r, st) }
      else let bufoff = min (length buf) (UH_LIMIT_MSGHEAD - length (hdr st));
               h = hdr st @ take bufoff buf;
               rest = (if bufoff < length buf then uh_http_send (Some req) (drop bufoff buf) else return 0)
           in case uh_cgi_header_parse h (length h) of
                (h', Some (res, off)) \<Rightarrow> do {
                  r \<leftarrow> ensure_ret (cgi_send_head req res)
                      (ensure_ret (if off < length h' then uh_http_send (Some req) (drop off h') else return 0) rest);
                  return (r, st\<lparr>hdr := h', header_sent := True\<rparr>) }
              | (h', None) \<Rightarrow>
                  if UH_LIMIT_MSGHEAD \<le> length h'
                  then do {
                    r \<leftarrow> ensure_ret (uh_cgi_error_500 req
                           (''The CGI program generated an invalid response:'' @ [LF, LF]))
                        (ensure_ret (uh_http_send (Some req) h') rest);
                    return (r, st\<lparr>hdr := h', header_sent := True\<rparr>) }
                  else return (0, st\<lparr>hdr := h'\<rparr>))"

text \<open>The end of the child's output.\<close>

definition cgi_eof :: "http_request \<Rightarrow> cgi_state \<Rightarrow> int io" where
  "cgi_eof req st =
     ensure_ret (if \<not> header_sent st
                 then ensure_ret (uh_http_sendf None (''HTTP/'' @ fmt_version (req_version req) @ '' 200 OK'' @ CRLF @
                        ''Content-Type: text/plain'' @ CRLF @ chunked_hdr req @ CRLF))
                        (uh_http_send (Some req) (hdr st))
                 else return 0)
       (uh_http_send (Some req) [])"

text \<open>
  One round of the loop; \<open>None\<close>: the loop is left. The branch of the source for a negative result
  of \<^verbatim>\<open>select_intr()\<close> is not reached, since \<^verbatim>\<open>ensure_out\<close> has left the loop before it.
\<close>

definition cgi_round :: "http_request \<Rightarrow> cgi_event \<Rightarrow> cgi_state \<Rightarrow> cgi_state option io" where
  "cgi_round req ev st = (case ev of
      SelError \<Rightarrow> return None
    | SelTimeout alive \<Rightarrow> return (if alive then Some st else None)
    | SelReady wr rd \<Rightarrow> do {
        fed \<leftarrow> (case wr of Some ok \<Rightarrow> cgi_feed ok st | None \<Rightarrow> return (Some st));
        case fed of
          None \<Rightarrow> return None
        | Some st1 \<Rightarrow>
            (case rd of
               None \<Rightarrow> return (Some st1)
             | Some buf \<Rightarrow>
                 if buf \<noteq> []
                 then do { (r, st2) \<leftarrow> cgi_output req buf st1; return (if r < 0 then None else Some st2) }
                 else do { _ \<leftarrow> cgi_eof req st1; return None }) })"

fun cgi_loop :: "http_request \<Rightarrow> cgi_event list \<Rightarrow> cgi_state \<Rightarrow> cgi_state option io" where
  "cgi_loop req [] st = return (Some st)"
| "cgi_loop req (ev # evs) st = do {
     r \<leftarrow> cgi_round req ev st;
     case r of None \<Rightarrow> return None | Some st' \<Rightarrow> cgi_loop req evs st' }"

text \<open>What the system calls answer: the text of an error of \<^verbatim>\<open>pipe()\<close> or \<^verbatim>\<open>fork()\<close>, or the reports.\<close>

datatype cgi_sys = PipeFails string | ForkFails string | Runs "cgi_event list"

text \<open>\<open>None\<close>: left; \<open>Some\<close>: still running when the reports are used up.\<close>

definition uh_cgi_request :: "cgi_sys \<Rightarrow> http_request \<Rightarrow> cgi_state option io" where
  "uh_cgi_request sys req = (case sys of
      PipeFails err \<Rightarrow> do {
        _ \<leftarrow> uh_http_sendhf 500 ''Internal Server Error'' (''Failed to create pipe: '' @ err); return None }
    | ForkFails err \<Rightarrow> do {
        _ \<leftarrow> uh_http_sendhf 500 ''Internal Server Error'' (''Failed to fork child: '' @ err); return None }
    | Runs evs \<Rightarrow> cgi_loop req evs (cgi_init req))"

section \<open>A printed head parses to itself\<close>

text \<open>
  A line of a head, with either of the two line ends a program may use, and what is left of it in
  the buffer. Values are not empty: the carriage return behind an empty one is read as the value.
\<close>

definition wf_cgi_field :: "string \<times> string \<Rightarrow> bool" where
  "wf_cgi_field f \<longleftrightarrow> fst f \<noteq> [] \<and> set (fst f) \<inter> {CHR '':'', CR, LF, NUL} = {} \<and>
     snd f \<noteq> [] \<and> set (snd f) \<inter> {CR, LF, NUL} = {}"

definition cgi_line :: "string \<Rightarrow> string \<times> string \<Rightarrow> string" where
  "cgi_line eol f = fst f @ '': '' @ snd f @ eol"

definition cgi_cut :: "string \<Rightarrow> string \<times> string \<Rightarrow> string" where
  "cgi_cut eol f = fst f @ [NUL, CHR '' ''] @ snd f @ NUL # tl eol"

abbreviation cgi_eol :: "string \<Rightarrow> bool" where
  "cgi_eol eol \<equiv> eol = CRLF \<or> eol = [LF]"

lemma cgi_skip:
  assumes "\<forall>c\<in>set w. c \<noteq> CR \<and> c \<noteq> LF \<and> (hdrname = None \<longrightarrow> c \<noteq> CHR '':'')" and "length P + length w \<le> off"
  shows "cgi_fields len off (P @ w @ R) (length P) bp hdrname res =
    cgi_fields len off (P @ w @ R) (length P + length w) bp hdrname res"
  using assms
proof (induction w arbitrary: P)
  case (Cons c w)
  have "cgi_fields len off (P @ (c # w) @ R) (length P) bp hdrname res =
      cgi_fields len off (P @ (c # w) @ R) (length P + 1) bp hdrname res"
    using Cons.prems by (subst cgi_fields.simps) (auto simp: char_at_append_0)
  also have "\<dots> = cgi_fields len off (P @ (c # w) @ R) (length P + length (c # w)) bp hdrname res"
    using Cons.IH [of "P @ [c]"] Cons.prems by simp
  finally show ?case .
qed simp

lemma cgi_skip_from:
  assumes "\<forall>c\<in>set w. c \<noteq> CR \<and> c \<noteq> LF \<and> (hdrname = None \<longrightarrow> c \<noteq> CHR '':'')" and "length P + length w \<le> off"
    and "i \<le> length w"
  shows "cgi_fields len off (P @ w @ R) (length P + i) bp hdrname res =
    cgi_fields len off (P @ w @ R) (length P + length w) bp hdrname res"
proof -
  have "\<forall>c\<in>set (drop i w). c \<noteq> CR \<and> c \<noteq> LF \<and> (hdrname = None \<longrightarrow> c \<noteq> CHR '':'')"
    using assms(1) by (meson in_set_dropD)
  moreover have "length (P @ take i w) + length (drop i w) \<le> off" using assms(2,3) by simp
  moreover have "(P @ take i w) @ drop i w @ R = P @ w @ R" by simp
  moreover have "length (P @ take i w) = length P + i" "length P + i + length (drop i w) = length P + length w"
    using assms(3) by simp_all
  ultimately show ?thesis using cgi_skip [of "drop i w" hdrname "P @ take i w" off len R bp res] by (simp only:)
qed

text \<open>Name and value of a line are passed; the next step is at the line end.\<close>

lemma cgi_fields_value:
  assumes f: "wf_cgi_field (n, v)" and len: "length P + length n + length v + 2 < off" "off \<le> len" and i: "i \<le> 1"
  shows "cgi_fields len off (P @ n @ '': '' @ v @ R) (length P + i) (length P) None res =
    cgi_fields len off (P @ n @ [NUL, CHR '' ''] @ v @ R) (length P + length n + 2 + length v) (length P + length n + 2)
      (Some (length P)) res"
proof -
  let ?cf = "cgi_fields len off" and ?i = "length P + length n"
  let ?b1 = "P @ n @ [NUL, CHR '' ''] @ v @ R"
  from f have n: "n \<noteq> []" "\<forall>c\<in>set n. c \<noteq> CR \<and> c \<noteq> LF \<and> c \<noteq> CHR '':''"
    and v: "v \<noteq> []" "\<forall>c\<in>set v. c \<noteq> CR \<and> c \<noteq> LF"
    by (auto simp: wf_cgi_field_def)
  have "i \<le> length n" using n(1) i by (cases n) auto
  then have "?cf (P @ n @ '': '' @ v @ R) (length P + i) (length P) None res =
      ?cf (P @ n @ '': '' @ v @ R) ?i (length P) None res"
    using n len by (intro cgi_skip_from) auto
  also have "\<dots> = ?cf ?b1 (?i + 3) (?i + 2) (Some (length P)) res"
    using len char_at_append [of "P @ n" "'': '' @ v @ R" 0]
    by (subst cgi_fields.simps)
      (auto simp: list_update_append nth_append numeral_eq_Suc Let_def)
  also have "\<dots> = ?cf ?b1 (?i + 2 + length v) (?i + 2) (Some (length P)) res"
    using cgi_skip_from [of v "Some (length P)" "P @ n @ [NUL, CHR '' '']" off 1 len R "?i + 2" res] v len
    by (cases v) (auto simp: numeral_eq_Suc)
  finally show ?thesis .
qed

text \<open>The line end: the strings are stored; a line feed behind it is skipped with it.\<close>

lemma cgi_fields_eol:
  assumes f: "wf_cgi_field (n, v)" and c: "c = CR \<or> c = LF"
    and q: "q = length P + length n + length v + 3 + (if R \<noteq> [] \<and> hd R = LF then 1 else 0)"
    and len: "length P + length n + length v + 2 < off" "q \<le> off" "off \<le> len" and R: "R \<noteq> []"
    and room: "2 * length (res_headers res) + 1 < UH_LIMIT_HEADERS"
  shows "cgi_fields len off (P @ n @ [NUL, CHR '' ''] @ v @ c # R) (length P + length n + 2 + length v)
      (length P + length n + 2) (Some (length P)) res =
    cgi_fields len off (P @ n @ [NUL, CHR '' ''] @ v @ NUL # R) (q + 1) q None (cgi_store n v res)"
proof -
  let ?i = "length P + length n"
  let ?pos = "?i + 2 + length v"
  let ?b1 = "P @ n @ [NUL, CHR '' ''] @ v @ c # R" and ?b2 = "P @ n @ [NUL, CHR '' ''] @ v @ NUL # R"
  from f have n: "NUL \<notin> set n" and v: "NUL \<notin> set v" by (auto simp: wf_cgi_field_def)
  have u: "?b1[?pos := NUL] = ?b2" by (simp add: list_update_append)
  have pos: "char_at ?b1 ?pos = c" by (simp add: nth_append)
  have nxt: "char_at ?b2 (?pos + 1) = hd R" using R by (cases R) (simp_all add: nth_append)
  have s: "cstr (drop (length P) ?b2) = n" "cstr (drop (?i + 2) ?b2) = v"
    using cstr_drop_append [of n P "'' '' @ v @ NUL # R"]
      cstr_drop_append [of v "P @ n @ [NUL, CHR '' '']" R] n v by auto
  have p: "(if ?pos + 1 < len \<and> char_at ?b2 (?pos + 1) = LF then ?pos + 2 else ?pos + 1) = q"
    unfolding nxt using q len R by auto
  have l: "?pos < off" "q \<le> len" using len by simp_all
  have nc: "(Some (length P) = None \<and> c = CHR '':'') = False" by simp
  show ?thesis
    by (subst cgi_fields.simps) (simp only: l pos nc c u Let_def p s room option.case if_True if_False simp_thms)
qed

text \<open>The effect of all fields of a head.\<close>

definition cgi_stored :: "(string \<times> string) list \<Rightarrow> http_response \<Rightarrow> http_response" where
  "cgi_stored fs res = foldl (\<lambda>r f. cgi_store (fst f) (snd f) r) res fs"

lemma length_cgi_cut: "cgi_eol eol \<Longrightarrow> length (cgi_cut eol f) = length (cgi_line eol f)"
  by (auto simp: cgi_cut_def cgi_line_def)

lemma length_cgi_store: "length (res_headers (cgi_store n v res)) \<le> Suc (length (res_headers res))"
  by (simp add: cgi_store_def)

lemma hd_cgi_lines: "list_all wf_cgi_field fs \<Longrightarrow> fs \<noteq> [] \<Longrightarrow> hd (concat (map (cgi_line eol) fs) @ R) \<noteq> LF"
proof (cases fs)
  case (Cons f gs)
  moreover assume "list_all wf_cgi_field fs"
  ultimately have "fst f \<noteq> []" "LF \<notin> set (fst f)" by (auto simp: wf_cgi_field_def)
  with Cons show ?thesis by (cases "fst f") (auto simp: cgi_line_def)
qed simp

text \<open>One line, which is not the last one or ends with both characters.\<close>

lemma cgi_fields_line:
  assumes f: "wf_cgi_field f" and e: "cgi_eol eol" and R: "R \<noteq> []" "eol = [LF] \<longrightarrow> hd R \<noteq> LF"
    and len: "length P + length (cgi_line eol f) < off" "off \<le> len" and i: "i \<le> 1"
    and room: "2 * length (res_headers res) + 1 < UH_LIMIT_HEADERS"
  shows "cgi_fields len off (P @ cgi_line eol f @ R) (length P + i) (length P) None res =
    cgi_fields len off (P @ cgi_cut eol f @ R) (length (P @ cgi_cut eol f) + 1) (length (P @ cgi_cut eol f)) None
      (cgi_store (fst f) (snd f) res)"
proof -
  obtain n v where nv: "f = (n, v)" by fastforce
  let ?q = "length P + length n + length v + 2 + length eol"
  have l: "length P + length n + length v + 2 < off" "?q \<le> off" using len e nv by (auto simp: cgi_line_def)
  have q: "?q = length P + length n + length v + 3 + (if tl eol @ R \<noteq> [] \<and> hd (tl eol @ R) = LF then 1 else 0)"
    using e R by auto
  have "cgi_fields len off (P @ cgi_line eol f @ R) (length P + i) (length P) None res =
      cgi_fields len off (P @ n @ [NUL, CHR '' ''] @ v @ hd eol # tl eol @ R) (length P + length n + 2 + length v)
        (length P + length n + 2) (Some (length P)) res"
    using cgi_fields_value [OF f [unfolded nv] l(1) len(2) i, of "eol @ R" res] e nv by (auto simp: cgi_line_def)
  also have "\<dots> = cgi_fields len off (P @ n @ [NUL, CHR '' ''] @ v @ NUL # tl eol @ R) (?q + 1) ?q None (cgi_store n v res)"
    using e R by (intro cgi_fields_eol [OF f [unfolded nv] _ q l len(2) _ room]) auto
  also have "?q = length (P @ cgi_cut eol f)" using e nv by (auto simp: cgi_cut_def)
  finally show ?thesis using nv by (simp add: cgi_cut_def)
qed

lemma cgi_fields_all:
  assumes "list_all wf_cgi_field fs" and "length (res_headers res) + length fs \<le> 32" and "i \<le> 1" and "fs \<noteq> []"
    and "cgi_eol eol" and "off = length P + length (concat (map (cgi_line eol) fs)) + length eol" and "off \<le> len"
  shows "cgi_fields len off (P @ concat (map (cgi_line eol) fs) @ eol @ body) (length P + i) (length P) None res =
    (P @ concat (map (cgi_cut eol) fs) @ eol @ body, Some (cgi_stored fs res))"
  using assms
proof (induction fs arbitrary: P res i)
  case (Cons f fs)
  let ?R = "concat (map (cgi_line eol) fs) @ eol @ body" and ?res = "cgi_store (fst f) (snd f) res"
  have e: "cgi_eol eol" and f: "wf_cgi_field f" and len: "off \<le> len" using Cons.prems by simp_all
  have room: "2 * length (res_headers res) + 1 < UH_LIMIT_HEADERS" using Cons.prems(2) by (simp add: UH_LIMIT_HEADERS_def)
  have R: "?R \<noteq> []" using e by auto
  have off: "off = length (P @ cgi_cut eol f) + length (concat (map (cgi_line eol) fs)) + length eol"
    using Cons.prems(6) length_cgi_cut [OF e, of f] by simp
  have pos: "0 < length eol" using e by auto
  show ?case
  proof (cases "fs = []")
    case False
    have hd: "eol = [LF] \<longrightarrow> hd ?R \<noteq> LF" using hd_cgi_lines [of fs eol "eol @ body"] Cons.prems(1) False unfolding list.pred_inject by blast
    have l: "length P + length (cgi_line eol f) < off" using Cons.prems(6) pos by simp
    have "cgi_fields len off (P @ cgi_line eol f @ ?R) (length P + i) (length P) None res =
        cgi_fields len off ((P @ cgi_cut eol f) @ ?R) (length (P @ cgi_cut eol f) + 1) (length (P @ cgi_cut eol f)) None ?res"
      using cgi_fields_line [OF f e R hd l len Cons.prems(3) room] by simp
    also have "\<dots> = ((P @ cgi_cut eol f) @ concat (map (cgi_cut eol) fs) @ eol @ body, Some (cgi_stored fs ?res))"
      using Cons.prems(1,2) length_cgi_store [of "fst f" "snd f" res] False e off len by (intro Cons.IH) auto
    finally show ?thesis by (simp add: cgi_stored_def)
  next
    case True
    show ?thesis
    proof (cases "eol = [LF]")
      case False
      then have crlf: "eol = CRLF" using e by simp
      have "cgi_fields len off (P @ cgi_line eol f @ ?R) (length P + i) (length P) None res =
          cgi_fields len off ((P @ cgi_cut eol f) @ ?R) (length (P @ cgi_cut eol f) + 1) (length (P @ cgi_cut eol f)) None ?res"
        using cgi_fields_line [OF f e R _ _ len Cons.prems(3) room, of P] Cons.prems(6) True False pos by simp
      also have "\<dots> = ((P @ cgi_cut eol f) @ CRLF @ body, Some ?res)"
        using off True crlf by (subst cgi_fields.simps) (auto simp: nth_append)
      finally show ?thesis using True crlf by (simp add: cgi_stored_def)
    next
      case lf: True
      obtain n v where nv: "f = (n, v)" by fastforce
      have l: "length P + length n + length v + 2 < off" "length P + length n + length v + 4 \<le> off" and o: "off = length P + length n + length v + 4"
        using Cons.prems(6) True lf nv by (simp_all add: cgi_line_def)
      have "cgi_fields len off (P @ cgi_line eol f @ ?R) (length P + i) (length P) None res =
          cgi_fields len off (P @ n @ [NUL, CHR '' ''] @ v @ LF # LF # body) (length P + length n + 2 + length v)
            (length P + length n + 2) (Some (length P)) res"
        using cgi_fields_value [OF f [unfolded nv] l(1) len Cons.prems(3), of "LF # LF # body" res] lf True nv
        by (simp add: cgi_line_def)
      also have "\<dots> = cgi_fields len off (P @ n @ [NUL, CHR '' ''] @ v @ NUL # LF # body) (off + 1) off None (cgi_store n v res)"
        by (intro cgi_fields_eol [OF f [unfolded nv] _ _ l(1) _ len _ room]) (simp_all add: o)
      also have "\<dots> = (P @ n @ [NUL, CHR '' ''] @ v @ NUL # LF # body, Some (cgi_store n v res))"
        by (subst cgi_fields.simps) simp
      finally show ?thesis using True lf nv by (simp add: cgi_stored_def cgi_cut_def)
    qed
  qed
qed simp

lemma strfind_cgi_head:
  assumes "list_all wf_cgi_field fs" and "fs \<noteq> []"
  shows "cgi_head_end (concat (map (cgi_line CRLF) fs) @ CRLF @ body) (length (concat (map (cgi_line CRLF) fs) @ CRLF @ body)) =
    Some (length (concat (map (cgi_line CRLF) fs)) + 2)"
proof -
  let ?ls = "map (\<lambda>f. fst f @ '': '' @ snd f) fs"
  have h: "concat (map (cgi_line CRLF) fs) @ CRLF = head_lines ?ls"
    by (simp add: head_lines_def cgi_line_def [abs_def] comp_def)
  have "list_all (\<lambda>l. l \<noteq> [] \<and> CR \<notin> set l) ?ls"
    using assms(1) by (induction fs) (auto simp: wf_cgi_field_def)
  moreover have ne: "?ls \<noteq> []" using assms(2) by simp
  ultimately have sf: "strfind (head_lines ?ls @ body) (int (length (head_lines ?ls @ body))) (CRLF @ CRLF) =
      Some (length (head_lines ?ls) - 4)" by (intro strfind_head_end) auto
  have len: "length (head_lines ?ls) = length (concat (map (cgi_line CRLF) fs)) + 2"
    using arg_cong [OF h, of length] by simp
  have "4 \<le> length (head_lines ?ls)" using head_end_occurs [OF ne] by blast
  then have "length (head_lines ?ls) - 4 + 4 = length (concat (map (cgi_line CRLF) fs)) + 2" using len by linarith
  then have "cgi_head_end (head_lines ?ls @ body) (length (head_lines ?ls @ body)) =
      Some (length (concat (map (cgi_line CRLF) fs)) + 2)"
    unfolding cgi_head_end_def sf option.case by (simp only:)
  moreover have "concat (map (cgi_line CRLF) fs) @ CRLF @ body = head_lines ?ls @ body"
    unfolding h [symmetric] by simp
  ultimately show ?thesis by (simp only:)
qed

text \<open>Two line feeds in a row do not occur before the end of a head with plain line feeds.\<close>

lemma lf_head_unique:
  assumes "list_all (\<lambda>l. l \<noteq> [] \<and> LF \<notin> set l) ls" and "occurs_at (concat (map (\<lambda>l. l @ [LF]) ls) @ LF # r) [LF, LF] j"
  shows "length (concat (map (\<lambda>l. l @ [LF]) ls)) \<le> Suc j"
  using assms
proof (induction ls arbitrary: j)
  case (Cons l ls)
  let ?t = "concat (map (\<lambda>l. l @ [LF]) ls) @ LF # r"
  have occ: "prefix [LF, LF] (drop j (l @ LF # ?t))" using Cons.prems(2) by (simp add: occurs_at_def)
  consider "j < length l" | "j = length l" | "length l < j" by linarith
  then show ?case
  proof cases
    case 1
    then have "drop j (l @ LF # ?t) = l ! j # drop (Suc j) (l @ LF # ?t)"
      by (subst Cons_nth_drop_Suc [symmetric]) (simp_all add: nth_append)
    then have "l ! j = LF" using occ by simp
    moreover have "l ! j \<in> set l" using 1 by simp
    ultimately show ?thesis using Cons.prems(1) by auto
  next
    case 2
    then have p: "prefix [LF] ?t" using occ by simp
    show ?thesis
    proof (cases ls)
      case (Cons l' ls')
      then obtain c w where "l' = c # w" "c \<noteq> LF" using Cons.prems(1) by (cases l') auto
      with p Cons show ?thesis by simp
    qed (use 2 in simp)
  next
    case 3
    define k where "k = j - length l - 1"
    with 3 have j: "j = length (l @ [LF]) + k" by simp
    have "drop j (l @ LF # ?t) = drop k ?t" unfolding j by simp
    with occ have "occurs_at ?t [LF, LF] k" by (simp add: occurs_at_def)
    with Cons.IH [of k] Cons.prems(1) j show ?thesis by simp
  qed
qed simp

lemma strfind_lf_head:
  assumes "list_all wf_cgi_field fs" and "fs \<noteq> []" and "buf = concat (map (cgi_line [LF]) fs) @ [LF] @ body"
    and "strfind buf (int (length buf)) (CRLF @ CRLF) = None"
  shows "cgi_head_end buf (length buf) = Some (length (concat (map (cgi_line [LF]) fs)) + 1)"
proof -
  let ?ls = "map (\<lambda>f. fst f @ '': '' @ snd f) fs"
  let ?t = "concat (map (\<lambda>l. l @ [LF]) ?ls)"
  have t: "concat (map (cgi_line [LF]) fs) = ?t" by (simp add: cgi_line_def [abs_def] comp_def)
  have ls: "list_all (\<lambda>l. l \<noteq> [] \<and> LF \<notin> set l) ?ls" using assms(1) by (induction fs) (auto simp: wf_cgi_field_def)
  obtain t' where t': "?t = t' @ [LF]" using assms(2) by (cases fs rule: rev_cases) auto
  have "strfind buf (int (length buf)) [LF, LF] = Some (length t')"
  proof (rule uh_search.find_first)
    show "occurs_at buf [LF, LF] (length t')" unfolding assms(3) t t' by (simp add: occurs_at_def)
    fix j assume "j < length t'"
    with lf_head_unique [OF ls, of body j] t' assms(3) t show "\<not> occurs_at buf [LF, LF] j" by auto
  qed simp
  then show ?thesis using assms(4) t t' by (simp add: cgi_head_end_def)
qed

lemma cgi_stored_headers:
  "res_headers (cgi_stored fs res) = res_headers res @ filter (\<lambda>f. \<not> strcaseeq (fst f) ''Status'') fs"
  by (induction fs arbitrary: res) (simp_all add: cgi_stored_def cgi_store_def)

lemma cgi_stored_none:
  "list_all (\<lambda>f. \<not> strcaseeq (fst f) ''Status'') fs \<Longrightarrow> res_statuscode (cgi_stored fs res) = res_statuscode res \<and>
     res_statusmsg (cgi_stored fs res) = res_statusmsg res"
  by (induction fs arbitrary: res) (simp_all add: cgi_stored_def cgi_store_def)

lemma cgi_stored_append: "cgi_stored (fs @ gs) res = cgi_stored gs (cgi_stored fs res)"
  by (simp add: cgi_stored_def)

lemma cgi_stored_status:
  assumes "filter (\<lambda>f. strcaseeq (fst f) ''Status'') fs = [(n, v)]"
  shows "res_statuscode (cgi_stored fs res) = (if atoi v < 100 then 200 else atoi v) \<and>
    res_statusmsg (cgi_stored fs res) = (case strchr v (CHR '' '') of Some k \<Rightarrow> drop (Suc k) v | None \<Rightarrow> res_statusmsg res)"
proof -
  from assms obtain us vs where fs: "fs = us @ (n, v) # vs" and st: "strcaseeq n ''Status''"
    and u: "\<forall>f\<in>set us. \<not> strcaseeq (fst f) ''Status''" and "filter (\<lambda>f. strcaseeq (fst f) ''Status'') vs = []"
    by (auto simp: filter_eq_Cons_iff)
  then have "list_all (\<lambda>f. \<not> strcaseeq (fst f) ''Status'') us" "list_all (\<lambda>f. \<not> strcaseeq (fst f) ''Status'') vs"
    by (auto simp: list_all_iff filter_empty_conv)
  moreover have "cgi_stored fs res = cgi_stored vs (cgi_store n v (cgi_stored us res))"
    unfolding fs cgi_stored_append by (simp add: cgi_stored_def)
  ultimately show ?thesis using st cgi_stored_none by (auto simp: cgi_store_def split: option.split)
qed

text \<open>
  C35: The head a program prints is understood, with either line end: for every list of one to 32
  fields whose names and values are not empty, and every body behind the empty line,
  \<open>uh_cgi_header_parse\<close> returns the fields in their order without \<^verbatim>\<open>Status\<close>, and the offset at
  which the unchanged body starts. Without a field \<^verbatim>\<open>Status\<close> the status is 200; a single such field
  gives the number at its start, or 200 if that is below 100, and the text behind its first
  blank as message. A head with plain line feeds is found only if two carriage returns with
  line feeds occur nowhere behind it, for they are looked for first.
\<close>
theorem uh_cgi_header_parse_roundtrip:
  assumes "list_all wf_cgi_field fs" and "fs \<noteq> []" and "length fs \<le> 32" and "cgi_eol eol"
    and "buf = concat (map (cgi_line eol) fs) @ eol @ body"
    and "eol = [LF] \<longrightarrow> strfind buf (int (length buf)) (CRLF @ CRLF) = None"
  shows "\<exists>buf' res off. uh_cgi_header_parse buf (length buf) = (buf', Some (res, off)) \<and> drop off buf' = body \<and>
    res_headers res = filter (\<lambda>f. \<not> strcaseeq (fst f) ''Status'') fs \<and>
    (case filter (\<lambda>f. strcaseeq (fst f) ''Status'') fs of
       [] \<Rightarrow> res_statuscode res = 200 \<and> res_statusmsg res = ''OK''
     | [(n, v)] \<Rightarrow> res_statuscode res = (if atoi v < 100 then 200 else atoi v) \<and>
         res_statusmsg res = (case strchr v (CHR '' '') of Some k \<Rightarrow> drop (Suc k) v | None \<Rightarrow> ''OK'')
     | _ \<Rightarrow> True)"
proof -
  let ?t = "concat (map (cgi_line eol) fs)" and ?r = "\<lparr>res_statuscode = 200, res_statusmsg = ''OK'', res_headers = []\<rparr>"
  let ?off = "length ?t + length eol" and ?b = "concat (map (cgi_cut eol) fs) @ eol @ body" and ?s = "cgi_stored fs"
  have "cgi_head_end buf (length buf) = Some ?off"
  proof (cases "eol = [LF]")
    case True
    have "buf = concat (map (cgi_line [LF]) fs) @ [LF] @ body" using assms(5) unfolding True .
    from strfind_lf_head [OF assms(1,2) this] True assms(6) show ?thesis by simp
  next
    case False
    with assms(4) have e: "eol = CRLF" by simp
    from strfind_cgi_head [OF assms(1,2), of body] show ?thesis unfolding assms(5) e by simp
  qed
  moreover have "cgi_fields (length buf) ?off buf 0 0 None ?r = (?b, Some (?s ?r))"
    using cgi_fields_all [OF assms(1), of ?r 0 eol ?off "[]" "length buf" body] assms(2-5) by simp
  ultimately have p: "uh_cgi_header_parse buf (length buf) = (?b, Some (?s ?r, ?off))" by (simp add: uh_cgi_header_parse_def)
  have "length (concat (map (cgi_cut eol) gs)) = length (concat (map (cgi_line eol) gs))" for gs
    using assms(4) by (induction gs) (auto simp: length_cgi_cut)
  then have d: "drop ?off ?b = body" by simp
  have "list_all (\<lambda>f. \<not> strcaseeq (fst f) ''Status'') fs" if "filter (\<lambda>f. strcaseeq (fst f) ''Status'') fs = []"
    using that by (auto simp: list_all_iff filter_empty_conv)
  then have "case filter (\<lambda>f. strcaseeq (fst f) ''Status'') fs of
       [] \<Rightarrow> res_statuscode (?s ?r) = 200 \<and> res_statusmsg (?s ?r) = ''OK''
     | [(n, v)] \<Rightarrow> res_statuscode (?s ?r) = (if atoi v < 100 then 200 else atoi v) \<and>
         res_statusmsg (?s ?r) = (case strchr v (CHR '' '') of Some k \<Rightarrow> drop (Suc k) v | None \<Rightarrow> ''OK'')
     | _ \<Rightarrow> True"
    using cgi_stored_none [of fs ?r] cgi_stored_status [of fs _ _ ?r] by (auto split: list.split option.split)
  moreover have "res_headers (?s ?r) = filter (\<lambda>f. \<not> strcaseeq (fst f) ''Status'') fs" by (simp add: cgi_stored_headers)
  ultimately show ?thesis using p d by blast
qed

theorem uh_cgi_header_parse_roundtrip_witness:
  "\<exists>buf' res off. uh_cgi_header_parse (''A: b'' @ [LF] @ ''Status: 404 Gone'' @ [LF, LF] @ ''xyz'') 26 = (buf', Some (res, off)) \<and>
     drop off buf' = ''xyz'' \<and> res_headers res = [(''A'', ''b'')] \<and> res_statuscode res = 404 \<and> res_statusmsg res = ''Gone''"
proof -
  let ?fs = "[(''A'', ''b''), (''Status'', ''404 Gone'')]" and ?b = "''A: b'' @ [LF] @ ''Status: 404 Gone'' @ [LF, LF] @ ''xyz''"
  have wf: "list_all wf_cgi_field ?fs" by (simp add: wf_cgi_field_def)
  have b: "?b = concat (map (cgi_line [LF]) ?fs) @ [LF] @ ''xyz''" by (simp add: cgi_line_def)
  have l: "length ?b = 26" by simp
  have n: "strfind ?b (int (length ?b)) (CRLF @ CRLF) = None" by code_simp
  have a: "atoi ''404 Gone'' = 404" by code_simp
  from uh_cgi_header_parse_roundtrip [OF wf _ _ _ b] n obtain buf' res off where
    "uh_cgi_header_parse ?b (length ?b) = (buf', Some (res, off))" "drop off buf' = ''xyz''" "res_headers res = [(''A'', ''b'')]"
    "res_statuscode res = 404" "res_statusmsg res = ''Gone''"
    by (auto simp: strcaseeq_def a)
  then show ?thesis unfolding l by blast
qed

text \<open>An empty value is read as the carriage return that ends its line.\<close>

lemma cgi_empty_value:
  "snd (uh_cgi_header_parse (''A: '' @ CRLF @ CRLF) 7) =
     Some (\<lparr>res_statuscode = 200, res_statusmsg = ''OK'', res_headers = [(''A'', [CR])]\<rparr>, 7)"
  by (simp add: uh_cgi_header_parse_def cgi_head_end_def strfind_def strfind_at.simps strfind_cmp.simps
      cgi_fields.simps cgi_store_def UH_LIMIT_HEADERS_def strcaseeq_def)

section \<open>Sending does not touch the input\<close>

definition keeps_input :: "'a io \<Rightarrow> bool" where
  "keeps_input m \<longleftrightarrow> (\<forall>c. rx (snd (run_state m c)) = rx c \<and> pending (snd (run_state m c)) = pending c)"

named_theorems keeps_intros "routines that do not read"

lemma keeps_inputD: "keeps_input m \<Longrightarrow> run_state m c = (r, c') \<Longrightarrow> rx c' = rx c \<and> pending c' = pending c"
  by (metis keeps_input_def snd_conv)

lemma keeps_return [keeps_intros]: "keeps_input (return r)"
  by (simp add: keeps_input_def)

lemma keeps_bind [keeps_intros]:
  "keeps_input m \<Longrightarrow> (\<And>x. keeps_input (k x)) \<Longrightarrow> keeps_input (State_Monad.bind m k)"
  by (simp add: keeps_input_def split: prod.splits) (metis snd_conv)

lemma keeps_if [keeps_intros]: "keeps_input m \<Longrightarrow> keeps_input k \<Longrightarrow> keeps_input (if b then m else k)"
  by simp

lemma keeps_ensure_ret [keeps_intros]:
  "keeps_input m \<Longrightarrow> keeps_input k \<Longrightarrow> keeps_input (ensure_ret m k)"
  unfolding ensure_ret_def by (rule keeps_bind, assumption, rule keeps_if, rule keeps_return)

lemma keeps_tcp_send [keeps_intros]: "keeps_input (uh_tcp_send buf)"
  by (simp add: keeps_input_def uh_tcp_send_def uh_tls_client_send_def sys_send_def pending_def
      split: list.splits tx_event.splits)

lemma keeps_ub [keeps_intros]: "keeps_input ub"
  by (simp add: keeps_input_def ub_def pending_def)

lemma keeps_printf_send [keeps_intros]: "(\<And>m. keeps_input (send m)) \<Longrightarrow> keeps_input (uh_printf_send n msg send)"
  by (simp add: uh_printf_send_def keeps_ub)

lemma keeps_senders [keeps_intros]:
  "keeps_input (uh_http_sendc data)" "keeps_input (uh_http_send req data)" "keeps_input (uh_http_sendf req data)"
proof -
  show c: "keeps_input (uh_http_sendc data)" for data
    unfolding uh_http_sendc_def by (intro keeps_intros)
  show "keeps_input (uh_http_send req data)" "keeps_input (uh_http_sendf req data)"
    unfolding uh_http_send_def uh_http_sendf_def by (intro keeps_intros c)+
qed

lemma keeps_send_each [keeps_intros]: "(\<And>x. keeps_input (f x)) \<Longrightarrow> keeps_input (send_each f xs)"
  by (induction xs) (auto intro: keeps_intros)

lemma keeps_cgi_send_head: "keeps_input (cgi_send_head req res)"
proof -
  have f: "keeps_input (case x of (h, v) \<Rightarrow> uh_http_sendf None (h @ '': '' @ v @ CRLF))" for x
    by (cases x) (simp add: keeps_senders)
  show ?thesis unfolding cgi_send_head_def by (intro keeps_intros f)
qed

lemma keeps_cgi_output: "keeps_input (cgi_output req buf st)"
proof (cases "header_sent st")
  case True
  then show ?thesis unfolding cgi_output_def by (simp only: if_True) (intro keeps_intros)
next
  case False
  let ?h = "hdr st @ take (min (length buf) (UH_LIMIT_MSGHEAD - length (hdr st))) buf"
  show ?thesis
  proof (cases "uh_cgi_header_parse ?h (length ?h)")
    case (Pair h' r)
    show ?thesis
    proof (cases r)
      case None
      show ?thesis
        unfolding cgi_output_def Let_def Pair None prod.case option.case uh_cgi_error_500_def
        using False by (simp only: if_False) (intro keeps_intros)
    next
      case (Some ro)
      then obtain res off where r: "r = Some (res, off)" by (cases ro) auto
      show ?thesis
        unfolding cgi_output_def Let_def Pair r prod.case option.case
        using False by (simp only: if_False) (intro keeps_intros keeps_cgi_send_head)
    qed
  qed
qed

lemma keeps_cgi_eof: "keeps_input (cgi_eof req st)"
  unfolding cgi_eof_def by (intro keeps_intros)

section \<open>The relay\<close>

text \<open>All writes to the child succeed.\<close>

definition writes_ok :: "cgi_event list \<Rightarrow> bool" where
  "writes_ok evs = list_all (\<lambda>ev. case ev of SelReady (Some ok) rd \<Rightarrow> ok | _ \<Rightarrow> True) evs"

text \<open>
  What a read needs to deliver something: no event is an empty block, which stands for the end of
  the input before its end.
\<close>

definition no_empty :: "conn \<Rightarrow> bool" where
  "no_empty c \<longleftrightarrow> RxData [] \<notin> set (rx c)"

lemma sys_recv_no_empty:
  assumes "run_state (sys_recv len) c = ((n, d), c')" and "no_empty c" and "0 < len"
  shows "no_empty c' \<and> (n = 0 \<longrightarrow> rx c = [])"
  using assms by (auto simp: sys_recv_def no_empty_def split: list.splits rx_event.splits if_splits)

lemma select_read_no_empty:
  "run_state select_read c = (b, c') \<Longrightarrow> no_empty c \<Longrightarrow> no_empty c' \<and> (rx c' = [] \<longrightarrow> rx_bytes (rx c) = [])"
  by (auto simp: select_read_def no_empty_def split: list.splits rx_event.splits)

lemma tls_recv_no_empty:
  assumes "run_state (uh_tls_client_recv len) c = ((n, d), c')" and "no_empty c" and "0 < len"
  shows "no_empty c' \<and> n \<noteq> 0"
proof -
  obtain m e c1 where "run_state (sys_recv len) c = ((m, e), c1)" by (metis prod.exhaust)
  with sys_recv_no_empty [OF this assms(2,3)] assms(1) show ?thesis
    by (auto simp: uh_tls_client_recv_def split: if_splits)
qed

text \<open>A read that returns nothing is at the end of the input.\<close>

lemma uh_tcp_recv_no_empty:
  assumes "run_state (uh_tcp_recv len) c = ((n, d), c')" and "no_empty c" and "0 < len"
  shows "no_empty c' \<and> (n = 0 \<longrightarrow> pending c = [])"
proof (cases "len \<le> length (peekbuf c)")
  case True
  with assms show ?thesis by (auto simp: uh_tcp_recv_peeked no_empty_def)
next
  case False
  let ?c0 = "c\<lparr>peekbuf := []\<rparr>" and ?l = "len - length (peekbuf c)"
  obtain b c1 where sel: "run_state select_read ?c0 = (b, c1)" by fastforce
  have c1: "no_empty c1" "rx c1 = [] \<longrightarrow> rx_bytes (rx c) = []"
    using select_read_no_empty [OF sel] assms(2) by (simp_all add: no_empty_def)
  obtain m e c2 where r: "run_state (if cl_tls c then uh_tls_client_recv ?l else sys_recv ?l) c1 = ((m, e), c2)"
    by (metis prod.exhaust)
  have l: "0 < ?l" using False by simp
  have c2: "no_empty c2" "m = 0 \<longrightarrow> rx c1 = []"
    using r sys_recv_no_empty [OF _ c1(1) l] tls_recv_no_empty [OF _ c1(1) l] by (auto split: if_splits)
  from assms(1) False sel r have "c' = (if b then c2 else c1)" "n = 0 \<longrightarrow> peekbuf c = [] \<and> b \<and> m = 0"
    by (auto simp: uh_tcp_recv_def Let_def split: if_splits)
  with c1 c2 show ?thesis by (auto simp: pending_def)
qed

definition writable :: "cgi_event \<Rightarrow> bool" where
  "writable ev = (case ev of SelReady (Some ok) rd \<Rightarrow> True | _ \<Rightarrow> False)"

text \<open>
  The relay invariant after \<open>k\<close> reports that the program can be written to: what the child was
  given, followed by what the client's connection still holds, is what the connection held at the
  start; the child was given at most the announced number of bytes, and while more are expected
  exactly those that are accounted for. Each such report brings the announced body at least one
  byte nearer to its end, and the child that is to get no more (\<open>g\<close>: no block is empty) has got
  all of the announced body that there is.
\<close>

definition relay_inv :: "bool \<Rightarrow> int \<Rightarrow> string \<Rightarrow> nat \<Rightarrow> cgi_state \<Rightarrow> conn \<Rightarrow> bool" where
  "relay_inv g cl inp k st c \<longleftrightarrow> child_in st @ pending c = inp \<and> int (length (child_in st)) \<le> max 0 cl \<and>
     (0 < content_length st \<longrightarrow> int (length (child_in st)) = cl - content_length st) \<and>
     (stdin_open st \<or> content_length st = - 1) \<and>
     (stdin_open st \<and> 0 \<le> cl \<longrightarrow> 0 \<le> content_length st \<and> content_length st + int k \<le> cl) \<and>
     (g \<longrightarrow> no_empty c \<and> (content_length st \<le> 0 \<longrightarrow> child_in st = take (nat cl) inp))"

lemma relay_feed:
  assumes "run_state (cgi_feed True st) c = (Some st', c')" and "relay_inv g cl inp k st c"
  shows "relay_inv g cl inp (Suc k) st' c'"
proof (cases "0 < content_length st")
  case False
  with assms show ?thesis by (auto simp: cgi_feed_def relay_inv_def split: if_splits)
next
  case True
  let ?len = "nat (min (content_length st) (int UH_LIMIT_MSGHEAD))"
  have pos: "0 < ?len" using True by (simp add: UH_LIMIT_MSGHEAD_def)
  obtain n d c1 where r: "run_state (uh_tcp_recv ?len) c = ((n, d), c1)" by (metis prod.exhaust)
  with uh_tcp_recv_moves [OF r] assms(1) True have m: "read_moves ?len c n d c1" "c' = c1" "0 \<le> n"
    and st': "st' = (if n > 0 then st\<lparr>child_in := child_in st @ d, content_length := content_length st - n\<rparr>
      else st\<lparr>content_length := 0\<rparr>)"
    by (auto simp: cgi_feed_def split: if_splits)
  from m have d: "n = int (length d)" "length d \<le> ?len" "pending c = d @ pending c1"
    by (auto simp: read_moves_def)
  have e: "no_empty c1 \<and> (n = 0 \<longrightarrow> pending c = [])" if g using uh_tcp_recv_no_empty [OF r _ pos] assms(2) that
    by (simp add: relay_inv_def)
  from assms(2) True have i: "child_in st @ pending c = inp" "int (length (child_in st)) = cl - content_length st"
    "stdin_open st \<and> 0 \<le> cl \<longrightarrow> content_length st + int k \<le> cl" "stdin_open st"
    by (auto simp: relay_inv_def)
  show ?thesis
  proof (cases "n > 0")
    case True
    have "child_in st @ d = take (nat cl) inp" if "content_length st - n \<le> 0"
    proof -
      have "int (length d) = content_length st" using d(1,2) that True \<open>0 < content_length st\<close> by linarith
      then have "nat cl = length (child_in st @ d)" using i(2) by simp
      then show ?thesis unfolding i(1) [symmetric] d(3) by simp
    qed
    moreover have "0 \<le> cl \<longrightarrow> content_length st - n + int (Suc k) \<le> cl" using True i(3,4) by auto
    ultimately show ?thesis using True m(2) st' d e i \<open>0 < content_length st\<close> unfolding relay_inv_def by auto
  next
    case False
    have "child_in st = take (nat cl) inp" if "pending c = []" using i that \<open>0 < content_length st\<close> by auto
    with False m st' d e i \<open>0 < content_length st\<close> show ?thesis unfolding relay_inv_def by auto
  qed
qed

lemma cgi_output_input_state:
  "run_state (cgi_output req buf st) c = ((r, st'), c') \<Longrightarrow>
     child_in st' = child_in st \<and> content_length st' = content_length st \<and> stdin_open st' = stdin_open st"
  by (auto simp: cgi_output_def Let_def split: if_splits prod.splits option.splits)

lemma relay_round:
  assumes "run_state (cgi_round req ev st) c = (Some st', c')" and "relay_inv g cl inp k st c" and "writes_ok [ev]"
  shows "relay_inv g cl inp (if writable ev then Suc k else k) st' c'"
proof (cases ev)
  case (SelReady wr rd)
  let ?k = "if writable ev then Suc k else k"
  obtain fed c1 where f: "run_state (case wr of Some ok \<Rightarrow> cgi_feed ok st | None \<Rightarrow> return (Some st)) c = (fed, c1)"
    by (metis prod.exhaust)
  from assms(1) SelReady f obtain st1 where st1: "fed = Some st1"
    by (cases fed) (auto simp: cgi_round_def)
  have i1: "relay_inv g cl inp ?k st1 c1"
    using f st1 assms(2,3) SelReady relay_feed by (cases wr) (auto simp: writes_ok_def writable_def)
  show ?thesis
  proof (cases rd)
    case None
    with assms(1) SelReady f st1 i1 show ?thesis by (auto simp: cgi_round_def)
  next
    case (Some buf)
    obtain r st2 c2 where o: "run_state (cgi_output req buf st1) c1 = ((r, st2), c2)" by (metis prod.exhaust)
    from assms(1) SelReady f st1 Some o have "st' = st2" "c' = c2"
      by (auto simp: cgi_round_def split: if_splits prod.splits)
    with i1 keeps_inputD [OF keeps_cgi_output o] cgi_output_input_state [OF o] show ?thesis
      by (simp add: relay_inv_def no_empty_def)
  qed
qed (use assms in \<open>auto simp: cgi_round_def writable_def split: if_splits\<close>)

lemma relay_loop:
  assumes "run_state (cgi_loop req evs st) c = (Some st', c')" and "relay_inv g cl inp k st c" and "writes_ok evs"
  shows "relay_inv g cl inp (k + length (filter writable evs)) st' c'"
  using assms
proof (induction evs arbitrary: st c k)
  case (Cons ev evs)
  obtain r c1 where r: "run_state (cgi_round req ev st) c = (r, c1)" by fastforce
  with Cons.prems(1) obtain st1 where st1: "r = Some st1" by (cases r) auto
  from Cons.prems(3) have w: "writes_ok [ev]" "writes_ok evs" by (auto simp: writes_ok_def)
  have "run_state (cgi_loop req evs st1) c1 = (Some st', c')" using Cons.prems(1) r st1 by simp
  from Cons.IH [OF this relay_round [OF r [unfolded st1] Cons.prems(2) w(1)] w(2)] show ?case
    by (simp split: if_splits)
qed simp

lemma relay_init: "(g \<longrightarrow> no_empty c) \<Longrightarrow> relay_inv g (content_length (cgi_init req)) (pending c) 0 (cgi_init req) c"
  by (auto simp: relay_inv_def cgi_init_def)

text \<open>
  C14: The request body reaches the program unchanged, in order and complete. As long as writes to
  the program succeed, at every point of the relay loop, for every sequence of reports of
  \<^verbatim>\<open>select()\<close>: the bytes given to the program followed by the bytes still to be read from the client
  are the bytes that were there when the head had been read; the program is never given more than
  the announced \<^verbatim>\<open>Content-Length\<close>; while more is expected the count is exact; once the input of the
  program is closed, the program has got the announced number of bytes, or all there were (unless
  the client's input ends early, by an empty block); and after as many reports that the program can
  be written to as bytes were announced, and one more, its input is closed.
\<close>
theorem uh_cgi_request_relays_body:
  assumes "run_state (uh_cgi_request (Runs evs) req) c = (Some st, c')" and "writes_ok evs"
    and "cl = content_length (cgi_init req)"
  shows "child_in st @ pending c' = pending c \<and>
    int (length (child_in st)) \<le> max 0 cl \<and>
    (0 < content_length st \<longrightarrow> int (length (child_in st)) = cl - content_length st) \<and>
    (no_empty c \<and> \<not> stdin_open st \<longrightarrow> child_in st = take (nat cl) (pending c)) \<and>
    (0 \<le> cl \<and> cl < int (length (filter writable evs)) \<longrightarrow> \<not> stdin_open st)"
proof -
  have "relay_inv (no_empty c) cl (pending c) (length (filter writable evs)) st c'"
    using relay_loop [of req evs "cgi_init req" c st c' "no_empty c" cl "pending c" 0] relay_init [of "no_empty c" c req] assms
    by (simp add: uh_cgi_request_def)
  then show ?thesis unfolding relay_inv_def by auto
qed

definition demo_post :: http_request where
  "demo_post = demo_req\<lparr>req_method := UH_HTTP_MSG_POST, req_headers := [(''Content-Length'', ''4'')]\<rparr>"

theorem uh_cgi_request_relays_body_witness:
  "\<exists>st c'. run_state (uh_cgi_request (Runs [SelReady (Some True) None, SelReady (Some True) None, SelReady (Some True) None])
      demo_post) (demo_conn [RxData ''ab'', RxData ''cdef''] []) = (Some st, c') \<and>
    child_in st @ pending c' = ''abcdef'' \<and> length (child_in st) \<le> 4"
proof -
  let ?evs = "[SelReady (Some True) None, SelReady (Some True) None, SelReady (Some True) None]"
  let ?c = "demo_conn [RxData ''ab'', RxData ''cdef''] []"
  have i: "content_length (cgi_init demo_post) = 4"
    by (simp add: cgi_init_def demo_post_def demo_req_def atoi_def strtol10_def ctype_defs)
  have "\<exists>st c'. run_state (uh_cgi_request (Runs ?evs) demo_post) ?c = (Some st, c')"
    by (simp add: uh_cgi_request_def cgi_round_def cgi_feed_def i uh_tcp_recv_def demo_conn_def select_read_def
        sys_recv_def UH_LIMIT_MSGHEAD_def Let_def)
  then obtain st c' where r: "run_state (uh_cgi_request (Runs ?evs) demo_post) ?c = (Some st, c')" by blast
  have "pending ?c = ''abcdef''" by (simp add: demo_conn_def pending_def)
  with uh_cgi_request_relays_body [OF r] r i show ?thesis by (simp add: writes_ok_def)
qed

text \<open>A timeout of \<^verbatim>\<open>select()\<close> leaves the loop where it was as long as the child process exists.\<close>

lemma cgi_timeouts_ignored:
  "run_state (cgi_loop req (replicate n (SelTimeout True) @ evs) st) c = run_state (cgi_loop req evs st) c"
  by (induction n) (simp_all add: cgi_round_def)

subsection \<open>Delivery\<close>

text \<open>A connection on which every event is data, and a report without output of the program.\<close>

fun rx_some :: "rx_event \<Rightarrow> bool" where
  "rx_some (RxData d) = (d \<noteq> [])"
| "rx_some RxTimeout = False"
| "rx_some RxErr = False"

definition rx_live :: "conn \<Rightarrow> bool" where
  "rx_live c = list_all rx_some (rx c)"

definition quiet :: "cgi_event \<Rightarrow> bool" where
  "quiet ev = (case ev of SelError \<Rightarrow> False | SelTimeout alive \<Rightarrow> alive | SelReady wr rd \<Rightarrow> wr \<noteq> Some False \<and> rd = None)"

lemma live_no_empty: "rx_live c \<Longrightarrow> no_empty c"
  by (auto simp: rx_live_def no_empty_def list_all_iff)

lemma sys_recv_live:
  assumes "run_state (sys_recv len) c = ((n, d), c')" and "rx_live c" and "0 < len"
  shows "rx_live c' \<and> (rx c \<noteq> [] \<longrightarrow> 0 < n)"
  using assms by (auto simp: sys_recv_def rx_live_def split: list.splits rx_event.splits if_splits)

lemma tls_recv_live:
  assumes "run_state (uh_tls_client_recv len) c = ((n, d), c')" and "rx_live c" and "0 < len"
  shows "rx_live c' \<and> (rx c \<noteq> [] \<longrightarrow> 0 < n)"
proof -
  obtain m e c1 where "run_state (sys_recv len) c = ((m, e), c1)" by (metis prod.exhaust)
  with sys_recv_live [OF this assms(2,3)] assms(1) show ?thesis
    by (auto simp: uh_tls_client_recv_def split: if_splits)
qed

lemma uh_tcp_recv_live:
  assumes "run_state (uh_tcp_recv len) c = ((n, d), c')" and "rx_live c" and "0 < len" and "pending c \<noteq> []"
  shows "rx_live c' \<and> 0 < n"
proof (cases "len \<le> length (peekbuf c)")
  case True
  with assms show ?thesis by (auto simp: uh_tcp_recv_peeked rx_live_def)
next
  case False
  let ?c0 = "c\<lparr>peekbuf := []\<rparr>" and ?l = "len - length (peekbuf c)"
  have l: "0 < ?l" using False by simp
  have c0: "rx_live ?c0" and sel: "run_state select_read ?c0 = (True, ?c0)" using assms(2)
    by (auto simp: rx_live_def select_read_def split: list.splits rx_event.splits)
  obtain m e c2 where r: "run_state (if cl_tls c then uh_tls_client_recv ?l else sys_recv ?l) ?c0 = ((m, e), c2)"
    by (metis prod.exhaust)
  have c2: "rx_live c2" "rx c \<noteq> [] \<longrightarrow> 0 < m"
    using r sys_recv_live [OF _ c0 l] tls_recv_live [OF _ c0 l] by (auto split: if_splits)
  from assms(1) False sel r have "c' = c2" "n = (if peekbuf c = [] \<or> 0 < m then int (length (peekbuf c)) + m else int (length (peekbuf c)))"
    by (auto simp: uh_tcp_recv_def Let_def split: if_splits)
  moreover have "rx c \<noteq> []" if "peekbuf c = []" using assms(4) that by (auto simp: pending_def)
  ultimately show ?thesis using c2 by auto
qed

lemma relay_round_quiet:
  assumes "relay_inv True cl inp k st c" and "rx_live c" and "quiet ev" and "cl \<le> int (length inp)"
  shows "\<exists>st' c'. run_state (cgi_round req ev st) c = (Some st', c') \<and> rx_live c'"
proof (cases "writable ev \<and> 0 < content_length st")
  case False
  with assms(2,3) show ?thesis
    by (auto simp: quiet_def writable_def cgi_round_def cgi_feed_def split: cgi_event.splits option.splits)
next
  case True
  let ?len = "nat (min (content_length st) (int UH_LIMIT_MSGHEAD))"
  have pos: "0 < ?len" using True by (simp add: UH_LIMIT_MSGHEAD_def)
  from assms(3) True have ev: "ev = SelReady (Some True) None"
    by (auto simp: quiet_def writable_def split: cgi_event.splits option.splits)
  have "pending c \<noteq> []" using assms(1,4) True by (auto simp: relay_inv_def)
  moreover obtain n d c1 where r: "run_state (uh_tcp_recv ?len) c = ((n, d), c1)" by (metis prod.exhaust)
  ultimately have "rx_live c1" "0 < n" using uh_tcp_recv_live [OF r assms(2) pos] by simp_all
  with r True show ?thesis by (simp add: ev cgi_round_def cgi_feed_def)
qed

lemma relay_loop_quiet:
  assumes "relay_inv True cl inp k st c" and "rx_live c" and "list_all quiet evs" and "cl \<le> int (length inp)"
  shows "\<exists>st' c'. run_state (cgi_loop req evs st) c = (Some st', c')"
  using assms
proof (induction evs arbitrary: st c k)
  case (Cons ev evs)
  from relay_round_quiet [OF Cons.prems(1,2) _ Cons.prems(4), of ev req] Cons.prems(3)
  obtain st1 c1 where r: "run_state (cgi_round req ev st) c = (Some st1, c1)" "rx_live c1" by auto
  have "writes_ok [ev]" using Cons.prems(3) by (auto simp: quiet_def writes_ok_def split: cgi_event.splits option.splits)
  from Cons.IH [OF relay_round [OF r(1) Cons.prems(1) this] r(2) _ Cons.prems(4)] Cons.prems(3) r(1) show ?case by simp
qed simp

text \<open>
  C36: A body that arrives is delivered. If the client sends at least the announced number of bytes,
  in blocks of any size, plain or through TLS, and the program takes its input and prints nothing
  while it does, then the loop is not left, however the reports of \<^verbatim>\<open>select()\<close> mix readiness and
  timeouts: after more reports that the program can be written to than bytes were announced, the
  program has exactly the announced bytes, its input is closed, and what the client sent behind
  them is still unread.
\<close>
theorem uh_cgi_request_delivers:
  assumes "rx_live c" and "content_length (cgi_init req) = int n" and "n \<le> length (pending c)"
    and "list_all quiet evs" and "n < length (filter writable evs)"
  shows "\<exists>st c'. run_state (uh_cgi_request (Runs evs) req) c = (Some st, c') \<and> child_in st = take n (pending c) \<and>
    \<not> stdin_open st \<and> pending c' = drop n (pending c)"
proof -
  have i: "relay_inv True (int n) (pending c) 0 (cgi_init req) c"
    using relay_init [of True c req] live_no_empty [OF assms(1)] assms(2) by simp
  from relay_loop_quiet [OF i assms(1,4), of req] assms(3) obtain st c' where
    r: "run_state (cgi_loop req evs (cgi_init req)) c = (Some st, c')" by auto
  have "writes_ok evs" using assms(4) unfolding writes_ok_def
    by (rule list.pred_mono_strong) (auto simp: quiet_def split: cgi_event.splits option.splits)
  from relay_loop [OF r i this] assms(5) have "\<not> stdin_open st" "child_in st = take n (pending c)"
    "child_in st @ pending c' = pending c" by (auto simp: relay_inv_def)
  moreover from this have "pending c' = drop n (pending c)" by (metis append_take_drop_id same_append_eq)
  ultimately show ?thesis using r by (simp add: uh_cgi_request_def)
qed

theorem uh_cgi_request_delivers_witness:
  "\<exists>st c'. run_state (uh_cgi_request (Runs (SelTimeout True # replicate 5 (SelReady (Some True) None))) demo_post)
      (demo_conn [RxData ''ab'', RxData ''cdef''] []) = (Some st, c') \<and>
    child_in st = ''abcd'' \<and> \<not> stdin_open st \<and> pending c' = ''ef''"
proof -
  let ?evs = "SelTimeout True # replicate 5 (SelReady (Some True) None)" and ?c = "demo_conn [RxData ''ab'', RxData ''cdef''] []"
  have "pending ?c = ''abcdef''" by (simp add: demo_conn_def pending_def)
  moreover have "content_length (cgi_init demo_post) = int 4"
    by (simp add: cgi_init_def demo_post_def demo_req_def atoi_def strtol10_def ctype_defs)
  ultimately show ?thesis using uh_cgi_request_delivers [of ?c demo_post 4 ?evs]
    by (simp add: rx_live_def demo_conn_def quiet_def writable_def numeral_eq_Suc)
qed

lemma cgi_header_var_Some:
  "cgi_header_var vs h = Some n \<Longrightarrow> \<exists>name. (name, n) \<in> set vs \<and> strcaseeq h name"
  by (induction vs) (auto split: if_splits)

lemma cgi_header_env_cases:
  "cgi_header_env hs e n = e n \<or>
   (\<exists>h v name. (h, v) \<in> set hs \<and> (name, n) \<in> set cgi_header_vars \<and> strcaseeq h name \<and> cgi_header_env hs e n = Some v)"
proof (induction hs arbitrary: e)
  case (Cons hv hs)
  obtain h v where hv: "hv = (h, v)" by fastforce
  let ?e = "case cgi_header_var cgi_header_vars h of Some m \<Rightarrow> setenv m v e | None \<Rightarrow> e"
  from Cons.IH [of ?e] consider "cgi_header_env hs ?e n = ?e n" | "\<exists>h v name. (h, v) \<in> set hs \<and>
      (name, n) \<in> set cgi_header_vars \<and> strcaseeq h name \<and> cgi_header_env hs ?e n = Some v" by blast
  then show ?case
  proof cases
    case 1
    show ?thesis
    proof (cases "cgi_header_var cgi_header_vars h = Some n")
      case True
      with 1 cgi_header_var_Some [OF True] hv show ?thesis by (auto simp: setenv_def)
    next
      case False
      with 1 hv show ?thesis by (auto simp: setenv_def split: option.splits)
    qed
  next
    case 2
    then show ?thesis unfolding hv by (auto simp del: cgi_header_env.simps simp: cgi_header_env.simps(2))
  qed
qed simp

text \<open>
  C20: A client cannot forge the variables the server sets. Whatever headers the request has, the
  program sees the resolved file as \<^verbatim>\<open>SCRIPT_FILENAME\<close>, the user that passed the access check as
  \<^verbatim>\<open>REMOTE_USER\<close> (and no such variable when there was no check), and every variable that is not one
  of the twelve header variables has the value the server gave it; a header variable holds the
  value of a request header of its name.
\<close>
theorem cgi_env_not_forged:
  "cgi_env straddr cl req pi ''SCRIPT_FILENAME'' = Some (pi_phys pi) \<and>
   cgi_env straddr cl req pi ''REMOTE_USER'' = map_option realm_user (req_realm req) \<and>
   (\<forall>n. n \<notin> snd ` set cgi_header_vars \<longrightarrow> cgi_env straddr cl req pi n = cgi_base_env straddr cl req pi n) \<and>
   (\<forall>n v. (cgi_env straddr cl req pi n = Some v \<and> n \<in> snd ` set cgi_header_vars) \<longrightarrow>
      (\<exists>h name. (h, v) \<in> set (req_headers req) \<and> (name, n) \<in> set cgi_header_vars \<and> strcaseeq h name))"
proof -
  have "list_all (\<lambda>(h, n). cgi_base_env straddr cl req pi n = None) cgi_header_vars"
    by (cases "pi_info pi"; cases "req_realm req"; simp add: cgi_header_vars_def cgi_base_env_def Let_def setenv_def)
  then have base: "cgi_base_env straddr cl req pi n = None" if "n \<in> snd ` set cgi_header_vars" for n
    using that unfolding list_all_iff by (metis (mono_tags, lifting) case_prodD imageE prod.collapse)
  have out: "cgi_env straddr cl req pi n = cgi_base_env straddr cl req pi n" if "n \<notin> snd ` set cgi_header_vars" for n
    using cgi_header_env_cases [of "req_headers req" "cgi_base_env straddr cl req pi" n] that
    unfolding cgi_env_def by (metis image_eqI snd_conv)
  have f: "cgi_base_env straddr cl req pi ''SCRIPT_FILENAME'' = Some (pi_phys pi)"
    "cgi_base_env straddr cl req pi ''REMOTE_USER'' = map_option realm_user (req_realm req)"
    by (cases "pi_info pi"; cases "req_realm req"; simp add: cgi_base_env_def Let_def setenv_def)+
  have n: "''SCRIPT_FILENAME'' \<notin> snd ` set cgi_header_vars" "''REMOTE_USER'' \<notin> snd ` set cgi_header_vars"
    by (simp_all add: cgi_header_vars_def)
  have ex: "\<exists>h name. (h, v) \<in> set (req_headers req) \<and> (name, n) \<in> set cgi_header_vars \<and> strcaseeq h name"
    if "cgi_env straddr cl req pi n = Some v" "n \<in> snd ` set cgi_header_vars" for n v
  proof -
    have ne: "cgi_header_env (req_headers req) (cgi_base_env straddr cl req pi) n \<noteq> cgi_base_env straddr cl req pi n"
      using base [OF that(2)] that(1) by (simp add: cgi_env_def)
    with cgi_header_env_cases [of "req_headers req" "cgi_base_env straddr cl req pi" n] obtain h v' name where
      "(h, v') \<in> set (req_headers req)" "(name, n) \<in> set cgi_header_vars" "strcaseeq h name"
      "cgi_header_env (req_headers req) (cgi_base_env straddr cl req pi) n = Some v'" by blast
    with that(1) show ?thesis unfolding cgi_env_def by (metis option.inject)
  qed
  show ?thesis
  proof (intro conjI allI impI)
    show "cgi_env straddr cl req pi ''SCRIPT_FILENAME'' = Some (pi_phys pi)" using out [OF n(1)] f(1) by simp
    show "cgi_env straddr cl req pi ''REMOTE_USER'' = map_option realm_user (req_realm req)" using out [OF n(2)] f(2) by simp
    fix n v assume "cgi_env straddr cl req pi n = Some v \<and> n \<in> snd ` set cgi_header_vars"
    then show "\<exists>h name. (h, v) \<in> set (req_headers req) \<and> (name, n) \<in> set cgi_header_vars \<and> strcaseeq h name"
      by (elim conjE) (rule ex)
  qed (rule out)
qed

theorem cgi_env_not_forged_witness:
  "cgi_env (\<lambda>a. ''127.0.0.1'') (demo_conn [] []) (demo_req\<lparr>req_headers := [(''REMOTE_USER'', ''root'')]\<rparr>) demo_file ''REMOTE_USER'' = None \<and>
   cgi_env (\<lambda>a. ''127.0.0.1'') (demo_conn [] []) (demo_req\<lparr>req_headers := [(''REMOTE_USER'', ''root'')]\<rparr>) demo_file ''SERVER_NAME'' =
     Some ''127.0.0.1''"
proof -
  let ?r = "demo_req\<lparr>req_headers := [(''REMOTE_USER'', ''root'')]\<rparr>"
  have "''SERVER_NAME'' \<notin> snd ` set cgi_header_vars" by (simp add: cgi_header_vars_def)
  with cgi_env_not_forged [of "\<lambda>a. ''127.0.0.1''" "demo_conn [] []" ?r demo_file]
  have "cgi_env (\<lambda>a. ''127.0.0.1'') (demo_conn [] []) ?r demo_file ''SERVER_NAME'' =
      cgi_base_env (\<lambda>a. ''127.0.0.1'') (demo_conn [] []) ?r demo_file ''SERVER_NAME''"
    "cgi_env (\<lambda>a. ''127.0.0.1'') (demo_conn [] []) ?r demo_file ''REMOTE_USER'' = map_option realm_user (req_realm ?r)"
    by blast+
  then show ?thesis by (simp add: cgi_base_env_def Let_def setenv_def demo_req_def demo_file_def demo_path_def)
qed

end
