(* ===== verification/Uh_Lua.thy ===== *)
theory Uh_Lua
  imports Uh_Cgi
begin

text \<open>
  The embedded Lua handler (\<^verbatim>\<open>uhttpd-lua.c\<close>): the functions it offers to scripts, the table it
  describes a request with, and the loop that relays between the client and the child process
  that runs the script. The Lua interpreter is a parameter: what loading and calling the handler
  report, and the list of what the calls of \<^verbatim>\<open>select()\<close> in the parent report.
\<close>

section \<open>The functions offered to scripts\<close>

text \<open>What the child's standard input offers: nothing in time, or the result of a \<^verbatim>\<open>read()\<close>.\<close>

datatype stdin_event = StdinTimeout | StdinRead int string

definition uh_lua_recv :: "nat \<Rightarrow> stdin_event \<Rightarrow> int \<times> string option" where
  "uh_lua_recv len ev =
     (if 0 < len \<and> len \<le> UH_LIMIT_MSGHEAD
      then case ev of
          StdinRead rlen buffer \<Rightarrow> (rlen, if rlen > 0 then Some (take (nat rlen) buffer) else None)
        | StdinTimeout \<Rightarrow> (- 2, None)
      else (- 3, None))"

text \<open>The blocks handed to \<^verbatim>\<open>write()\<close>, and the number the script gets; \<open>write\<close> is what the calls return.\<close>

definition uh_lua_send_common :: "(string \<Rightarrow> int) \<Rightarrow> bool \<Rightarrow> string \<Rightarrow> int \<times> string list" where
  "uh_lua_send_common write chunked buffer =
     (let bs = (if chunked
                then if buffer \<noteq> [] then [take 15 (fmt_HEX (length buffer) @ CRLF), buffer, CRLF]
                     else [''0'' @ CRLF @ CRLF]
                else [buffer])
      in (sum_list (map write bs), bs))"

definition uh_lua_send :: "(string \<Rightarrow> int) \<Rightarrow> string \<Rightarrow> int \<times> string list" where
  "uh_lua_send write = uh_lua_send_common write False"

definition uh_lua_sendc :: "(string \<Rightarrow> int) \<Rightarrow> string \<Rightarrow> int \<times> string list" where
  "uh_lua_sendc write = uh_lua_send_common write True"

text \<open>The argument may hold any bytes; behind its last one Lua keeps a terminator.\<close>

definition uh_lua_urldecode :: "string \<Rightarrow> string cres" where
  "uh_lua_urldecode inbuf =
     (let out = uh_urldecode UH_LIMIT_MSGHEAD inbuf (length inbuf)
      in if length out \<le> UH_LIMIT_MSGHEAD then Val out else UB)"

section \<open>Loading the handler\<close>

datatype lua_status = LUA_OK | LUA_ERRSYNTAX | LUA_ERRMEM | LUA_ERRFILE | LUA_ERRRUN

definition UH_LUA_CALLBACK :: string where
  "UH_LUA_CALLBACK = ''handle_request''"

text \<open>
  The status of \<^verbatim>\<open>luaL_loadfile()\<close>, the status and the error text of the first \<^verbatim>\<open>lua_pcall()\<close>, and
  whether the callback is a function then. The result is the message the server exits with, or
  the interpreter state.
\<close>

definition uh_lua_init :: "lua_status \<Rightarrow> lua_status \<times> string \<Rightarrow> bool \<Rightarrow> string + unit" where
  "uh_lua_init load call isfun = (case load of
      LUA_ERRSYNTAX \<Rightarrow> Inl (''Lua handler contains syntax errors, unable to continue'' @ [LF])
    | LUA_ERRMEM \<Rightarrow> Inl (''Lua handler ran out of memory, unable to continue'' @ [LF])
    | LUA_ERRFILE \<Rightarrow> Inl (''Lua cannot open the handler script, unable to continue'' @ [LF])
    | _ \<Rightarrow> (case call of
        (LUA_ERRRUN, err) \<Rightarrow> Inl (''Lua handler had runtime error, unable to continue'' @ [LF] @ ''Error: '' @ err @ [LF])
      | (LUA_ERRMEM, err) \<Rightarrow> Inl (''Lua handler ran out of memory, unable to continue'' @ [LF] @ ''Error: '' @ err @ [LF])
      | _ \<Rightarrow> if isfun then Inr ()
             else Inl (''Lua handler provides no '' @ UH_LUA_CALLBACK @ ''(), unable to continue'' @ [LF])))"

section \<open>The request table\<close>

datatype lua_value = LStr string | LNum int | LVersion http_version | LTable "(string \<times> lua_value) list"

text \<open>Assigning a field of a table replaces the value it had.\<close>

definition setfield :: "string \<Rightarrow> lua_value \<Rightarrow> (string \<times> lua_value) list \<Rightarrow> (string \<times> lua_value) list" where
  "setfield k v t = (k, v) # filter (\<lambda>e. fst e \<noteq> k) t"

definition lua_path_env :: "string \<Rightarrow> string \<Rightarrow> (string \<times> lua_value) list \<Rightarrow> (string \<times> lua_value) list" where
  "lua_path_env pfx url t = (case strchr url (CHR ''?'') of
      Some q \<Rightarrow>
        (let t1 = setfield ''QUERY_STRING'' (LStr (drop (q + 1) url)) t
         in if q > length pfx
            then setfield ''PATH_INFO'' (LStr (take (q - length pfx) (drop (length pfx) url))) t1
            else t1)
    | None \<Rightarrow> if length url > length pfx
              then setfield ''PATH_INFO'' (LStr (drop (length pfx) url)) t
              else t)"

fun lua_essential_env :: "(string \<times> string) list \<Rightarrow> (string \<times> lua_value) list \<Rightarrow> (string \<times> lua_value) list" where
  "lua_essential_env [] t = t"
| "lua_essential_env ((h, v) # hs) t = lua_essential_env hs
     (if strcaseeq h ''Content-Length'' then setfield ''CONTENT_LENGTH'' (LNum (atoi v)) t
      else if strcaseeq h ''Content-Type'' then setfield ''CONTENT_TYPE'' (LStr v) t
      else t)"

fun lua_header_env :: "(string \<times> string) list \<Rightarrow> (string \<times> lua_value) list \<Rightarrow> (string \<times> lua_value) list" where
  "lua_header_env [] t = t"
| "lua_header_env ((h, v) # hs) t = lua_header_env hs
     (if \<not> strcaseeq h ''Content-Length'' \<and> \<not> strcaseeq h ''Content-Type'' then setfield h (LStr v) t else t)"

definition lua_env :: "(sockaddr \<Rightarrow> string) \<Rightarrow> string \<Rightarrow> conn \<Rightarrow> http_request \<Rightarrow> (string \<times> lua_value) list" where
  "lua_env straddr pfx cl req =
     (let t1 = setfield ''SCRIPT_NAME'' (LStr pfx) (setfield ''REQUEST_URI'' (LStr (req_url req))
                (setfield ''REQUEST_METHOD'' (LStr (method_name (req_method req))) []));
          t2 = lua_path_env pfx (req_url req) t1;
          t3 = setfield ''SERVER_PROTOCOL'' (LStr (if version_gt_1_0 (req_version req) then ''HTTP/1.1'' else ''HTTP/1.0''))
                (setfield ''HTTP_VERSION'' (LVersion (req_version req)) t2);
          t4 = setfield ''REMOTE_PORT'' (LNum (int (sa_port (peeraddr cl)))) (setfield ''REMOTE_ADDR'' (LStr (straddr (peeraddr cl))) t3);
          t5 = setfield ''SERVER_PORT'' (LNum (int (sa_port (servaddr cl)))) (setfield ''SERVER_ADDR'' (LStr (straddr (servaddr cl))) t4)
      in setfield ''headers'' (LTable (lua_header_env (req_headers req) [])) (lua_essential_env (req_headers req) t5))"

text \<open>What the child prints when the handler fails; \<open>31\<close> is the length of the text around the message.\<close>

definition lua_child_error :: "http_request \<Rightarrow> string option \<Rightarrow> string" where
  "lua_child_error req err =
     (let e = (case err of Some s \<Rightarrow> s | None \<Rightarrow> ''Unknown error'') in
      ''HTTP/'' @ fmt_version (req_version req) @ '' 500 Internal Server Error'' @ CRLF @
      ''Connection: close'' @ CRLF @ ''Content-Type: text/plain'' @ CRLF @
      ''Content-Length: '' @ fmt_dec (31 + length e) @ CRLF @ CRLF @
      ''Lua raised a runtime error:'' @ [LF] @ ''  '' @ e @ [LF])"

section \<open>The relay loop\<close>

text \<open>
  A report of \<^verbatim>\<open>select()\<close>: a timeout or an error, with whether \<^verbatim>\<open>errno\<close> is \<^verbatim>\<open>EINTR\<close> then (a timeout
  leaves the value of an earlier call there); or readiness, as in the CGI loop.
\<close>

datatype lua_event = LuaFail bool | LuaReady "bool option" "string option"

record lua_relay =
  l_length :: int
  data_sent :: bool
  l_child_in :: string
  l_stdin_open :: bool

fun lua_content_length :: "(string \<times> string) list \<Rightarrow> int" where
  "lua_content_length [] = 0"
| "lua_content_length ((h, v) # hs) = (if strcaseeq h ''Content-Length'' then atoi v else lua_content_length hs)"

definition lua_relay_init :: "http_request \<Rightarrow> lua_relay" where
  "lua_relay_init req = \<lparr>l_length =
       (if req_method req = UH_HTTP_MSG_POST then lua_content_length (req_headers req) else 0),
     data_sent = False, l_child_in = [], l_stdin_open = True\<rparr>"

definition lua_feed :: "bool \<Rightarrow> lua_relay \<Rightarrow> lua_relay io" where
  "lua_feed wr st =
     (if l_length st > 0
      then do {
        (n, d) \<leftarrow> uh_tcp_recv (nat (min (l_length st) (int UH_LIMIT_MSGHEAD)));
        return (if n > 0
                then st\<lparr>l_child_in := (if wr then l_child_in st @ d else l_child_in st), l_length := l_length st - n\<rparr>
                else st\<lparr>l_length := 0\<rparr>) }
      else if l_length st > - 1 then return (st\<lparr>l_stdin_open := False, l_length := - 1\<rparr>)
      else return st)"

definition lua_no_response :: string where
  "lua_no_response = ''The Lua child did not produce any response''"

definition lua_too_long :: string where
  "lua_too_long = ''The Lua script took too long to produce a response''"

definition lua_round :: "lua_event \<Rightarrow> lua_relay \<Rightarrow> lua_relay option io" where
  "lua_round ev st = (case ev of
      LuaFail eintr \<Rightarrow> do {
        _ \<leftarrow> (if \<not> eintr \<and> \<not> data_sent st then uh_http_sendhf 504 ''Gateway Timeout'' lua_too_long else return 0);
        return None }
    | LuaReady wr rd \<Rightarrow> do {
        st1 \<leftarrow> (case wr of Some ok \<Rightarrow> lua_feed ok st | None \<Rightarrow> return st);
        case rd of
          None \<Rightarrow> return (Some st1)
        | Some buf \<Rightarrow>
            if buf \<noteq> []
            then do { r \<leftarrow> uh_tcp_send buf; return (if r < 0 then None else Some (st1\<lparr>data_sent := True\<rparr>)) }
            else do {
              _ \<leftarrow> (if \<not> data_sent st1 then uh_http_sendhf 500 ''Internal Server Error'' lua_no_response else return 0);
              return None } })"

fun lua_loop :: "lua_event list \<Rightarrow> lua_relay \<Rightarrow> lua_relay option io" where
  "lua_loop [] st = return (Some st)"
| "lua_loop (ev # evs) st = do {
     r \<leftarrow> lua_round ev st;
     case r of None \<Rightarrow> return None | Some st' \<Rightarrow> lua_loop evs st' }"

datatype lua_sys = LuaPipeFails string | LuaForkFails string | LuaRuns "lua_event list"

text \<open>\<open>None\<close>: left; \<open>Some\<close>: still running when the reports are used up.\<close>

definition uh_lua_request :: "lua_sys \<Rightarrow> http_request \<Rightarrow> lua_relay option io" where
  "uh_lua_request sys req = (case sys of
      LuaPipeFails err \<Rightarrow> do {
        _ \<leftarrow> uh_http_sendhf 500 ''Internal Server Error'' (''Failed to create pipe: '' @ err); return None }
    | LuaForkFails err \<Rightarrow> do {
        _ \<leftarrow> uh_http_sendhf 500 ''Internal Server Error'' (''Failed to fork child: '' @ err); return None }
    | LuaRuns evs \<Rightarrow> lua_loop evs (lua_relay_init req))"

section \<open>What the client receives\<close>

text \<open>The bytes read from the child in a list of reports, and the end of a run.\<close>

definition lua_read_out :: "lua_event list \<Rightarrow> string" where
  "lua_read_out evs = concat (map (\<lambda>ev. case ev of LuaReady wr (Some buf) \<Rightarrow> buf | _ \<Rightarrow> []) evs)"

definition lua_continues :: "lua_event \<Rightarrow> bool" where
  "lua_continues ev \<longleftrightarrow> (case ev of LuaReady wr rd \<Rightarrow> rd \<noteq> Some [] | LuaFail e \<Rightarrow> False)"

definition sendhf_text :: "int \<Rightarrow> string \<Rightarrow> string \<Rightarrow> string" where
  "sendhf_text code summary msg = sendhf_head code summary @ chunk_text msg @ last_chunk"

text \<open>What the last report of a run makes the parent add, given what was read before.\<close>

definition lua_final :: "lua_event \<Rightarrow> string \<Rightarrow> string" where
  "lua_final ev printed = (if printed \<noteq> [] then [] else case ev of
      LuaFail eintr \<Rightarrow> if eintr then [] else sendhf_text 504 ''Gateway Timeout'' lua_too_long
    | LuaReady wr rd \<Rightarrow> sendhf_text 500 ''Internal Server Error'' lua_no_response)"

lemma emits_sendhf_text:
  assumes "0 \<le> code" "code < 1000" and "length summary \<le> 1000" and "length msg < 4096" and "msg \<noteq> []"
  shows "emits (uh_http_sendhf code summary msg) (sendhf_text code summary msg)"
proof -
  have "length (sendhf_head code summary) < UH_LIMIT_MSGHEAD"
    using length_sendhf_head [OF assms(1,2), of summary] assms(3) by (simp add: UH_LIMIT_MSGHEAD_def)
  with emits_sendhf [of code summary msg] assms show ?thesis
    by (simp add: sendhf_text_def chunk_text_def UH_LIMIT_MSGHEAD_def)
qed

lemma lua_feed_frame:
  assumes "run_state (lua_feed wr st) c = (st', c')"
  shows "rx_frame c c' \<and> data_sent st' = data_sent st"
proof (cases "l_length st > 0")
  case True
  obtain n d c1 where r: "run_state (uh_tcp_recv (nat (min (l_length st) (int UH_LIMIT_MSGHEAD)))) c = ((n, d), c1)"
    by (metis prod.exhaust)
  from uh_tcp_recv_moves [OF r] have "rx_frame c c1" by (simp add: read_moves_def)
  with assms True r show ?thesis by (auto simp: lua_feed_def split: if_splits)
next
  case False
  with assms show ?thesis by (auto simp: lua_feed_def rx_frame_def split: if_splits)
qed

lemma rx_frame_reliable: "rx_frame c c' \<Longrightarrow> reliable c' = reliable c \<and> tx c' = tx c"
  by (simp add: rx_frame_def reliable_def)

lemma lua_ready_feed:
  assumes "run_state (case wr of Some ok \<Rightarrow> lua_feed ok st | None \<Rightarrow> return st) c = (st', c')"
  shows "reliable c' = reliable c \<and> tx c' = tx c \<and> data_sent st' = data_sent st"
  using assms by (cases wr) (auto dest: lua_feed_frame rx_frame_reliable)

text \<open>A round that goes on passes on what the child printed.\<close>

lemma lua_round_continues:
  assumes "lua_continues ev" and "reliable c"
  shows "\<exists>st' c'. run_state (lua_round ev st) c = (Some st', c') \<and> reliable c' \<and>
    tx c' = tx c @ lua_read_out [ev] \<and> (data_sent st' \<longleftrightarrow> data_sent st \<or> lua_read_out [ev] \<noteq> [])"
proof (cases ev)
  case (LuaReady wr rd)
  obtain st1 c1 where f: "run_state (case wr of Some ok \<Rightarrow> lua_feed ok st | None \<Rightarrow> return st) c = (st1, c1)"
    by (metis prod.exhaust)
  from lua_ready_feed [OF f] assms(2) have c1: "reliable c1" "tx c1 = tx c" "data_sent st1 = data_sent st" by auto
  show ?thesis
  proof (cases rd)
    case None
    with f c1 LuaReady show ?thesis by (auto simp: lua_round_def lua_read_out_def)
  next
    case (Some buf)
    with assms(1) LuaReady have "buf \<noteq> []" by (auto simp: lua_continues_def)
    moreover from emitsE [OF emits_tcp_send c1(1), of buf] obtain r where
      "run_state (uh_tcp_send buf) c1 = (r, c1\<lparr>tx := tx c1 @ buf\<rparr>)" "0 \<le> r" by blast
    ultimately show ?thesis using f c1 LuaReady Some by (auto simp: lua_round_def lua_read_out_def reliable_def)
  qed
qed (use assms in \<open>simp add: lua_continues_def\<close>)

lemma lua_round_ends:
  assumes "\<not> lua_continues ev" and "reliable c" and "data_sent st \<longleftrightarrow> printed \<noteq> []"
  shows "\<exists>c'. run_state (lua_round ev st) c = (None, c') \<and> tx c' = tx c @ lua_final ev printed"
proof (cases ev)
  case (LuaFail eintr)
  have "emits (uh_http_sendhf 504 ''Gateway Timeout'' lua_too_long) (sendhf_text 504 ''Gateway Timeout'' lua_too_long)"
    by (rule emits_sendhf_text) (simp_all add: lua_too_long_def)
  from emitsE [OF this assms(2)] obtain r where
    "run_state (uh_http_sendhf 504 ''Gateway Timeout'' lua_too_long) c =
      (r, c\<lparr>tx := tx c @ sendhf_text 504 ''Gateway Timeout'' lua_too_long\<rparr>)" by blast
  with LuaFail assms(3) show ?thesis by (simp add: lua_round_def lua_final_def)
next
  case (LuaReady wr rd)
  with assms(1) have rd: "rd = Some []" by (auto simp: lua_continues_def)
  obtain st1 c1 where f: "run_state (case wr of Some ok \<Rightarrow> lua_feed ok st | None \<Rightarrow> return st) c = (st1, c1)"
    by (metis prod.exhaust)
  from lua_ready_feed [OF f] assms(2) have c1: "reliable c1" "tx c1 = tx c" "data_sent st1 = data_sent st" by auto
  have "emits (uh_http_sendhf 500 ''Internal Server Error'' lua_no_response)
      (sendhf_text 500 ''Internal Server Error'' lua_no_response)"
    by (rule emits_sendhf_text) (simp_all add: lua_no_response_def)
  from emitsE [OF this c1(1)] obtain r where
    r: "run_state (uh_http_sendhf 500 ''Internal Server Error'' lua_no_response) c1 =
      (r, c1\<lparr>tx := tx c1 @ sendhf_text 500 ''Internal Server Error'' lua_no_response\<rparr>)" by blast
  show ?thesis
  proof (cases "printed = []")
    case True
    with assms(3) c1(3) have "\<not> data_sent st1" by simp
    with LuaReady rd f r c1(2) True show ?thesis by (simp add: lua_round_def lua_final_def)
  next
    case False
    with assms(3) c1(3) have "data_sent st1" by simp
    with LuaReady rd f c1(2) False show ?thesis by (simp add: lua_round_def lua_final_def)
  qed
qed

lemma lua_read_out_append [simp]: "lua_read_out (a @ b) = lua_read_out a @ lua_read_out b"
  by (simp add: lua_read_out_def)

lemma lua_loop_relays:
  assumes "list_all lua_continues evs" and "\<not> lua_continues ev" and "reliable c"
    and "data_sent st \<longleftrightarrow> before \<noteq> []"
  shows "\<exists>c'. run_state (lua_loop (evs @ ev # rest) st) c = (None, c') \<and>
    tx c' = tx c @ lua_read_out evs @ lua_final ev (before @ lua_read_out evs)"
  using assms
proof (induction evs arbitrary: st c before)
  case Nil
  from lua_round_ends [OF Nil(2-4)] show ?case by (auto simp: lua_read_out_def)
next
  case (Cons e evs)
  from Cons.prems(1) have e: "lua_continues e" and es: "list_all lua_continues evs" by simp_all
  from lua_round_continues [OF e Cons.prems(3), of st] obtain st' c' where
    r: "run_state (lua_round e st) c = (Some st', c')" and c': "reliable c'" "tx c' = tx c @ lua_read_out [e]"
    and d: "data_sent st' \<longleftrightarrow> data_sent st \<or> lua_read_out [e] \<noteq> []" by blast
  from d Cons.prems(4) have "data_sent st' \<longleftrightarrow> before @ lua_read_out [e] \<noteq> []" by auto
  from Cons.IH [OF es Cons.prems(2) c'(1) this] r c'(2) show ?case
    using lua_read_out_append [of "[e]" evs] by auto
qed

text \<open>
  C15: The client of a Lua request receives exactly the bytes the parent has read from the script,
  in their order, whatever the order in which the reads from the script, the writes to it and the
  reads from the client become possible and however many reads from the client fail. The loop is
  left by the first report that is the end of the script's output, or a failure or a timeout of
  \<^verbatim>\<open>select()\<close>; output the script prints later is lost. If bytes have been read until then, nothing is
  added. If none have been, the client gets one complete response: 500 at the end of the output,
  504 after a failure or a timeout; but nothing at all after a failure or a timeout while \<^verbatim>\<open>errno\<close>
  holds \<^verbatim>\<open>EINTR\<close>, which for a timeout is a value an earlier call has left there.
\<close>
theorem uh_lua_request_relays:
  assumes "list_all lua_continues evs" and "\<not> lua_continues ev" and "reliable c"
  shows "\<exists>c'. run_state (uh_lua_request (LuaRuns (evs @ ev # rest)) req) c = (None, c') \<and>
    tx c' = tx c @ lua_read_out evs @ lua_final ev (lua_read_out evs)"
  using lua_loop_relays [OF assms, of "lua_relay_init req" "[]" rest]
  by (simp add: uh_lua_request_def lua_relay_init_def)

theorem uh_lua_request_relays_witness:
  "\<exists>c'. run_state (uh_lua_request (LuaRuns [LuaReady (Some True) (Some ''ab''), LuaReady None (Some ''c''), LuaFail False])
      demo_req) (demo_conn [] []) = (None, c') \<and> tx c' = ''abc''"
proof -
  let ?e = "[LuaReady (Some True) (Some ''ab''), LuaReady None (Some ''c'')]"
  have "list_all lua_continues ?e" "\<not> lua_continues (LuaFail False)" "reliable (demo_conn [] [])"
    by (simp_all add: lua_continues_def reliable_def demo_conn_def)
  from uh_lua_request_relays [OF this, of "[]" demo_req] show ?thesis
    by (simp add: lua_read_out_def lua_final_def demo_conn_def)
qed

section \<open>The parts of the URL\<close>

definition lua_field :: "string \<Rightarrow> (string \<times> lua_value) list \<Rightarrow> string" where
  "lua_field k t = (case map_of t k of Some (LStr s) \<Rightarrow> s | _ \<Rightarrow> [])"

lemma map_of_setfield [simp]: "map_of (setfield k v t) j = (if j = k then Some v else map_of t j)"
  by (auto simp: setfield_def map_of_filter_in) (induction t; auto)

lemma map_of_lua_essential:
  "k \<noteq> ''CONTENT_LENGTH'' \<Longrightarrow> k \<noteq> ''CONTENT_TYPE'' \<Longrightarrow> map_of (lua_essential_env hs t) k = map_of t k"
  by (induction hs t rule: lua_essential_env.induct) auto

text \<open>
  The URL is split without loss: when the URL is the prefix of the Lua handler, followed by
  anything, and the prefix ends before the first question mark, then the script name, the path
  information and, behind a question mark, the query string in the request table are the URL.
  Headers of the request cannot replace any of them.
\<close>
lemma lua_env_url:
  assumes "req_url req = pfx @ rest" and "CHR ''?'' \<notin> set pfx"
  shows "let t = lua_env straddr pfx cl req in
    req_url req = lua_field ''SCRIPT_NAME'' t @ lua_field ''PATH_INFO'' t @
      (if CHR ''?'' \<in> set (req_url req) then ''?'' @ lua_field ''QUERY_STRING'' t else [])"
proof -
  let ?t = "lua_env straddr pfx cl req"
  have sn: "lua_field ''SCRIPT_NAME'' ?t = pfx"
    by (auto simp: lua_env_def lua_field_def map_of_lua_essential lua_path_env_def Let_def split: option.splits)
  have pe: "map_of ?t k = map_of (lua_path_env pfx (req_url req) [(''SCRIPT_NAME'', LStr pfx)]) k"
    if "k = ''PATH_INFO'' \<or> k = ''QUERY_STRING''" for k
    using that by (elim disjE) (simp_all add: lua_env_def map_of_lua_essential lua_path_env_def Let_def split: option.splits)
  show ?thesis
  proof (cases "strchr rest (CHR ''?'')")
    case None
    then have "CHR ''?'' \<notin> set (req_url req)" using assms by (auto simp: strchr_None_iff)
    moreover from this have "strchr (pfx @ rest) (CHR ''?'') = None" using assms(1) by (simp add: strchr_None_iff)
    then have "lua_field ''PATH_INFO'' ?t = rest"
      using pe [of "''PATH_INFO''"] assms(1) by (simp add: lua_field_def lua_path_env_def)
    ultimately show ?thesis using sn assms(1) by (simp add: Let_def)
  next
    case (Some k)
    from strchr_SomeD [OF this] have k: "k < length rest" "rest ! k = CHR ''?''" "CHR ''?'' \<notin> set (take k rest)" by auto
    have r: "rest = take k rest @ CHR ''?'' # drop (Suc k) rest" using k(1,2) by (metis id_take_nth_drop)
    have "req_url req = (pfx @ take k rest) @ CHR ''?'' # drop (Suc k) rest" using r assms(1) by simp
    moreover from this have q: "strchr (req_url req) (CHR ''?'') = Some (length pfx + k)"
      using strchr_append_notin [of "CHR ''?''" "pfx @ take k rest"] assms(2) k by simp
    moreover have "lua_field ''PATH_INFO'' ?t = take k rest" "lua_field ''QUERY_STRING'' ?t = drop (Suc k) rest"
      using pe [of "''PATH_INFO''"] pe [of "''QUERY_STRING''"] q assms(1)
      by (auto simp: lua_field_def lua_path_env_def Let_def)
    ultimately show ?thesis using sn by (simp add: Let_def)
  qed
qed

lemma lua_env_url_witness:
  "let t = lua_env (\<lambda>a. []) ''/lua'' (demo_conn [] []) (demo_req\<lparr>req_url := ''/lua/a?b''\<rparr>) in
     ''/lua/a?b'' = lua_field ''SCRIPT_NAME'' t @ lua_field ''PATH_INFO'' t @ ''?'' @ lua_field ''QUERY_STRING'' t"
  using lua_env_url [of "demo_req\<lparr>req_url := ''/lua/a?b''\<rparr>" "''/lua''" "''/a?b''" "\<lambda>a. []" "demo_conn [] []"]
  by (simp add: Let_def)

end
