(* ===== verification/Uh_Server.thy ===== *)
theory Uh_Server
  imports Uh_Lua
begin

text \<open>
  The server proper (\<^verbatim>\<open>uhttpd.c\<close>, \<^verbatim>\<open>uhttpd-tls.c\<close>): choosing the handler of a request, the handling
  of one request from reading its head to the last byte of the answer, and the main loop as a
  step relation on the descriptor sets and the client table. Parameters of a step are what the
  kernel, the TLS library, the file system and the scripts answer.
\<close>

section \<open>Choosing a handler\<close>

text \<open>With an empty prefix the code reads the byte in front of it.\<close>

definition uh_path_match :: "string \<Rightarrow> string \<Rightarrow> bool cres" where
  "uh_path_match pfx url =
     (if strneq url pfx (length pfx) \<and> length pfx \<le> length url
      then if pfx = [] then UB
           else Val (last pfx = CHR ''/'' \<or> length url = length pfx \<or> char_at url (length pfx) = CHR ''/'')
      else Val False)"

text \<open>What the outside world contributes to one request.\<close>

record request_env =
  e_rx :: "rx_event list"
  e_txq :: "tx_event list"
  e_fs :: fsys
  e_files :: files
  e_now :: nat
  e_cgi :: cgi_sys
  e_lua :: lua_sys

text \<open>What does not change while the server runs: the configuration and its tables, \<^verbatim>\<open>crypt()\<close> and \<^verbatim>\<open>inet_ntop()\<close>.\<close>

record httpd =
  h_conf :: config
  h_realms :: "auth_realm list"
  h_interpreters :: "interpreter list"
  h_crypt :: "string \<Rightarrow> string \<Rightarrow> string option"
  h_straddr :: "sockaddr \<Rightarrow> string"

datatype handler = By_CGI child_action | By_File | By_UB

definition uh_dispatch_request :: "httpd \<Rightarrow> request_env \<Rightarrow> http_request \<Rightarrow> path_info \<Rightarrow> handler io" where
  "uh_dispatch_request h env req pin =
     (let run_cgi = (\<lambda>ip. do {
            c \<leftarrow> get_conn;
            _ \<leftarrow> uh_cgi_request (e_cgi env) req;
            return (By_CGI (cgi_child (h_straddr h) c req pin ip)) })
      in case (case cgi_prefix (h_conf h) of None \<Rightarrow> UB | Some p \<Rightarrow> uh_path_match p (pi_name pin)) of
           UB \<Rightarrow> do { _ \<leftarrow> ub; return By_UB }
         | Val True \<Rightarrow> run_cgi None
         | Val False \<Rightarrow>
             (case uh_interpreter_lookup (h_interpreters h) (pi_phys pin) of
                UB \<Rightarrow> do { _ \<leftarrow> ub; return By_UB }
              | Val (Some ip) \<Rightarrow> run_cgi (Some ip)
              | Val None \<Rightarrow> do {
                  _ \<leftarrow> uh_file_request (e_fs env) (e_files env) (e_now env) (h_conf h) req pin;
                  return By_File }))"

section \<open>One request\<close>

datatype outcome =
    No_Request
  | Filtered
  | By_Lua http_request
  | Redirected path_info
  | Refused path_info
  | Dispatched http_request path_info handler
  | Not_Found

definition lua_matches :: "config \<Rightarrow> http_request \<Rightarrow> bool cres" where
  "lua_matches conf req =
     (if lua_state conf
      then case lua_prefix conf of None \<Rightarrow> UB | Some p \<Rightarrow> uh_path_match p (req_url req)
      else Val False)"

definition send_404 :: "outcome io" where
  "send_404 = do {
     _ \<leftarrow> uh_http_sendhf 404 ''Not Found'' ''No such file or directory'';
     return Not_Found }"

text \<open>The page configured for missing files.\<close>

definition error_page :: "httpd \<Rightarrow> request_env \<Rightarrow> http_request \<Rightarrow> outcome io" where
  "error_page h env req = do {
     pin \<leftarrow> uh_path_lookup (e_fs env) (h_conf h) (error_handler (h_conf h));
     case pin of
       None \<Rightarrow> send_404
     | Some p \<Rightarrow> do {
         (req1, ok) \<leftarrow> uh_auth_check (h_crypt h) (h_conf h) (h_realms h) req p;
         if ok
         then do {
           let req2 = req1\<lparr>redirect_status := 404\<rparr>;
           r \<leftarrow> uh_dispatch_request h env req2 p;
           return (Dispatched req2 p r) }
         else send_404 } }"

definition handle_request :: "httpd \<Rightarrow> request_env \<Rightarrow> http_request \<Rightarrow> outcome io" where
  "handle_request h env req = do {
     c \<leftarrow> get_conn;
     if rfc1918_filter (h_conf h) \<and> sa_rfc1918 (peeraddr c) \<and> \<not> sa_rfc1918 (servaddr c)
     then do {
       _ \<leftarrow> uh_http_sendhf 403 ''Forbidden'' ''Rejected request from RFC1918 IP to public server address'';
       return Filtered }
     else case lua_matches (h_conf h) req of
       UB \<Rightarrow> do { _ \<leftarrow> ub; return No_Request }
     | Val True \<Rightarrow> do { _ \<leftarrow> uh_lua_request (e_lua env) req; return (By_Lua req) }
     | Val False \<Rightarrow> do {
         pin \<leftarrow> uh_path_lookup (e_fs env) (h_conf h) (Some (req_url req));
         case pin of
           Some p \<Rightarrow>
             if pi_redirected p then return (Redirected p)
             else do {
               (req1, ok) \<leftarrow> uh_auth_check (h_crypt h) (h_conf h) (h_realms h) req p;
               if ok then do { r \<leftarrow> uh_dispatch_request h env req1 p; return (Dispatched req1 p r) }
               else return (Refused p) }
         | None \<Rightarrow> error_page h env req } }"

definition serve_client :: "httpd \<Rightarrow> request_env \<Rightarrow> outcome io" where
  "serve_client h env = do {
     r \<leftarrow> uh_http_header_recv;
     case r of None \<Rightarrow> return No_Request | Some req \<Rightarrow> handle_request h env req }"

section \<open>TLS sessions\<close>

text \<open>The results of \<^verbatim>\<open>SSL_new()\<close>, \<^verbatim>\<open>SSL_set_fd()\<close> and \<^verbatim>\<open>SSL_accept()\<close>.\<close>

record ssl_results =
  ssl_new :: bool
  ssl_set_fd :: int
  ssl_accept :: int

definition uh_tls_client_accept :: "ssl_results \<Rightarrow> client \<Rightarrow> int \<times> client" where
  "uh_tls_client_accept ssl c =
     (if ls_tls (c_server c)
      then if ssl_new ssl
           then if ssl_set_fd ssl < 1 then (ssl_set_fd ssl, c\<lparr>c_tls := False\<rparr>)
                else if ssl_accept ssl < 1 then (ssl_accept ssl, c\<lparr>c_tls := False\<rparr>)
                else (ssl_accept ssl, c\<lparr>c_tls := True\<rparr>)
           else (0, c\<lparr>c_tls := False\<rparr>)
      else (1, c\<lparr>c_tls := False\<rparr>))"

definition uh_tls_client_close :: "client \<Rightarrow> client" where
  "uh_tls_client_close c = c\<lparr>c_tls := False\<rparr>"

section \<open>The main loop\<close>

text \<open>
  The state: the descriptor sets, the tables of listeners and clients, the sockets the process has
  open, and a log of the handled requests with the connection as it was left.
\<close>

record server =
  serv_fds :: "int set"
  used_fds :: "int set"
  max_fd :: int
  sv_listeners :: "listener list"
  sv_clients :: "client list"
  sv_open :: "int set"
  sv_log :: "(client \<times> outcome \<times> conn) list"

text \<open>
  What handling a ready descriptor meets: for a listener the result of \<^verbatim>\<open>accept()\<close>, whether there is
  memory for the client, and the TLS handshake; for a client the request.
\<close>

datatype fd_event =
    AcceptFails
  | Accepted int bool netenv ssl_results
  | Ready request_env

definition put_client :: "client \<Rightarrow> client list \<Rightarrow> client list" where
  "put_client x cls = map (\<lambda>y. if c_socket y = c_socket x then x else y) cls"

definition accept_client :: "httpd \<Rightarrow> int \<Rightarrow> bool \<Rightarrow> netenv \<Rightarrow> ssl_results \<Rightarrow> listener \<Rightarrow> server \<Rightarrow> server" where
  "accept_client h new_fd mem net ssl l s =
     (let s0 = s\<lparr>sv_open := insert new_fd (sv_open s)\<rparr>
      in case uh_client_add mem net new_fd l (sv_clients s) of
           (None, cls) \<Rightarrow> s0\<lparr>sv_open := sv_open s0 - {new_fd}, sv_clients := cls\<rparr>
         | (Some cl, cls) \<Rightarrow>
             (let (rv, cl') = (if conf_tls (h_conf h) then uh_tls_client_accept ssl cl else (1, cl));
                  cls' = put_client cl' cls
              in if rv < 1
                 then s0\<lparr>sv_open := sv_open s0 - {new_fd}, sv_clients := uh_client_remove cls' new_fd\<rparr>
                 else s0\<lparr>sv_clients := cls', used_fds := insert new_fd (used_fds s), max_fd := max (max_fd s) new_fd\<rparr>))"

definition client_conn :: "client \<Rightarrow> request_env \<Rightarrow> conn" where
  "client_conn cl env = \<lparr>cl_socket = c_socket cl, peekbuf = [], cl_tls = c_tls cl, servaddr = c_servaddr cl,
     peeraddr = c_peeraddr cl, rx = e_rx env, tx = [], txq = e_txq env, fault = False\<rparr>"

definition drop_client :: "int \<Rightarrow> server \<Rightarrow> server" where
  "drop_client fd s = s\<lparr>sv_open := sv_open s - {fd}, used_fds := used_fds s - {fd},
     sv_clients := uh_client_remove (sv_clients s) fd\<rparr>"

text \<open>
  The body of the inner loop for a ready descriptor. \<open>None\<close>: the listener of a new connection is not
  in the table and a null pointer would be stored, or the event does not fit the descriptor.
\<close>

definition handle_fd :: "httpd \<Rightarrow> int \<Rightarrow> fd_event \<Rightarrow> server \<Rightarrow> server option" where
  "handle_fd h cur_fd ev s =
     (if cur_fd \<in> serv_fds s
      then case ev of
          AcceptFails \<Rightarrow> Some s
        | Accepted new_fd mem net ssl \<Rightarrow>
            map_option (\<lambda>l. accept_client h new_fd mem net ssl l s) (uh_listener_lookup (sv_listeners s) cur_fd)
        | Ready env \<Rightarrow> None
      else case ev of
          Ready env \<Rightarrow>
            (case uh_client_lookup (sv_clients s) cur_fd of
               None \<Rightarrow> Some (drop_client cur_fd s)
             | Some cl \<Rightarrow>
                 (case run_state (serve_client h env) (client_conn cl env) of
                    (out, c) \<Rightarrow>
                      let s1 = s\<lparr>sv_clients := (if conf_tls (h_conf h)
                                  then put_client (uh_tls_client_close cl) (sv_clients s) else sv_clients s),
                                 sv_log := sv_log s @ [(cl, out, c)]\<rparr>
                      in Some (drop_client cur_fd s1)))
        | _ \<Rightarrow> None)"

text \<open>
  Where the loop stands: in front of \<^verbatim>\<open>select()\<close>, in the loop over the descriptors with the set
  \<^verbatim>\<open>select()\<close> has left, after the loop, or after \<^verbatim>\<open>exit(1)\<close>.
\<close>

datatype phase = At_Select | Scan int "int set" | Stopped | Exited

text \<open>The kernel: a descriptor \<^verbatim>\<open>accept()\<close> returns is new, events are of the descriptor's kind, and
  \<^verbatim>\<open>realpath()\<close> stays within its buffer.\<close>

definition event_ok :: "int \<Rightarrow> fd_event \<Rightarrow> server \<Rightarrow> bool" where
  "event_ok fd ev s = (case ev of
      AcceptFails \<Rightarrow> fd \<in> serv_fds s
    | Accepted new_fd mem net ssl \<Rightarrow> fd \<in> serv_fds s \<and> 0 \<le> new_fd \<and> new_fd \<notin> sv_open s
    | Ready env \<Rightarrow> fd \<notin> serv_fds s \<and> realpath_ok (e_fs env))"

inductive uh_mainloop :: "httpd \<Rightarrow> phase \<times> server \<Rightarrow> phase \<times> server \<Rightarrow> bool" for h where
  terminated: "uh_mainloop h (At_Select, s) (Stopped, s)"
| select_fails: "uh_mainloop h (At_Select, s) (Exited, s)"
| select: "read_fds \<subseteq> used_fds s \<Longrightarrow> uh_mainloop h (At_Select, s) (Scan 0 read_fds, s)"
| skip: "cur_fd \<le> max_fd s \<Longrightarrow> cur_fd \<notin> read_fds \<Longrightarrow>
    uh_mainloop h (Scan cur_fd read_fds, s) (Scan (cur_fd + 1) read_fds, s)"
| handle: "cur_fd \<le> max_fd s \<Longrightarrow> cur_fd \<in> read_fds \<Longrightarrow> event_ok cur_fd ev s \<Longrightarrow>
    handle_fd h cur_fd ev s = Some s' \<Longrightarrow>
    uh_mainloop h (Scan cur_fd read_fds, s) (Scan (cur_fd + 1) read_fds, s')"
| scanned: "max_fd s < cur_fd \<Longrightarrow> uh_mainloop h (Scan cur_fd read_fds, s) (At_Select, s)"

inductive_cases mainloop_ScanE: "uh_mainloop h (Scan fd r, s) t"
inductive_simps mainloop_select_iff: "uh_mainloop h (At_Select, s) t"

section \<open>The invariant of the main loop\<close>

abbreviation client_fds :: "server \<Rightarrow> int set" where
  "client_fds s \<equiv> c_socket ` set (sv_clients s)"

text \<open>
  \<open>rest\<close>: the open sockets the loop does not manage. Every descriptor that is still to be visited
  in a pass is managed by the loop.
\<close>

definition fd_books :: "int set \<Rightarrow> int set \<Rightarrow> int set \<Rightarrow> int set \<Rightarrow> int set \<Rightarrow> int \<Rightarrow> bool" where
  "fd_books serv cls used opn rest m \<longleftrightarrow>
     used = serv \<union> cls \<and> serv \<inter> cls = {} \<and> opn = used \<union> rest \<and> used \<inter> rest = {} \<and>
     (\<forall>fd\<in>used. 0 \<le> fd \<and> fd \<le> m)"

definition server_inv :: "int set \<Rightarrow> server \<Rightarrow> bool" where
  "server_inv rest s \<longleftrightarrow>
     distinct (map c_socket (sv_clients s)) \<and> serv_fds s = ls_socket ` set (sv_listeners s) \<and>
     fd_books (serv_fds s) (client_fds s) (used_fds s) (sv_open s) rest (max_fd s)"

definition mainloop_inv :: "int set \<Rightarrow> phase \<times> server \<Rightarrow> bool" where
  "mainloop_inv rest ps \<longleftrightarrow> server_inv rest (snd ps) \<and>
     (case fst ps of Scan cur_fd read_fds \<Rightarrow> \<forall>fd\<in>read_fds. cur_fd \<le> fd \<longrightarrow> fd \<in> used_fds (snd ps) | _ \<Rightarrow> True)"

lemma fd_books_drop:
  "fd_books serv cls used opn rest m \<Longrightarrow> fd \<in> cls \<Longrightarrow>
     fd_books serv (cls - {fd}) (used - {fd}) (opn - {fd}) rest m"
  by (auto simp: fd_books_def)

lemma fd_books_add:
  "fd_books serv cls used opn rest m \<Longrightarrow> fd \<notin> opn \<Longrightarrow> 0 \<le> fd \<Longrightarrow>
     fd_books serv (insert fd cls) (insert fd used) (insert fd opn) rest (max m fd)"
  by (fastforce simp: fd_books_def le_max_iff_disj)

lemma server_invD:
  assumes "server_inv rest s"
  shows "distinct (map c_socket (sv_clients s))" and "serv_fds s = ls_socket ` set (sv_listeners s)"
    and "fd_books (serv_fds s) (client_fds s) (used_fds s) (sv_open s) rest (max_fd s)"
  using assms unfolding server_inv_def by blast+

lemma map_socket_put_client [simp]: "map c_socket (put_client x cls) = map c_socket cls"
  by (induction cls) (auto simp: put_client_def)

lemma set_socket_put_client [simp]: "c_socket ` set (put_client x cls) = c_socket ` set cls"
  by (metis list.set_map map_socket_put_client)

lemma put_client_fresh: "c_socket x \<notin> c_socket ` set cls \<Longrightarrow> put_client x cls = cls"
  by (induction cls) (auto simp: put_client_def)

lemma set_socket_remove:
  "distinct (map c_socket cls) \<Longrightarrow> c_socket ` set (uh_client_remove cls fd) = c_socket ` set cls - {fd}"
  using arg_cong [OF clients.socks_del, of set cls fd] by (simp add: set_remove1_eq)

lemma tls_accept_socket: "uh_tls_client_accept ssl cl = (rv, cl') \<Longrightarrow> c_socket cl' = c_socket cl"
  by (auto simp: uh_tls_client_accept_def split: if_splits)

lemma server_inv_drop:
  assumes "server_inv rest s" and "fd \<in> client_fds s"
  shows "server_inv rest (drop_client fd s)"
proof -
  note d = server_invD(1) [OF assms(1)]
  show ?thesis unfolding server_inv_def drop_client_def
    using fd_books_drop [OF server_invD(3) [OF assms(1)] assms(2)] set_socket_remove [OF d, of fd]
      clients.distinct_del [OF d, of fd] server_invD(2) [OF assms(1)] by (simp del: image_set)
qed

text \<open>Accepting: either nothing of the bookkeeping changes, or one new client is in all of it.\<close>

lemma accept_client_cases:
  assumes "server_inv rest s" and "new_fd \<notin> sv_open s"
  obtains (dropped) "accept_client h new_fd mem net ssl l s = s"
    | (taken) cl where "c_socket cl = new_fd" and "accept_client h new_fd mem net ssl l s =
        s\<lparr>sv_open := insert new_fd (sv_open s), sv_clients := cl # sv_clients s,
          used_fds := insert new_fd (used_fds s), max_fd := max (max_fd s) new_fd\<rparr>"
proof (cases mem)
  case False
  then have "accept_client h new_fd mem net ssl l s = s"
    using assms(2) by (simp add: accept_client_def uh_client_add_def Let_def)
  then show ?thesis by (rule dropped)
next
  case True
  from assms have fresh: "new_fd \<notin> client_fds s" by (auto simp: server_inv_def fd_books_def)
  let ?x = "\<lparr>c_socket = new_fd, c_server = l, c_servaddr = getsockname net new_fd,
      c_peeraddr = getpeername net new_fd, c_tls = False\<rparr>"
  obtain rv cl' where a: "(if conf_tls (h_conf h) then uh_tls_client_accept ssl ?x else (1, ?x)) = (rv, cl')"
    by (metis prod.exhaust)
  have so: "c_socket cl' = new_fd" using a tls_accept_socket [of ssl ?x rv cl'] by (auto split: if_splits)
  have p: "put_client cl' (?x # sv_clients s) = cl' # sv_clients s"
    using put_client_fresh [of cl' "sv_clients s"] so fresh by (simp add: put_client_def)
  have e: "accept_client h new_fd mem net ssl l s =
      (let s0 = s\<lparr>sv_open := insert new_fd (sv_open s)\<rparr> in
       if rv < 1 then s0\<lparr>sv_open := sv_open s0 - {new_fd}, sv_clients := uh_client_remove (cl' # sv_clients s) new_fd\<rparr>
       else s0\<lparr>sv_clients := cl' # sv_clients s, used_fds := insert new_fd (used_fds s), max_fd := max (max_fd s) new_fd\<rparr>)"
    by (simp add: accept_client_def uh_client_add_def True a p Let_def)
  show ?thesis
  proof (cases "rv < 1")
    case True
    then have "accept_client h new_fd mem net ssl l s = s" using e so assms(2) by simp
    then show ?thesis by (rule dropped)
  next
    case False
    then show ?thesis using taken [OF so] e by (simp add: Let_def)
  qed
qed

lemma server_inv_accept:
  assumes "server_inv rest s" and "new_fd \<notin> sv_open s" and "0 \<le> new_fd"
  shows "server_inv rest (accept_client h new_fd mem net ssl l s) \<and>
    used_fds s \<subseteq> used_fds (accept_client h new_fd mem net ssl l s)"
proof (cases rule: accept_client_cases [OF assms(1,2), of h mem net ssl l, case_names dropped taken])
  case (taken cl)
  note b = server_invD [OF assms(1)]
  from b(3) assms(2) have "new_fd \<notin> client_fds s" by (auto simp: fd_books_def)
  with fd_books_add [OF b(3) assms(2,3)] b(1,2) taken(1) show ?thesis unfolding taken(2) server_inv_def
    by (simp add: subset_insertI)
qed (use assms in auto)

lemma handle_fd_inv:
  assumes "server_inv rest s" and "fd \<in> used_fds s" and "event_ok fd ev s"
  obtains s' where "handle_fd h fd ev s = Some s'" and "server_inv rest s'"
    and "used_fds s - {fd} \<subseteq> used_fds s'" and "fd \<notin> serv_fds s \<longrightarrow> (\<exists>cl. uh_client_lookup (sv_clients s) fd = Some cl)"
    and "serv_fds s' = serv_fds s"
proof (cases "fd \<in> serv_fds s")
  case True
  with assms(1) have "fd \<in> set (map ls_socket (sv_listeners s))" by (simp add: server_inv_def)
  with listeners.lookup_iff obtain l where l: "uh_listener_lookup (sv_listeners s) fd = Some l" by metis
  show ?thesis
  proof (cases ev)
    case (Accepted new_fd mem net ssl)
    with assms(3) have n: "new_fd \<notin> sv_open s" "0 \<le> new_fd" by (simp_all add: event_ok_def)
    have "serv_fds (accept_client h new_fd mem net ssl l s) = serv_fds s"
      by (cases rule: accept_client_cases [OF assms(1) n(1), of h mem net ssl l, case_names dropped taken]) auto
    moreover have "handle_fd h fd ev s = Some (accept_client h new_fd mem net ssl l s)"
      using True l Accepted by (simp add: handle_fd_def)
    ultimately show ?thesis using server_inv_accept [OF assms(1) n, of h mem net ssl l] True that by blast
  next
    case AcceptFails
    with True have "handle_fd h fd ev s = Some s" by (simp add: handle_fd_def)
    with assms(1) True that show ?thesis by blast
  next
    case (Ready env)
    with True assms(3) show ?thesis by (simp add: event_ok_def)
  qed
next
  case False
  with assms(1,2) have c: "fd \<in> client_fds s" by (auto simp: server_inv_def fd_books_def)
  then obtain cl where cl: "uh_client_lookup (sv_clients s) fd = Some cl"
    using clients.lookup_iff [of "sv_clients s" fd] by auto
  from False assms(3) obtain env where ev: "ev = Ready env" by (cases ev) (auto simp: event_ok_def)
  obtain out co where r: "run_state (serve_client h env) (client_conn cl env) = (out, co)" by (metis prod.exhaust)
  let ?s1 = "s\<lparr>sv_clients := (if conf_tls (h_conf h) then put_client (uh_tls_client_close cl) (sv_clients s)
      else sv_clients s), sv_log := sv_log s @ [(cl, out, co)]\<rparr>"
  have h: "handle_fd h fd ev s = Some (drop_client fd ?s1)"
    using False by (simp add: handle_fd_def ev cl r Let_def)
  have "server_inv rest ?s1" using server_invD [OF assms(1)] unfolding server_inv_def by simp
  moreover have "fd \<in> client_fds ?s1" using c by simp
  ultimately have "server_inv rest (drop_client fd ?s1)" by (rule server_inv_drop)
  moreover have "used_fds s - {fd} \<subseteq> used_fds (drop_client fd ?s1)" "serv_fds (drop_client fd ?s1) = serv_fds s"
    by (simp_all add: drop_client_def)
  ultimately show ?thesis using h cl that by blast
qed

lemma mainloop_inv_step:
  assumes "uh_mainloop h x y" and "mainloop_inv rest x"
  shows "mainloop_inv rest y"
  using assms
proof cases
  case (handle cur_fd s read_fds ev s')
  with assms(2) have i: "server_inv rest s" and r: "\<forall>fd\<in>read_fds. cur_fd \<le> fd \<longrightarrow> fd \<in> used_fds s"
    by (simp_all add: mainloop_inv_def)
  with handle have "cur_fd \<in> used_fds s" by simp
  from handle_fd_inv [OF i this handle(5), of h] handle(6) have "server_inv rest s'" "used_fds s - {cur_fd} \<subseteq> used_fds s'"
    by auto
  with handle(2) r show ?thesis by (auto simp: mainloop_inv_def)
qed (auto simp: mainloop_inv_def)

lemma mainloop_inv_reachable:
  assumes "(uh_mainloop h)\<^sup>*\<^sup>* x y" and "mainloop_inv rest x"
  shows "mainloop_inv rest y"
  using assms by (induction rule: rtranclp_induct) (auto intro: mainloop_inv_step)

text \<open>A server that has bound its sockets and has no client yet.\<close>

definition server_start :: "server \<Rightarrow> bool" where
  "server_start s \<longleftrightarrow> sv_clients s = [] \<and> sv_log s = [] \<and> serv_fds s = ls_socket ` set (sv_listeners s) \<and>
     used_fds s = serv_fds s \<and> serv_fds s \<subseteq> sv_open s \<and> (\<forall>fd\<in>serv_fds s. 0 \<le> fd \<and> fd \<le> max_fd s)"

lemma server_start_inv: "server_start s \<Longrightarrow> mainloop_inv (sv_open s - used_fds s) (At_Select, s)"
  by (auto simp: server_start_def mainloop_inv_def server_inv_def fd_books_def)

text \<open>
  C6: The bookkeeping of the main loop. In every state the loop can reach, whatever \<^verbatim>\<open>select()\<close>
  reports, whichever connections come, fail their handshake or end, and in whatever order: the
  sockets of the client table are distinct; the watched descriptors are exactly the listening
  sockets and the sockets of the clients, and these are disjoint; the open sockets are the watched
  ones and those that were open and unwatched from the start, so no connection is ever leaked; no
  watched descriptor exceeds \<^verbatim>\<open>max_fd\<close>. Whenever a ready descriptor is visited it belongs to a
  registered listener or to a registered client (the branch the code marks as not happening does
  not happen), and the loop can go on from there for every event the kernel can produce.
\<close>
theorem uh_mainloop_books:
  assumes "(uh_mainloop h)\<^sup>*\<^sup>* (At_Select, s0) (p, s)" and "server_start s0"
  shows "distinct (map c_socket (sv_clients s)) \<and>
    used_fds s = ls_socket ` set (sv_listeners s) \<union> client_fds s \<and>
    ls_socket ` set (sv_listeners s) \<inter> client_fds s = {} \<and>
    sv_open s - used_fds s = sv_open s0 - used_fds s0 \<and> used_fds s \<subseteq> sv_open s \<and>
    (\<forall>fd\<in>used_fds s. fd \<le> max_fd s) \<and>
    (\<forall>fd read_fds. p = Scan fd read_fds \<and> fd \<in> read_fds \<longrightarrow>
       (if fd \<in> serv_fds s then uh_listener_lookup (sv_listeners s) fd \<noteq> None
        else uh_client_lookup (sv_clients s) fd \<noteq> None) \<and>
       (\<forall>ev. event_ok fd ev s \<longrightarrow> (\<exists>s'. uh_mainloop h (p, s) (Scan (fd + 1) read_fds, s'))))"
proof -
  let ?rest = "sv_open s0 - used_fds s0"
  have inv: "mainloop_inv ?rest (p, s)"
    using mainloop_inv_reachable [OF assms(1) server_start_inv [OF assms(2)]] .
  then have i: "server_inv ?rest s" by (simp add: mainloop_inv_def)
  have b: "fd_books (serv_fds s) (client_fds s) (used_fds s) (sv_open s) ?rest (max_fd s)"
    and l: "serv_fds s = ls_socket ` set (sv_listeners s)" and d: "distinct (map c_socket (sv_clients s))"
    using server_invD [OF i] by blast+
  have vis: "(if fd \<in> serv_fds s then uh_listener_lookup (sv_listeners s) fd \<noteq> None
        else uh_client_lookup (sv_clients s) fd \<noteq> None)"
    "event_ok fd ev s \<Longrightarrow> \<exists>s'. uh_mainloop h (p, s) (Scan (fd + 1) read_fds, s')"
    if p: "p = Scan fd read_fds" "fd \<in> read_fds" for fd read_fds ev
  proof -
    from inv p have u: "fd \<in> used_fds s" by (simp add: mainloop_inv_def)
    with b have m: "fd \<le> max_fd s" "fd \<in> serv_fds s \<or> fd \<in> client_fds s" by (auto simp: fd_books_def)
    then show "if fd \<in> serv_fds s then uh_listener_lookup (sv_listeners s) fd \<noteq> None
        else uh_client_lookup (sv_clients s) fd \<noteq> None"
      using listeners.lookup_None [of "sv_listeners s" fd] clients.lookup_None [of "sv_clients s" fd] l by auto
    assume ev: "event_ok fd ev s"
    from handle_fd_inv [OF i u ev, of h] obtain s' where "handle_fd h fd ev s = Some s'" by metis
    from uh_mainloop.handle [OF m(1) p(2) ev this] show "\<exists>s'. uh_mainloop h (p, s) (Scan (fd + 1) read_fds, s')"
      using p(1) by auto
  qed
  have "used_fds s = ls_socket ` set (sv_listeners s) \<union> client_fds s"
    "ls_socket ` set (sv_listeners s) \<inter> client_fds s = {}" "sv_open s - used_fds s = ?rest" "used_fds s \<subseteq> sv_open s"
    "\<forall>fd\<in>used_fds s. fd \<le> max_fd s"
    using b unfolding l by (auto simp: fd_books_def)
  with d vis show ?thesis by blast
qed

definition demo_httpd :: httpd where
  "demo_httpd = \<lparr>h_conf = demo_conf\<lparr>cgi_prefix := Some ''/cgi-bin''\<rparr>, h_realms = [demo_realm], h_interpreters = [],
     h_crypt = \<lambda>p s. None, h_straddr = \<lambda>a. ''127.0.0.1''\<rparr>"

definition demo_server :: server where
  "demo_server = \<lparr>serv_fds = {3}, used_fds = {3}, max_fd = 3, sv_listeners = [demo_listener], sv_clients = [],
     sv_open = {3}, sv_log = []\<rparr>"

lemma demo_server_start: "server_start demo_server"
  by (simp add: server_start_def demo_server_def demo_listener_def)

lemma demo_scan: "(uh_mainloop h)\<^sup>*\<^sup>* (At_Select, demo_server) (Scan 3 {3}, demo_server)"
proof -
  have "uh_mainloop h (At_Select, demo_server) (Scan 0 {3}, demo_server)"
    by (rule uh_mainloop.select) (simp add: demo_server_def)
  moreover have "uh_mainloop h (Scan fd {3}, demo_server) (Scan (fd + 1) {3}, demo_server)" if "fd < 3" for fd
    using that by (intro uh_mainloop.skip) (auto simp: demo_server_def)
  from this [of 0] this [of 1] this [of 2]
  have "uh_mainloop h (Scan 0 {3}, demo_server) (Scan 1 {3}, demo_server)"
    "uh_mainloop h (Scan 1 {3}, demo_server) (Scan 2 {3}, demo_server)"
    "uh_mainloop h (Scan 2 {3}, demo_server) (Scan 3 {3}, demo_server)" by simp_all
  ultimately show ?thesis by (meson converse_rtranclp_into_rtranclp r_into_rtranclp)
qed

text \<open>A connection comes in on descriptor 5.\<close>

theorem uh_mainloop_books_witness:
  "\<exists>s. (uh_mainloop demo_httpd)\<^sup>*\<^sup>* (At_Select, demo_server) (Scan 4 {3}, s) \<and> map c_socket (sv_clients s) = [5] \<and>
     used_fds s = {3, 5} \<and> sv_open s - used_fds s = {}"
proof -
  let ?ev = "Accepted 5 True demo_net \<lparr>ssl_new = True, ssl_set_fd = 1, ssl_accept = 1\<rparr>"
  have "\<exists>s. handle_fd demo_httpd 3 ?ev demo_server = Some s \<and> map c_socket (sv_clients s) = [5] \<and>
      sv_listeners s = [demo_listener]"
    by (simp add: handle_fd_def demo_server_def demo_listener_def accept_client_def uh_client_add_def put_client_def
        demo_httpd_def demo_conf_def Let_def)
  then obtain s where h: "handle_fd demo_httpd 3 ?ev demo_server = Some s"
    and s: "map c_socket (sv_clients s) = [5]" "sv_listeners s = [demo_listener]" by (elim exE conjE) (rule that)
  have "uh_mainloop demo_httpd (Scan 3 {3}, demo_server) (Scan 4 {3}, s)"
    using uh_mainloop.handle [OF _ _ _ h] by (simp add: event_ok_def demo_server_def)
  with demo_scan have r: "(uh_mainloop demo_httpd)\<^sup>*\<^sup>* (At_Select, demo_server) (Scan 4 {3}, s)" by (rule rtranclp.rtrancl_into_rtrancl)
  from s(1) have c: "client_fds s = {5}" by (metis list.set_map list.simps(15) list.set(1))
  note b = uh_mainloop_books [OF r demo_server_start]
  from b have "used_fds s = ls_socket ` set (sv_listeners s) \<union> client_fds s" by (elim conjE)
  then have u: "used_fds s = {3, 5}" unfolding c s(2) by (simp add: demo_listener_def insert_commute)
  from b have "sv_open s - used_fds s = sv_open demo_server - used_fds demo_server" by (elim conjE)
  then have "sv_open s - used_fds s = {}" by (simp add: demo_server_def)
  with r s(1) u show ?thesis by (intro exI conjI)
qed

section \<open>Every pass ends\<close>

definition scan_measure :: "phase \<times> server \<Rightarrow> nat \<times> nat" where
  "scan_measure ps = (case fst ps of
      Scan cur_fd read_fds \<Rightarrow> (nat (Max (insert 0 read_fds) + 1 - cur_fd), nat (max_fd (snd ps) + 1 - cur_fd))
    | _ \<Rightarrow> (0, 0))"

definition in_scan :: "phase \<times> server \<Rightarrow> bool" where
  "in_scan ps \<longleftrightarrow> (case fst ps of Scan cur_fd read_fds \<Rightarrow> finite read_fds | _ \<Rightarrow> False)"

text \<open>
  C19: Every pass over the descriptors ends, although accepting a connection during a pass can raise
  \<^verbatim>\<open>max_fd\<close> and with it the bound of the pass: there is no infinite sequence of steps inside a pass,
  for any behaviour of the kernel. So no choice of descriptor numbers by \<^verbatim>\<open>accept()\<close> keeps the
  server from calling \<^verbatim>\<open>select()\<close> again, as long as the handlers return.
\<close>
theorem uh_mainloop_pass_ends:
  "wfP (\<lambda>y x. uh_mainloop h x y \<and> in_scan x \<and> in_scan y)"
proof -
  have "(scan_measure y, scan_measure x) \<in> less_than <*lex*> less_than"
    if "uh_mainloop h x y" "in_scan x" "in_scan y" for x y
    using that(1)
  proof cases
    case (skip cur_fd s read_fds)
    then show ?thesis by (auto simp: scan_measure_def)
  next
    case (handle cur_fd s read_fds ev s')
    with that(2) have "finite read_fds" by (simp add: in_scan_def)
    with handle have "cur_fd \<le> Max (insert 0 read_fds)" by (intro Max_ge) auto
    with handle show ?thesis by (simp add: scan_measure_def)
  qed (use that in \<open>simp_all add: in_scan_def\<close>)
  then have "{(y, x). uh_mainloop h x y \<and> in_scan x \<and> in_scan y} \<subseteq> inv_image (less_than <*lex*> less_than) scan_measure"
    by (auto simp: in_inv_image)
  then have "wf {(y, x). uh_mainloop h x y \<and> in_scan x \<and> in_scan y}"
    by (rule wf_subset [rotated]) (intro wf_inv_image wf_lex_prod wf_less_than)
  then show ?thesis by (simp add: wfp_def)
qed

section \<open>Only authorized requests are dispatched\<close>

text \<open>The request has the credentials of a realm that covers the name, if there is any such realm.\<close>

definition authorized :: "httpd \<Rightarrow> http_request \<Rightarrow> string \<Rightarrow> bool" where
  "authorized h req name \<longleftrightarrow> (list_ex (realm_covers name) (h_realms h) \<longrightarrow>
     (case auth_info (req_headers req) of
        None \<Rightarrow> False
      | Some (user, pass) \<Rightarrow> list_ex (\<lambda>r. realm_covers name r \<and> realm_user r = user \<and> req_realm req = Some r \<and>
          pass_matches (h_crypt h) r pass = Some True) (h_realms h)))"

lemma authorized_status [simp]: "authorized h (req\<lparr>redirect_status := n\<rparr>) name = authorized h req name"
  by (simp add: authorized_def split: option.split prod.split)

lemma uh_auth_check_authorized:
  assumes "run_state (uh_auth_check (h_crypt h) conf (h_realms h) req pin) c = ((req', True), c')"
  shows "authorized h req' (pi_name pin) \<and> req_headers req' = req_headers req"
proof (cases "find (realm_covers (pi_name pin)) (h_realms h)")
  case None
  then have "\<not> list_ex (realm_covers (pi_name pin)) (h_realms h)" by (simp add: find_None_iff list_ex_iff)
  with None assms show ?thesis by (simp add: uh_auth_check_def find_realm_find authorized_def)
next
  case (Some realm)
  obtain user pass where a: "auth_info (req_headers req) = Some (user, pass)"
    using assms Some by (cases "auth_info (req_headers req)") (auto simp: uh_auth_check_def find_realm_find Let_def)
  let ?p = "\<lambda>r. realm_covers (pi_name pin) r \<and> user = realm_user r"
  obtain r where r: "find ?p (h_realms h) = Some r"
    using assms Some a by (cases "find ?p (h_realms h)") (auto simp: uh_auth_check_def find_realm_find Let_def)
  then have "r \<in> set (h_realms h)" "?p r" by (auto simp: find_Some_iff)
  moreover have "pass_matches (h_crypt h) r pass = Some True" "req' = req\<lparr>req_realm := Some r\<rparr>"
    using assms Some a r
    by (auto simp: uh_auth_check_def find_realm_find Let_def split: option.splits bool.splits prod.splits)
  ultimately show ?thesis using a by (auto simp: authorized_def list_ex_iff)
qed

definition keeps_addr :: "'a io \<Rightarrow> bool" where
  "keeps_addr m \<longleftrightarrow> (\<forall>c. servaddr (snd (run_state m c)) = servaddr c \<and> peeraddr (snd (run_state m c)) = peeraddr c)"

named_theorems addr_intros "routines that keep the addresses of the connection"

lemma keeps_addr_return [addr_intros]: "keeps_addr (return r)"
  by (simp add: keeps_addr_def)

lemma keeps_addr_bind [addr_intros]:
  "keeps_addr m \<Longrightarrow> (\<And>x. keeps_addr (k x)) \<Longrightarrow> keeps_addr (State_Monad.bind m k)"
  by (simp add: keeps_addr_def split: prod.splits) (metis snd_conv)

lemma keeps_addr_if [addr_intros]: "keeps_addr m \<Longrightarrow> keeps_addr k \<Longrightarrow> keeps_addr (if b then m else k)"
  by simp

lemma keeps_addr_tcp_send [addr_intros]: "keeps_addr (uh_tcp_send buf)"
  by (simp add: keeps_addr_def uh_tcp_send_def uh_tls_client_send_def sys_send_def split: list.splits tx_event.splits)

lemma keeps_addr_ub [addr_intros]: "keeps_addr ub"
  by (simp add: keeps_addr_def ub_def)

lemma keeps_addr_ensure_ret [addr_intros]: "keeps_addr m \<Longrightarrow> keeps_addr k \<Longrightarrow> keeps_addr (ensure_ret m k)"
  unfolding ensure_ret_def by (rule keeps_addr_bind, assumption, rule keeps_addr_if, rule keeps_addr_return)

lemma keeps_addr_printf_send [addr_intros]: "(\<And>m. keeps_addr (send m)) \<Longrightarrow> keeps_addr (uh_printf_send n msg send)"
  by (simp add: uh_printf_send_def keeps_addr_ub)

lemma keeps_addr_sendhf [addr_intros]: "keeps_addr (uh_http_sendhf code summary msg)"
proof -
  have "keeps_addr (uh_http_sendc data)" for data unfolding uh_http_sendc_def by (intro addr_intros)
  then show ?thesis unfolding uh_http_sendhf_def by (intro addr_intros)
qed

lemma keeps_addr_header_parse [addr_intros]: "keeps_addr (uh_http_header_parse buffer buflen)"
proof -
  have "keeps_addr (reject code msg)" for code msg
    unfolding reject_def uh_http_response_def by (intro addr_intros)
  then show ?thesis
    by (auto simp: uh_http_header_parse_def Let_def intro: keeps_addr_return split: option.splits prod.splits)
qed

lemma rx_frame_addr: "rx_frame c c' \<Longrightarrow> servaddr c' = servaddr c \<and> peeraddr c' = peeraddr c"
  by (simp add: rx_frame_def)

lemma keeps_addr_tcp_recv [addr_intros]: "keeps_addr (uh_tcp_recv len)"
proof -
  have "servaddr (snd (run_state (uh_tcp_recv len) c)) = servaddr c \<and>
      peeraddr (snd (run_state (uh_tcp_recv len) c)) = peeraddr c" for c
  proof -
    obtain n d c' where r: "run_state (uh_tcp_recv len) c = ((n, d), c')" by (metis prod.exhaust)
    from uh_tcp_recv_moves [OF r] r show ?thesis by (simp add: read_moves_def rx_frame_def)
  qed
  then show ?thesis by (simp add: keeps_addr_def)
qed

lemma keeps_addr_select_read [addr_intros]: "keeps_addr select_read"
  by (simp add: keeps_addr_def select_read_def split: list.splits rx_event.splits)

lemma keeps_addr_tcp_peek [addr_intros]: "keeps_addr (uh_tcp_peek len)"
proof -
  have "keeps_addr (do { c \<leftarrow> get_conn; _ \<leftarrow> put_conn (c\<lparr>peekbuf := b\<rparr>); return x })" for b x
    by (simp add: keeps_addr_def)
  then show ?thesis unfolding uh_tcp_peek_def
    by (intro keeps_addr_bind keeps_addr_tcp_recv) (auto intro: addr_intros split: prod.splits)
qed

lemma keeps_addrD:
  "keeps_addr m \<Longrightarrow> run_state m c = (r, c') \<Longrightarrow> servaddr c' = servaddr c \<and> peeraddr c' = peeraddr c"
  by (metis keeps_addr_def snd_conv)

lemma header_recv_addr:
  "header_recv blen buffer c = (r, c') \<Longrightarrow> servaddr c' = servaddr c \<and> peeraddr c' = peeraddr c"
proof (induction blen buffer c rule: header_recv.induct)
  case (1 blen buffer c)
  have rj: "keeps_addr (reject code msg)" for code msg
    unfolding reject_def uh_http_response_def by (intro addr_intros)
  show ?case
  proof (cases "0 < blen")
    case False
    with 1(2) keeps_addrD [OF rj] show ?thesis by (simp add: header_recv.simps)
  next
    case True
    obtain b c1 where s: "run_state select_read c = (b, c1)" by (metis prod.exhaust)
    note a1 = keeps_addrD [OF keeps_addr_select_read s]
    show ?thesis
    proof (cases b)
      case False
      with 1(2) True s a1 show ?thesis by (simp add: header_recv.simps [of blen])
    next
      case bt: True
      with s have s': "run_state select_read c = (True, c1)" by simp
      let ?off = "UH_LIMIT_MSGHEAD - 1 - blen"
      obtain rlen d c2 where p: "run_state (uh_tcp_peek blen) c1 = ((rlen, d), c2)" by (metis prod.exhaust)
      note a2 = keeps_addrD [OF keeps_addr_tcp_peek p]
      let ?b = "put_at buffer ?off d"
      let ?n = "case strfind ?b (int UH_LIMIT_MSGHEAD) (CRLF @ CRLF) of Some idx \<Rightarrow> idx + 4 - ?off | None \<Rightarrow> nat rlen"
      obtain r3 d' c3 where q: "run_state (uh_tcp_recv ?n) c2 = ((r3, d'), c3)" by (metis prod.exhaust)
      note a3 = keeps_addrD [OF keeps_addr_tcp_recv q]
      show ?thesis
      proof (cases "strfind ?b (int UH_LIMIT_MSGHEAD) (CRLF @ CRLF)")
        case (Some idx)
        then show ?thesis using 1(2) True s bt p q a1 a2 a3
          keeps_addrD [OF keeps_addr_header_parse, of "put_at ?b ?off d'" "?off + nat r3" c3 r c']
          by (simp add: header_recv.simps [of blen] Let_def split: if_splits)
      next
        case None
        have "rlen < 0 \<or> r3 \<le> 0 \<or> header_recv (blen - nat r3) (put_at ?b ?off d') c3 = (r, c')"
          using 1(2) True s bt p q None by (simp add: header_recv.simps [of blen] Let_def split: if_splits)
        moreover have "\<lbrakk>rlen < 0 \<or> r3 \<le> 0\<rbrakk> \<Longrightarrow> c' = c2 \<or> c' = c3"
          using 1(2) True s bt p q None by (simp add: header_recv.simps [of blen] Let_def split: if_splits)
        moreover have "servaddr c' = servaddr c3 \<and> peeraddr c' = peeraddr c3"
          if "\<not> (rlen < 0 \<or> r3 \<le> 0)" "header_recv (blen - nat r3) (put_at ?b ?off d') c3 = (r, c')"
          using 1(1) [OF True s' [symmetric] refl refl p [symmetric] refl _ refl None] q None that by auto
        ultimately show ?thesis using a1 a2 a3 by metis
      qed
    qed
  qed
qed

text \<open>What a dispatched request, and what a log entry has to satisfy.\<close>

definition entry_safe :: "httpd \<Rightarrow> http_request \<Rightarrow> path_info \<Rightarrow> bool" where
  "entry_safe h req pin \<longleftrightarrow> authorized h req (pi_name pin) \<and>
     pi_phys pin = docroot (h_conf h) @ pi_name pin \<and>
     (pi_name pin = [] \<or> hd (pi_name pin) = CHR ''/'' \<or> (docroot (h_conf h) \<noteq> [] \<and> last (docroot (h_conf h)) = CHR ''/'')) \<and>
     (pi_redirected pin \<longrightarrow> redirect_status req = 404)"

definition entry_ok :: "httpd \<Rightarrow> client \<times> outcome \<times> conn \<Rightarrow> bool" where
  "entry_ok h e = (case e of
      (cl, Dispatched req pin how, c) \<Rightarrow> entry_safe h req pin \<and>
        \<not> (rfc1918_filter (h_conf h) \<and> sa_rfc1918 (c_peeraddr cl) \<and> \<not> sa_rfc1918 (c_servaddr cl))
    | _ \<Rightarrow> True)"

lemma error_page_safe:
  assumes "run_state (error_page h env req) c = (Dispatched req' pin how, c')"
    and "realpath_ok (e_fs env)"
  shows "entry_safe h req' pin"
proof -
  obtain po c1 where l: "run_state (uh_path_lookup (e_fs env) (h_conf h) (error_handler (h_conf h))) c = (po, c1)"
    by (metis prod.exhaust)
  with assms(1) obtain p where p: "po = Some p"
    by (cases po) (auto simp: error_page_def send_404_def split: prod.splits)
  obtain req1 ok c2 where a: "run_state (uh_auth_check (h_crypt h) (h_conf h) (h_realms h) req p) c1 = ((req1, ok), c2)"
    by (metis prod.exhaust)
  with assms(1) l p have ok: "ok" and r: "req' = req1\<lparr>redirect_status := 404\<rparr>" "pin = p"
    by (auto simp: error_page_def send_404_def Let_def split: prod.splits if_splits)
  have "authorized h req' (pi_name p)"
    using uh_auth_check_authorized [of h "h_conf h" req p c1 req1 c2] a ok r(1) by simp
  with uh_path_lookup_below [OF l [unfolded p] assms(2)] r show ?thesis by (simp add: entry_safe_def)
qed

lemma handle_request_safe:
  assumes "run_state (handle_request h env req) c = (Dispatched req' pin how, c')"
    and "realpath_ok (e_fs env)"
  shows "entry_safe h req' pin \<and> \<not> (rfc1918_filter (h_conf h) \<and> sa_rfc1918 (peeraddr c) \<and> \<not> sa_rfc1918 (servaddr c))"
proof -
  have f: "\<not> (rfc1918_filter (h_conf h) \<and> sa_rfc1918 (peeraddr c) \<and> \<not> sa_rfc1918 (servaddr c))"
  proof
    assume "rfc1918_filter (h_conf h) \<and> sa_rfc1918 (peeraddr c) \<and> \<not> sa_rfc1918 (servaddr c)"
    with assms(1) show False by (auto simp: handle_request_def split: prod.splits)
  qed
  have m: "lua_matches (h_conf h) req = Val False"
  proof (cases "lua_matches (h_conf h) req")
    case UB
    with assms(1) f show ?thesis by (auto simp: handle_request_def split: prod.splits)
  next
    case (Val b)
    with assms(1) f show ?thesis by (cases b) (auto simp: handle_request_def split: prod.splits)
  qed
  obtain po c1 where l: "run_state (uh_path_lookup (e_fs env) (h_conf h) (Some (req_url req))) c = (po, c1)"
    by (metis prod.exhaust)
  show ?thesis
  proof (cases po)
    case None
    with assms(1) f m l have "run_state (error_page h env req) c1 = (Dispatched req' pin how, c')"
      by (simp add: handle_request_def)
    from error_page_safe [OF this assms(2)] f show ?thesis by simp
  next
    case (Some p)
    obtain req1 ok c2 where a: "run_state (uh_auth_check (h_crypt h) (h_conf h) (h_realms h) req p) c1 = ((req1, ok), c2)"
      by (metis prod.exhaust)
    with assms(1) f m l Some have ok: "ok" "req' = req1" "pin = p" "\<not> pi_redirected p"
      by (auto simp: handle_request_def split: prod.splits if_splits)
    with uh_auth_check_authorized [of h "h_conf h" req p c1 req1 c2] a
      uh_path_lookup_below [OF l [unfolded Some] assms(2)] f show ?thesis by (simp add: entry_safe_def)
  qed
qed

lemma serve_client_entry:
  assumes "run_state (serve_client h env) (client_conn cl env) = (out, c)"
    and "realpath_ok (e_fs env)"
  shows "entry_ok h (cl, out, c)"
proof (cases out)
  case (Dispatched req' pin how)
  obtain r c1 where r: "header_recv (UH_LIMIT_MSGHEAD - 1) (replicate UH_LIMIT_MSGHEAD NUL) (client_conn cl env) = (r, c1)"
    by (metis prod.exhaust)
  with assms(1) Dispatched obtain req where "r = Some req" "run_state (handle_request h env req) c1 = (Dispatched req' pin how, c)"
    by (cases r) (auto simp: serve_client_def uh_http_header_recv_def)
  from handle_request_safe [OF this(2) assms(2)] header_recv_addr [OF r] Dispatched show ?thesis
    by (simp add: entry_ok_def client_conn_def)
qed (simp_all add: entry_ok_def)

lemma handle_fd_log:
  assumes "handle_fd h fd ev s = Some s'" and "event_ok fd ev s" and "list_all (entry_ok h) (sv_log s)"
  shows "list_all (entry_ok h) (sv_log s')"
proof (cases ev)
  case (Ready env)
  with assms(2) have fd: "fd \<notin> serv_fds s" and rp: "realpath_ok (e_fs env)" by (simp_all add: event_ok_def)
  show ?thesis
  proof (cases "uh_client_lookup (sv_clients s) fd")
    case None
    with assms(1,3) Ready fd show ?thesis by (auto simp: handle_fd_def drop_client_def)
  next
    case (Some cl)
    obtain out c where r: "run_state (serve_client h env) (client_conn cl env) = (out, c)" by (metis prod.exhaust)
    with assms(1) Ready fd Some have "sv_log s' = sv_log s @ [(cl, out, c)]"
      by (auto simp: handle_fd_def drop_client_def Let_def)
    with serve_client_entry [OF r rp] assms(3) show ?thesis by simp
  qed
next
  case (Accepted new_fd mem net ssl)
  have "sv_log (accept_client h new_fd mem net ssl l s) = sv_log s" for l
    by (auto simp: accept_client_def Let_def split: prod.splits option.splits)
  with assms(1,3) Accepted show ?thesis by (auto simp: handle_fd_def split: if_splits)
qed (use assms in \<open>auto simp: handle_fd_def split: if_splits\<close>)

lemma log_reachable:
  assumes "(uh_mainloop h)\<^sup>*\<^sup>* x y" and "list_all (entry_ok h) (sv_log (snd x))"
  shows "list_all (entry_ok h) (sv_log (snd y))"
  using assms(1)
proof (induction rule: rtranclp_induct)
  case (step y z)
  from step(2) show ?case
  proof cases
    case (handle cur_fd s read_fds ev s')
    with handle_fd_log [OF handle(6,5)] step(3) show ?thesis by simp
  qed (use step in simp_all)
qed (use assms in simp)

text \<open>
  What holds of every request that was handed to a program or answered with a file since the main
  loop was entered; the start of the server is put before it where it is modelled.
\<close>

lemma mainloop_dispatches:
  assumes "(uh_mainloop h)\<^sup>*\<^sup>* (At_Select, s0) (p, s)" and "server_start s0"
    and "(cl, Dispatched req pin how, c) \<in> set (sv_log s)"
  shows "entry_safe h req pin \<and>
    \<not> (rfc1918_filter (h_conf h) \<and> sa_rfc1918 (c_peeraddr cl) \<and> \<not> sa_rfc1918 (c_servaddr cl))"
proof -
  have "list_all (entry_ok h) (sv_log s)"
    using log_reachable [OF assms(1)] assms(2) by (simp add: server_start_def)
  with assms(3) show ?thesis by (auto simp: list_all_iff entry_ok_def)
qed

text \<open>A connection on descriptor 5 is accepted in one pass and its request served in the next.\<close>

lemma skip_many:
  assumes "a \<le> b" and "b \<le> max_fd s + 1" and "\<forall>fd\<in>r. \<not> (a \<le> fd \<and> fd < b)"
  shows "(uh_mainloop h)\<^sup>*\<^sup>* (Scan a r, s) (Scan b r, s)"
  using assms
proof (induction "nat (b - a)" arbitrary: a)
  case (Suc n)
  have "uh_mainloop h (Scan a r, s) (Scan (a + 1) r, s)" using Suc.prems Suc.hyps by (intro uh_mainloop.skip) auto
  moreover have "(uh_mainloop h)\<^sup>*\<^sup>* (Scan (a + 1) r, s) (Scan b r, s)" using Suc by auto
  ultimately show ?case by (rule converse_rtranclp_into_rtranclp)
qed simp

lemma pass_over:
  assumes "uh_mainloop h (Scan fd {fd}, s) (Scan (fd + 1) {fd}, s')" and "fd \<in> used_fds s" and "0 \<le> fd" and "fd \<le> max_fd s"
    and "fd \<le> max_fd s'"
  shows "(uh_mainloop h)\<^sup>*\<^sup>* (At_Select, s) (At_Select, s')"
proof -
  have "uh_mainloop h (At_Select, s) (Scan 0 {fd}, s)" using assms(2) by (intro uh_mainloop.select) simp
  moreover have "(uh_mainloop h)\<^sup>*\<^sup>* (Scan 0 {fd}, s) (Scan fd {fd}, s)" using assms(3,4) by (intro skip_many) auto
  moreover have "(uh_mainloop h)\<^sup>*\<^sup>* (Scan (fd + 1) {fd}, s') (Scan (max_fd s' + 1) {fd}, s')"
    using assms(5) by (intro skip_many) auto
  moreover have "uh_mainloop h (Scan (max_fd s' + 1) {fd}, s') (At_Select, s')" by (intro uh_mainloop.scanned) simp
  ultimately show ?thesis using assms(1) by (meson converse_rtranclp_into_rtranclp rtranclp.rtrancl_into_rtrancl rtranclp_trans)
qed

definition demo_ssl :: ssl_results where
  "demo_ssl = \<lparr>ssl_new = True, ssl_set_fd = 1, ssl_accept = 1\<rparr>"

definition demo_get :: http_request where
  "demo_get = demo_req\<lparr>req_url := traversal_url\<rparr>"

definition demo_env :: request_env where
  "demo_env = \<lparr>e_rx = [RxData (request_text demo_get)], e_txq = [], e_fs = demo_fs,
     e_files = \<lparr>contents = \<lambda>p. None, entries = \<lambda>p. []\<rparr>, e_now = 0, e_cgi = Runs [], e_lua = LuaRuns []\<rparr>"

lemma demo_serve:
  assumes "h_conf h = demo_conf\<lparr>cgi_prefix := Some ''/cgi-bin'', conf_realm := rn\<rparr>" and "h_realms h = [demo_realm]"
    and "h_interpreters h = []"
  shows "\<exists>pin c. run_state (serve_client h demo_env) (client_conn cl demo_env) = (Dispatched demo_get pin By_File, c) \<and>
     pi_phys pin = ''/w/..''"
proof -
  let ?pin = "\<lparr>pi_root = ''/w'', pi_phys = ''/w/..'', pi_name = ''/..'', pi_info = None, pi_query = None,
        pi_redirected = False, pi_stat = demo_stat\<rparr>"
  have wf: "wf_request demo_get" "length (request_text demo_get) < UH_LIMIT_MSGHEAD"
    by (simp_all add: wf_request_def demo_get_def demo_req_def traversal_url_def request_text_def request_line_def UH_LIMIT_MSGHEAD_def)
  have "request_text demo_get \<noteq> []" by (simp add: request_text_def)
  with header_recv_segments [OF wf, of "[]" "UH_LIMIT_MSGHEAD - 1" "[request_text demo_get]" "[]" "client_conn cl demo_env"]
  obtain c where r: "run_state uh_http_header_recv (client_conn cl demo_env) = (Some demo_get, c)"
    by (auto simp: client_conn_def demo_env_def uh_http_header_recv_def)
  have c: "docroot (conf\<lparr>cgi_prefix := x, conf_realm := y\<rparr>) = docroot conf"
    "no_symlinks (conf\<lparr>cgi_prefix := x, conf_realm := y\<rparr>) = no_symlinks conf"
    "index_file (conf\<lparr>cgi_prefix := x, conf_realm := y\<rparr>) = index_file conf" for conf :: config and x y by simp_all
  have "uh_path_lookup fs (conf\<lparr>cgi_prefix := x, conf_realm := y\<rparr>) u = uh_path_lookup fs conf u" for fs conf x y u
    unfolding uh_path_lookup_def lookup_decode_def lookup_dir_def resolve_with_def c by (rule refl)
  with traversal_result [of c] have l: "run_state (uh_path_lookup demo_fs (h_conf h) (Some (req_url demo_get))) c = (Some ?pin, c)"
    by (simp add: assms demo_get_def)
  have a: "run_state (uh_auth_check (h_crypt h) (h_conf h) (h_realms h) demo_get ?pin) c = ((demo_get, True), c)"
    by (simp add: uh_auth_check_def assms demo_realm_def realm_covers_def)
  have "fst (run_state (uh_dispatch_request h demo_env demo_get ?pin) c) = By_File"
    by (simp add: uh_dispatch_request_def assms uh_path_match_def strneq_def split: prod.split)
  then obtain c' where d: "run_state (uh_dispatch_request h demo_env demo_get ?pin) c = (By_File, c')"
    by (metis prod.collapse)
  have m: "lua_matches (h_conf h) demo_get = Val False" "rfc1918_filter (h_conf h) = False" "e_fs demo_env = demo_fs"
    by (simp_all add: lua_matches_def assms demo_conf_def demo_env_def)
  have "run_state (handle_request h demo_env demo_get) c = (Dispatched demo_get ?pin By_File, c')"
    by (simp add: handle_request_def m l a d)
  with r have "run_state (serve_client h demo_env) (client_conn cl demo_env) = (Dispatched demo_get ?pin By_File, c')"
    by (simp add: serve_client_def)
  moreover have "pi_phys ?pin = ''/w/..''" by simp
  ultimately show ?thesis by (intro exI conjI)
qed

lemma demo_run:
  assumes "h_conf h = demo_conf\<lparr>cgi_prefix := Some ''/cgi-bin'', conf_realm := rn\<rparr>" and "h_realms h = [demo_realm]"
    and "h_interpreters h = []" and "s0 = demo_server\<lparr>sv_listeners := [l]\<rparr>" and "ls_socket l = 3"
  shows "\<exists>s cl pin c. (uh_mainloop h)\<^sup>*\<^sup>* (At_Select, s0) (At_Select, s) \<and>
     (cl, Dispatched demo_get pin By_File, c) \<in> set (sv_log s) \<and> pi_phys pin = ''/w/..''"
proof -
  let ?cl = "\<lparr>c_socket = 5, c_server = l, c_servaddr = getsockname demo_net 5,
     c_peeraddr = getpeername demo_net 5, c_tls = False\<rparr>"
  let ?s1 = "s0\<lparr>sv_open := {5, 3}, sv_clients := [?cl], used_fds := {5, 3}, max_fd := 5\<rparr>"
  have t: "conf_tls (h_conf h) = False" by (simp add: assms(1) demo_conf_def)
  have "handle_fd h 3 (Accepted 5 True demo_net demo_ssl) s0 = Some ?s1"
    by (simp add: handle_fd_def demo_server_def assms(4,5) accept_client_def uh_client_add_def put_client_def t Let_def)
  from uh_mainloop.handle [OF _ _ _ this, of "{3}"]
  have 1: "uh_mainloop h (Scan 3 {3}, s0) (Scan (3 + 1) {3}, ?s1)"
    by (simp add: event_ok_def demo_server_def assms(4))
  from demo_serve [OF assms(1-3), of ?cl] obtain pin c where
    r: "run_state (serve_client h demo_env) (client_conn ?cl demo_env) = (Dispatched demo_get pin By_File, c)"
    and phys: "pi_phys pin = ''/w/..''" by blast
  let ?s2 = "drop_client 5 (?s1\<lparr>sv_log := [(?cl, Dispatched demo_get pin By_File, c)]\<rparr>)"
  have "handle_fd h 5 (Ready demo_env) ?s1 = Some ?s2"
    by (simp add: handle_fd_def demo_server_def assms(4) r t)
  moreover have "event_ok 5 (Ready demo_env) ?s1"
    by (simp add: event_ok_def demo_server_def demo_env_def realpath_ok_def demo_fs_def assms(4))
  ultimately have 2: "uh_mainloop h (Scan 5 {5}, ?s1) (Scan (5 + 1) {5}, ?s2)"
    using uh_mainloop.handle [of 5 ?s1 "{5}" "Ready demo_env" h ?s2] by simp
  have "(uh_mainloop h)\<^sup>*\<^sup>* (At_Select, s0) (At_Select, ?s1)"
    using 1 by (rule pass_over) (simp_all add: demo_server_def assms(4))
  moreover have "(uh_mainloop h)\<^sup>*\<^sup>* (At_Select, ?s1) (At_Select, ?s2)"
    using 2 by (rule pass_over) (simp_all add: drop_client_def)
  ultimately have reach: "(uh_mainloop h)\<^sup>*\<^sup>* (At_Select, s0) (At_Select, ?s2)" by (rule rtranclp_trans)
  have "(?cl, Dispatched demo_get pin By_File, c) \<in> set (sv_log ?s2)" by (simp add: drop_client_def)
  with reach phys show ?thesis by (intro exI conjI)
qed

end
