(* ===== verification/Uh_Main.thy ===== *)
theory Uh_Main
  imports Uh_Server
begin

text \<open>
  Starting the server (\<^verbatim>\<open>uhttpd.c\<close>, \<^verbatim>\<open>uhttpd-tls.c\<close>): the configuration file, binding the listening
  sockets, loading the plugins and the command line, up to the main loop. The options arrive as
  \<^verbatim>\<open>getopt()\<close> delivers them; leaving the process is a value. What the system calls and the plugins
  answer is a parameter.
\<close>

section \<open>The configuration file\<close>

text \<open>The string before the first \<open>c\<close>, and the string behind it.\<close>

definition cut_at :: "char \<Rightarrow> string \<Rightarrow> (string \<times> string) option" where
  "cut_at c s = map_option (\<lambda>k. (take k s, drop (Suc k) s)) (strchr s c)"

record tables =
  t_conf :: config
  t_realms :: "auth_realm list"
  t_interpreters :: "interpreter list"

text \<open>A column that ends at the newline.\<close>

definition to_eol :: "string \<Rightarrow> string option" where
  "to_eol s = map_option fst (cut_at LF s)"

definition config_line :: "bool \<Rightarrow> pwdb \<Rightarrow> string \<Rightarrow> tables \<Rightarrow> tables" where
  "config_line mem db line t =
     (if char_at line 0 = CHR ''/'' \<and> strchr line (CHR '':'') \<noteq> None
      then case cut_at (CHR '':'') line of
          None \<Rightarrow> t
        | Some (path, r1) \<Rightarrow> (case cut_at (CHR '':'') r1 of
            None \<Rightarrow> t
          | Some (user, r2) \<Rightarrow> (case to_eol r2 of
              None \<Rightarrow> t
            | Some pass \<Rightarrow> t\<lparr>t_realms := snd (uh_auth_add mem db path user pass (t_realms t))\<rparr>))
      else if strneq line ''I:'' 2
      then case cut_at (CHR '':'') line of
          None \<Rightarrow> t
        | Some (_, r1) \<Rightarrow> (case to_eol r1 of
            None \<Rightarrow> t
          | Some f \<Rightarrow> t\<lparr>t_conf := (t_conf t)\<lparr>index_file := (if mem then Some f else None)\<rparr>\<rparr>)
      else if strneq line ''E404:'' 5
      then case cut_at (CHR '':'') line of
          None \<Rightarrow> t
        | Some (_, r1) \<Rightarrow> (case to_eol r1 of
            None \<Rightarrow> t
          | Some f \<Rightarrow> t\<lparr>t_conf := (t_conf t)\<lparr>error_handler := (if mem then Some f else None)\<rparr>\<rparr>)
      else if char_at line 0 = CHR ''*'' \<and> strchr line (CHR '':'') \<noteq> None
      then case cut_at (CHR ''*'') line of
          None \<Rightarrow> t
        | Some (_, r1) \<Rightarrow> (case cut_at (CHR '':'') r1 of
            None \<Rightarrow> t
          | Some (extn, r2) \<Rightarrow> (case to_eol r2 of
              None \<Rightarrow> t
            | Some path \<Rightarrow> t\<lparr>t_interpreters := snd (uh_interpreter_add mem extn path (t_interpreters t))\<rparr>))
      else t)"

text \<open>\<open>file\<close> is the content of a file that can be opened; \<open>mem\<close> whether there is memory for the i-th line.\<close>

fun config_lines :: "(nat \<Rightarrow> bool) \<Rightarrow> pwdb \<Rightarrow> nat \<Rightarrow> string list \<Rightarrow> tables \<Rightarrow> tables" where
  "config_lines mem db i [] t = t"
| "config_lines mem db i (l # ls) t = config_lines mem db (Suc i) ls (config_line (mem i) db (cstr l) t)"

definition uh_config_parse :: "(string \<Rightarrow> string option) \<Rightarrow> (nat \<Rightarrow> bool) \<Rightarrow> pwdb \<Rightarrow> tables \<Rightarrow> tables" where
  "uh_config_parse file mem db t =
     (case file (case conf_file (t_conf t) of Some f \<Rightarrow> f | None \<Rightarrow> ''/etc/httpd.conf'') of
        None \<Rightarrow> t
      | Some s \<Rightarrow> config_lines mem db 0 (fgets_lines 510 s) t)"

section \<open>Binding sockets\<close>

text \<open>
  What the system calls answer for one address: the descriptor of \<^verbatim>\<open>socket()\<close> (\<^verbatim>\<open>-1\<close>: none), whether
  the calls of \<^verbatim>\<open>setsockopt()\<close>, \<^verbatim>\<open>bind()\<close> and \<^verbatim>\<open>listen()\<close> succeed and whether there is memory.
\<close>

record bind_try =
  bt_sock :: int
  bt_reuse :: bool
  bt_inet6 :: bool
  bt_v6only :: bool
  bt_bind :: bool
  bt_listen :: bool
  bt_mem :: bool

record bind_state =
  b_serv_fds :: "int set"
  b_max_fd :: int
  b_listeners :: "listener list"
  b_open :: "int set"

text \<open>The label \<^verbatim>\<open>error\<close>: a descriptor 0 is not closed.\<close>

definition bind_error :: "int \<Rightarrow> bind_state \<Rightarrow> bind_state" where
  "bind_error sock b = (if sock > 0 then b\<lparr>b_open := b_open b - {sock}\<rparr> else b)"

definition bind_one :: "netenv \<Rightarrow> config \<Rightarrow> bool \<Rightarrow> bind_try \<Rightarrow> bind_state \<Rightarrow> nat \<times> bind_state" where
  "bind_one net conf do_tls a b =
     (let sock = bt_sock a; b0 = (if sock = - 1 then b else b\<lparr>b_open := insert sock (b_open b)\<rparr>)
      in if sock = - 1 \<or> \<not> bt_reuse a \<or> (bt_inet6 a \<and> \<not> bt_v6only a) \<or> \<not> bt_bind a \<or> \<not> bt_listen a
         then (0, bind_error sock b0)
         else case uh_listener_add (bt_mem a) net sock conf (b_listeners b0) of
             (None, ls) \<Rightarrow> (0, bind_error sock b0)
           | (Some l, ls) \<Rightarrow>
               (1, b0\<lparr>b_listeners := l\<lparr>ls_tls := (do_tls \<and> conf_tls conf)\<rparr> # tl ls,
                      b_serv_fds := insert sock (b_serv_fds b0), b_max_fd := max (b_max_fd b0) sock\<rparr>))"

fun uh_socket_bind :: "netenv \<Rightarrow> config \<Rightarrow> bool \<Rightarrow> bind_try list \<Rightarrow> bind_state \<Rightarrow> nat \<times> bind_state" where
  "uh_socket_bind net conf do_tls [] b = (0, b)"
| "uh_socket_bind net conf do_tls (a # as) b =
     (let (n, b1) = bind_one net conf do_tls a b; (m, b2) = uh_socket_bind net conf do_tls as b1 in (n + m, b2))"

section \<open>The TLS plugin\<close>

text \<open>
  What loading the plugin meets: whether \<^verbatim>\<open>dlopen()\<close> succeeds, whether all symbols are there, whether
  \<^verbatim>\<open>SSL_CTX_new()\<close> succeeds, and what the TLS library says to a certificate or key file in the PEM
  and in the ASN.1 format.
\<close>

record tls_env =
  tls_dlopen :: bool
  tls_dlsym :: bool
  ssl_ctx_new :: bool
  use_certificate :: "string \<Rightarrow> bool \<Rightarrow> int"
  use_privatekey :: "string \<Rightarrow> bool \<Rightarrow> int"

definition uh_tls_ctx_init :: "tls_env \<Rightarrow> bool" where
  "uh_tls_ctx_init te = ssl_ctx_new te"

definition uh_tls_ctx_cert :: "tls_env \<Rightarrow> string \<Rightarrow> int" where
  "uh_tls_ctx_cert te f = (let rv = use_certificate te f True in if rv < 1 then use_certificate te f False else rv)"

definition uh_tls_ctx_key :: "tls_env \<Rightarrow> string \<Rightarrow> int" where
  "uh_tls_ctx_key te f = (let rv = use_privatekey te f True in if rv < 1 then use_privatekey te f False else rv)"

text \<open>Leaving the process: its status and what it printed.\<close>

datatype exit = Exit nat string | Crash

definition uh_inittls :: "tls_env \<Rightarrow> config \<Rightarrow> exit + (bool \<times> config)" where
  "uh_inittls te conf =
     (if conf_tls conf then Inr (False, conf)
      else if \<not> tls_dlopen te then Inr (True, conf)
      else if \<not> tls_dlsym te then Inl (Exit 1 ''Error: Failed to lookup required symbols in TLS plugin'')
      else if \<not> uh_tls_ctx_init te then Inl (Exit 1 ''Error: Failed to initalize SSL context'')
      else Inr (False, conf\<lparr>conf_tls := True\<rparr>))"

section \<open>The command line\<close>

datatype lua_plugin = NoLuaPlugin | LuaSymbolsMissing | LuaPlugin lua_status "lua_status \<times> string" bool
datatype fork_result = ForkFailed | ForkChild | ForkParent

text \<open>
  What the system contributes to the start: \<open>su_bind i host port\<close> is what resolving and binding
  meets for the i-th option, \<open>su_mem\<close> and \<open>su_mem_file\<close> whether there is memory for the i-th option
  and for the i-th line of the configuration file.
\<close>

record startup =
  su_tls :: tls_env
  su_bind :: "nat \<Rightarrow> string option \<Rightarrow> string \<Rightarrow> bind_try list"
  su_net :: netenv
  su_realpath :: "string \<Rightarrow> string option"
  su_mem :: "nat \<Rightarrow> bool"
  su_mem_file :: "nat \<Rightarrow> bool"
  su_crypt :: "string \<Rightarrow> string \<Rightarrow> string option"
  su_straddr :: "sockaddr \<Rightarrow> string"
  su_db :: pwdb
  su_file :: "string \<Rightarrow> string option"
  su_lua :: lua_plugin
  su_fork :: fork_result

record main_state =
  ms_tables :: tables
  ms_bind :: bind_state
  ms_buf :: string
  ms_bound :: nat
  ms_tls :: bool
  ms_keys :: nat
  ms_nofork :: bool

abbreviation ms_conf :: "main_state \<Rightarrow> config" where
  "ms_conf ms \<equiv> t_conf (ms_tables ms)"

definition upd_conf :: "(config \<Rightarrow> config) \<Rightarrow> main_state \<Rightarrow> main_state" where
  "upd_conf f ms = ms\<lparr>ms_tables := (ms_tables ms)\<lparr>t_conf := f (ms_conf ms)\<rparr>\<rparr>"

text \<open>
  An \<open>[addr:]port\<close> argument: the buffer \<^verbatim>\<open>bind\<close> afterwards and the port. The address is copied over
  what the buffer holds.
\<close>

definition bind_arg :: "string \<Rightarrow> string \<Rightarrow> string \<times> string" where
  "bind_arg buf optarg = (case strrchr optarg (CHR '':'') of
      Some k \<Rightarrow>
        (let host = (if char_at optarg 0 = CHR ''['' \<and> k > 0 \<and> char_at optarg (k - 1) = CHR '']''
                     then take (k - 2) (drop 1 optarg) else take k optarg)
         in (put_at buf 0 (take 128 host), drop (Suc k) optarg))
    | None \<Rightarrow> (buf, optarg))"

definition bind_host :: "string \<Rightarrow> string option" where
  "bind_host buf = (if char_at buf 0 \<noteq> NUL then Some (cstr buf) else None)"

definition opt_bind :: "startup \<Rightarrow> nat \<Rightarrow> bool \<Rightarrow> string \<Rightarrow> main_state \<Rightarrow> exit + main_state" where
  "opt_bind su i ssl optarg ms =
     (let (buf, port) = bind_arg (ms_buf ms) optarg;
          do_bind = (\<lambda>ms1. if NUL \<notin> set buf then Inl Crash
             else let (n, b) = uh_socket_bind (su_net su) (ms_conf ms1) ssl (su_bind su i (bind_host buf) port) (ms_bind ms1)
                  in Inr (ms1\<lparr>ms_bind := b, ms_bound := ms_bound ms1 + n, ms_buf := replicate 128 NUL\<rparr>))
      in if ssl
         then case uh_inittls (su_tls su) (ms_conf ms) of
             Inl e \<Rightarrow> Inl e
           | Inr (True, conf) \<Rightarrow> Inr (ms\<lparr>ms_buf := buf\<rparr>)
           | Inr (False, conf) \<Rightarrow> do_bind ((upd_conf (\<lambda>_. conf) ms)\<lparr>ms_tls := True\<rparr>)
         else do_bind ms)"

definition opt_key :: "startup \<Rightarrow> (string \<Rightarrow> int) \<Rightarrow> string \<Rightarrow> string \<Rightarrow> main_state \<Rightarrow> exit + main_state" where
  "opt_key su use err optarg ms = (case uh_inittls (su_tls su) (ms_conf ms) of
      Inl e \<Rightarrow> Inl e
    | Inr (True, conf) \<Rightarrow> Inr ms
    | Inr (False, conf) \<Rightarrow>
        if use optarg < 1 then Inl (Exit 1 err)
        else Inr ((upd_conf (\<lambda>_. conf) ms)\<lparr>ms_keys := ms_keys ms + 1\<rparr>))"

definition opt_interpreter :: "startup \<Rightarrow> nat \<Rightarrow> string \<Rightarrow> main_state \<Rightarrow> exit + main_state" where
  "opt_interpreter su i optarg ms =
     (case (if char_at optarg 0 = CHR ''.'' then cut_at (CHR ''='') optarg else None) of
        Some (extn, path) \<Rightarrow> Inr (ms\<lparr>ms_tables := (ms_tables ms)\<lparr>t_interpreters :=
            snd (uh_interpreter_add (su_mem su i) extn path (t_interpreters (ms_tables ms)))\<rparr>\<rparr>)
      | None \<Rightarrow> Inl (Exit 1 (''Error: Invalid interpreter: '' @ optarg @ [LF])))"

definition opt_urldecode :: "startup \<Rightarrow> nat \<Rightarrow> string \<Rightarrow> main_state \<Rightarrow> exit + main_state" where
  "opt_urldecode su i optarg ms =
     (if su_mem su i
      then let s = map (\<lambda>c. if c = CHR ''+'' then CHR '' '' else c) optarg
           in Inl (Exit 0 (cstr (uh_urldecode (length s) s (length s))))
      else Inr ms)"

text \<open>The options that only set a field of the configuration.\<close>

definition conf_option :: "char \<Rightarrow> string \<Rightarrow> (config \<Rightarrow> config) option" where
  "conf_option opt optarg =
     (if opt = CHR ''S'' then Some (\<lambda>c. c\<lparr>no_symlinks := True\<rparr>)
      else if opt = CHR ''D'' then Some (\<lambda>c. c\<lparr>no_dirlists := True\<rparr>)
      else if opt = CHR ''R'' then Some (\<lambda>c. c\<lparr>rfc1918_filter := True\<rparr>)
      else if opt = CHR ''x'' then Some (\<lambda>c. c\<lparr>cgi_prefix := Some optarg\<rparr>)
      else if opt = CHR ''l'' then Some (\<lambda>c. c\<lparr>lua_prefix := Some optarg\<rparr>)
      else if opt = CHR ''L'' then Some (\<lambda>c. c\<lparr>lua_handler := Some optarg\<rparr>)
      else if opt = CHR ''t'' then Some (\<lambda>c. c\<lparr>script_timeout := atoi optarg\<rparr>)
      else if opt = CHR ''T'' then Some (\<lambda>c. c\<lparr>network_timeout := atoi optarg\<rparr>)
      else if opt = CHR ''A'' then Some (\<lambda>c. c\<lparr>tcp_keepalive := atoi optarg\<rparr>)
      else if opt = CHR ''r'' then Some (\<lambda>c. c\<lparr>conf_realm := Some optarg\<rparr>)
      else if opt = CHR ''c'' then Some (\<lambda>c. c\<lparr>conf_file := Some optarg\<rparr>)
      else None)"

text \<open>The end of the switch over the options.\<close>

definition main_option_rest :: "startup \<Rightarrow> nat \<Rightarrow> char \<Rightarrow> string \<Rightarrow> main_state \<Rightarrow> exit + main_state" where
  "main_option_rest su i opt optarg ms =
     (if opt = CHR ''f'' then Inr (ms\<lparr>ms_nofork := True\<rparr>)
      else if opt = CHR ''d'' then opt_urldecode su i optarg ms
      else if opt = CHR ''m''
      then (case su_crypt su optarg ''$1$'' of Some h \<Rightarrow> Inl (Exit 0 (h @ [LF])) | None \<Rightarrow> Inl Crash)
      else (case conf_option opt optarg of
              Some f \<Rightarrow> Inr (upd_conf f ms)
            | None \<Rightarrow> Inl (Exit 1 ''Usage'')))"

definition main_option :: "startup \<Rightarrow> nat \<Rightarrow> char \<times> string \<Rightarrow> main_state \<Rightarrow> exit + main_state" where
  "main_option su i oa ms = (case oa of (opt, optarg) \<Rightarrow>
     if opt = CHR ''p'' then opt_bind su i False optarg ms
     else if opt = CHR ''s'' then opt_bind su i True optarg ms
     else if opt = CHR ''C''
     then opt_key su (uh_tls_ctx_cert (su_tls su)) (''Error: Invalid certificate file given'' @ [LF]) optarg ms
     else if opt = CHR ''K''
     then opt_key su (uh_tls_ctx_key (su_tls su)) (''Error: Invalid private key file given'' @ [LF]) optarg ms
     else if opt = CHR ''h''
     then (case su_realpath su optarg of
             None \<Rightarrow> Inl (Exit 1 (''Error: Invalid directory '' @ optarg))
           | Some d \<Rightarrow> Inr (upd_conf (\<lambda>c. c\<lparr>docroot := d\<rparr>) ms))
     else if opt = CHR ''E''
     then if char_at optarg 0 \<noteq> CHR ''/'' then Inl (Exit 1 (''Error: Invalid error handler: '' @ optarg @ [LF]))
          else Inr (upd_conf (\<lambda>c. c\<lparr>error_handler := Some optarg\<rparr>) ms)
     else if opt = CHR ''I''
     then if optarg = [] \<or> char_at optarg 0 = CHR ''/'' then Inl (Exit 1 (''Error: Invalid index page: '' @ optarg @ [LF]))
          else Inr (upd_conf (\<lambda>c. c\<lparr>index_file := Some optarg\<rparr>) ms)
     else if opt = CHR ''i'' then opt_interpreter su i optarg ms
     else main_option_rest su i opt optarg ms)"

fun main_options :: "startup \<Rightarrow> nat \<Rightarrow> (char \<times> string) list \<Rightarrow> main_state \<Rightarrow> exit + main_state" where
  "main_options su i [] ms = Inr ms"
| "main_options su i (oa # oas) ms = (case main_option su i oa ms of
      Inl e \<Rightarrow> Inl e | Inr ms' \<Rightarrow> main_options su (Suc i) oas ms')"

definition main_init :: main_state where
  "main_init = \<lparr>ms_tables = \<lparr>t_conf = \<lparr>docroot = [], conf_realm = None, conf_file = None, index_file = None,
        error_handler = None, no_symlinks = False, no_dirlists = False, network_timeout = 0, rfc1918_filter = False,
        tcp_keepalive = 0, cgi_prefix = None, lua_prefix = None, lua_handler = None, lua_state = False,
        script_timeout = 0, conf_tls = False\<rparr>, t_realms = [], t_interpreters = []\<rparr>,
     ms_bind = \<lparr>b_serv_fds = {}, b_max_fd = 0, b_listeners = [], b_open = {}\<rparr>,
     ms_buf = replicate 128 NUL, ms_bound = 0, ms_tls = False, ms_keys = 0, ms_nofork = False\<rparr>"

section \<open>The rest of main\<close>

definition main_docroot :: "startup \<Rightarrow> config \<Rightarrow> exit + config" where
  "main_docroot su conf = (if char_at (docroot conf) 0 = NUL
     then case su_realpath su ''.'' of
         None \<Rightarrow> Inl (Exit 1 ''Error: Can not determine default document root'')
       | Some d \<Rightarrow> Inr (conf\<lparr>docroot := d\<rparr>)
     else Inr conf)"

definition main_defaults :: "config \<Rightarrow> config" where
  "main_defaults conf = conf\<lparr>
     network_timeout := (if network_timeout conf \<le> 0 then 30 else network_timeout conf),
     script_timeout := (if script_timeout conf \<le> 0 then 60 else script_timeout conf),
     cgi_prefix := (case cgi_prefix conf of None \<Rightarrow> Some ''/cgi-bin'' | Some p \<Rightarrow> Some p)\<rparr>"

definition main_lua :: "startup \<Rightarrow> config \<Rightarrow> exit + config" where
  "main_lua su conf = (case su_lua su of
      NoLuaPlugin \<Rightarrow> Inr conf
    | LuaSymbolsMissing \<Rightarrow> Inl (Exit 1 ''Error: Failed to lookup required symbols in Lua plugin'')
    | LuaPlugin load call isfun \<Rightarrow> (case lua_handler conf of
        None \<Rightarrow> Inr conf
      | Some f \<Rightarrow>
          (let conf1 = conf\<lparr>lua_prefix := (case lua_prefix conf of None \<Rightarrow> Some ''/lua'' | Some p \<Rightarrow> Some p)\<rparr>
           in case uh_lua_init load call isfun of
                Inl msg \<Rightarrow> Inl (Exit 1 msg)
              | Inr _ \<Rightarrow> Inr (conf1\<lparr>lua_state := True\<rparr>))))"

definition main_server :: "startup \<Rightarrow> main_state \<Rightarrow> tables \<Rightarrow> httpd \<times> server" where
  "main_server su ms t =
     (\<lparr>h_conf = t_conf t, h_realms = t_realms t, h_interpreters = t_interpreters t, h_crypt = su_crypt su,
       h_straddr = su_straddr su\<rparr>,
      \<lparr>serv_fds = b_serv_fds (ms_bind ms), used_fds = b_serv_fds (ms_bind ms), max_fd = b_max_fd (ms_bind ms),
       sv_listeners = b_listeners (ms_bind ms), sv_clients = [], sv_open = b_open (ms_bind ms), sv_log = []\<rparr>)"

text \<open>What follows the options, up to the main loop.\<close>

definition main_finish :: "startup \<Rightarrow> main_state \<Rightarrow> exit + (httpd \<times> server)" where
  "main_finish su ms =
     (if ms_tls ms \<and> ms_keys ms < 2 then Inl (Exit 1 (''Error: Missing private key or certificate file'' @ [LF]))
      else if ms_bound ms < 1 then Inl (Exit 1 (''Error: No sockets bound, unable to continue'' @ [LF]))
      else case main_docroot su (ms_conf ms) of
          Inl e \<Rightarrow> Inl e
        | Inr conf1 \<Rightarrow>
            (let conf2 = (case conf_realm conf1 of None \<Rightarrow> conf1\<lparr>conf_realm := Some ''Protected Area''\<rparr> | Some _ \<Rightarrow> conf1);
                 t = uh_config_parse (su_file su) (su_mem_file su) (su_db su) ((ms_tables ms)\<lparr>t_conf := conf2\<rparr>)
             in case main_lua su (main_defaults (t_conf t)) of
                  Inl e \<Rightarrow> Inl e
                | Inr conf3 \<Rightarrow>
                    if ms_nofork ms \<or> su_fork su = ForkChild then Inr (main_server su ms (t\<lparr>t_conf := conf3\<rparr>))
                    else if su_fork su = ForkParent then Inl (Exit 0 [])
                    else Inl (Exit 1 ''fork()'')))"

definition main :: "startup \<Rightarrow> (char \<times> string) list \<Rightarrow> exit + (httpd \<times> server)" where
  "main su opts = (case main_options su 0 opts main_init of Inl e \<Rightarrow> Inl e | Inr ms \<Rightarrow> main_finish su ms)"

section \<open>A started server is ready\<close>

text \<open>The kernel: a descriptor \<^verbatim>\<open>socket()\<close> returns is not open.\<close>

fun tries_fresh :: "netenv \<Rightarrow> config \<Rightarrow> bool \<Rightarrow> bind_try list \<Rightarrow> bind_state \<Rightarrow> bool" where
  "tries_fresh net conf do_tls [] b = True"
| "tries_fresh net conf do_tls (a # as) b \<longleftrightarrow>
     (bt_sock a = - 1 \<or> (0 \<le> bt_sock a \<and> bt_sock a \<notin> b_open b)) \<and>
     tries_fresh net conf do_tls as (snd (bind_one net conf do_tls a b))"

definition bind_inv :: "bind_state \<Rightarrow> bool" where
  "bind_inv b \<longleftrightarrow> b_serv_fds b = ls_socket ` set (b_listeners b) \<and> b_serv_fds b \<subseteq> b_open b \<and>
     (\<forall>fd\<in>b_serv_fds b. 0 \<le> fd \<and> fd \<le> b_max_fd b)"

definition tls_listeners :: "config \<Rightarrow> bind_state \<Rightarrow> bool" where
  "tls_listeners conf b \<longleftrightarrow> (\<forall>l\<in>set (b_listeners b). ls_tls l \<longrightarrow> conf_tls conf)"

lemma bind_one_inv:
  assumes "bind_one net conf do_tls a b = (n, b')" and "bind_inv b"
    and "bt_sock a = - 1 \<or> (0 \<le> bt_sock a \<and> bt_sock a \<notin> b_open b)"
  shows "bind_inv b' \<and> length (b_listeners b') = length (b_listeners b) + n \<and>
    (tls_listeners conf b \<longrightarrow> tls_listeners conf b')"
proof -
  let ?b0 = "if bt_sock a = - 1 then b else b\<lparr>b_open := insert (bt_sock a) (b_open b)\<rparr>"
  let ?bad = "bt_sock a = - 1 \<or> \<not> bt_reuse a \<or> (bt_inet6 a \<and> \<not> bt_v6only a) \<or> \<not> bt_bind a \<or> \<not> bt_listen a"
  have err: "bind_inv (bind_error (bt_sock a) ?b0) \<and> b_listeners (bind_error (bt_sock a) ?b0) = b_listeners b"
  proof -
    have "0 < bt_sock a \<Longrightarrow> bt_sock a \<notin> b_serv_fds b" using assms(2,3) by (auto simp: bind_inv_def)
    then have "bind_inv (bind_error (bt_sock a) ?b0)"
      using assms(2) unfolding bind_inv_def bind_error_def by (simp, blast)
    then show ?thesis by (simp add: bind_error_def)
  qed
  show ?thesis
  proof (cases "?bad \<or> \<not> bt_mem a")
    case True
    then have "(n, b') = (0, bind_error (bt_sock a) ?b0)"
      using assms(1) by (auto simp: bind_one_def uh_listener_add_def Let_def split: if_splits)
    with err show ?thesis by (simp add: tls_listeners_def)
  next
    case False
    let ?l = "\<lparr>ls_socket = bt_sock a, ls_addr = getsockname net (bt_sock a), ls_conf = conf, ls_tls = do_tls \<and> conf_tls conf\<rparr>"
    have "n = 1" and b': "b' = b\<lparr>b_open := insert (bt_sock a) (b_open b), b_listeners := ?l # b_listeners b,
        b_serv_fds := insert (bt_sock a) (b_serv_fds b), b_max_fd := max (b_max_fd b) (bt_sock a)\<rparr>"
      using assms(1) False by (auto simp: bind_one_def uh_listener_add_def Let_def)
    have "0 \<le> bt_sock a" using assms(3) False by auto
    with assms(2) have "bind_inv b'" unfolding b' bind_inv_def by (auto simp: le_max_iff_disj)
    moreover have "tls_listeners conf b \<longrightarrow> tls_listeners conf b'" unfolding b' by (simp add: tls_listeners_def)
    ultimately show ?thesis using \<open>n = 1\<close> b' by simp
  qed
qed

lemma uh_socket_bind_inv:
  "uh_socket_bind net conf do_tls as b = (n, b') \<Longrightarrow> bind_inv b \<Longrightarrow> tries_fresh net conf do_tls as b \<Longrightarrow>
     bind_inv b' \<and> length (b_listeners b') = length (b_listeners b) + n \<and>
     (tls_listeners conf b \<longrightarrow> tls_listeners conf b')"
proof (induction as arbitrary: b n b')
  case (Cons a as)
  obtain k b1 where o: "bind_one net conf do_tls a b = (k, b1)" by (metis prod.exhaust)
  obtain m b2 where r: "uh_socket_bind net conf do_tls as b1 = (m, b2)" by (metis prod.exhaust)
  from Cons.prems(1) o r have e: "n = k + m" "b' = b2" by auto
  from Cons.prems(3) o have f: "bt_sock a = - 1 \<or> (0 \<le> bt_sock a \<and> bt_sock a \<notin> b_open b)" "tries_fresh net conf do_tls as b1"
    by auto
  from bind_one_inv [OF o Cons.prems(2) f(1)] Cons.IH [OF r _ f(2)] e show ?case by auto
qed simp

text \<open>Freshness along the options that bind sockets.\<close>

definition option_fresh :: "startup \<Rightarrow> nat \<Rightarrow> char \<times> string \<Rightarrow> main_state \<Rightarrow> bool" where
  "option_fresh su i oa ms = (let (buf, port) = bind_arg (ms_buf ms) (snd oa) in
     (fst oa = CHR ''p'' \<longrightarrow>
        tries_fresh (su_net su) (ms_conf ms) False (su_bind su i (bind_host buf) port) (ms_bind ms)) \<and>
     (fst oa = CHR ''s'' \<longrightarrow> tries_fresh (su_net su) ((ms_conf ms)\<lparr>conf_tls := True\<rparr>) True
        (su_bind su i (bind_host buf) port) (ms_bind ms)))"

fun options_fresh :: "startup \<Rightarrow> nat \<Rightarrow> (char \<times> string) list \<Rightarrow> main_state \<Rightarrow> bool" where
  "options_fresh su i [] ms = True"
| "options_fresh su i (oa # oas) ms \<longleftrightarrow> option_fresh su i oa ms \<and>
     (case main_option su i oa ms of Inl e \<Rightarrow> True | Inr ms' \<Rightarrow> options_fresh su (Suc i) oas ms')"

definition main_inv :: "startup \<Rightarrow> main_state \<Rightarrow> bool" where
  "main_inv su ms \<longleftrightarrow> bind_inv (ms_bind ms) \<and> ms_bound ms = length (b_listeners (ms_bind ms)) \<and>
     tls_listeners (ms_conf ms) (ms_bind ms) \<and> \<not> lua_state (ms_conf ms) \<and>
     (docroot (ms_conf ms) = [] \<or> (\<exists>p. su_realpath su p = Some (docroot (ms_conf ms))))"

lemma main_inv_upd_conf:
  assumes "main_inv su ms" and "conf_tls (ms_conf ms) \<longrightarrow> conf_tls (f (ms_conf ms))"
    and "lua_state (f (ms_conf ms)) = lua_state (ms_conf ms)"
    and "docroot (f (ms_conf ms)) = docroot (ms_conf ms) \<or> (\<exists>p. su_realpath su p = Some (docroot (f (ms_conf ms))))"
  shows "main_inv su (upd_conf f ms)"
  using assms by (auto simp: main_inv_def upd_conf_def tls_listeners_def)

lemma uh_inittls_conf:
  "uh_inittls te conf = Inr (b, conf') \<Longrightarrow> conf' = (if b then conf else conf\<lparr>conf_tls := True\<rparr>)"
  by (auto simp: uh_inittls_def split: if_splits)

lemma main_inv_inittls:
  assumes "main_inv su ms" and "uh_inittls te (ms_conf ms) = Inr (False, conf)"
  shows "main_inv su (upd_conf (\<lambda>_. conf) ms)"
  using uh_inittls_conf [OF assms(2)] assms(1) by (intro main_inv_upd_conf) auto

lemma main_inv_frame:
  "main_inv su ms \<Longrightarrow> ms_tables ms' = ms_tables ms \<Longrightarrow> ms_bind ms' = ms_bind ms \<Longrightarrow> ms_bound ms' = ms_bound ms \<Longrightarrow>
     main_inv su ms'"
  by (simp add: main_inv_def)

lemma opt_bind_inv:
  assumes "opt_bind su i ssl optarg ms = Inr ms'" and "main_inv su ms"
    and "bind_arg (ms_buf ms) optarg = (buf, port)"
    and "tries_fresh (su_net su) (if ssl then (ms_conf ms)\<lparr>conf_tls := True\<rparr> else ms_conf ms) ssl
           (su_bind su i (bind_host buf) port) (ms_bind ms)"
  shows "main_inv su ms'"
proof -
  have bind: "main_inv su ms2"
    if i: "main_inv su ms1" and b: "ms_bind ms1 = ms_bind ms"
      and c: "ms_conf ms1 = (if ssl then (ms_conf ms)\<lparr>conf_tls := True\<rparr> else ms_conf ms)"
      and e: "uh_socket_bind (su_net su) (ms_conf ms1) ssl (su_bind su i (bind_host buf) port) (ms_bind ms1) = (n, bs)"
      and m: "ms2 = ms1\<lparr>ms_bind := bs, ms_bound := ms_bound ms1 + n, ms_buf := replicate 128 NUL\<rparr>" for ms1 ms2 n bs
  proof -
    from i have "bind_inv (ms_bind ms1)" by (simp add: main_inv_def)
    moreover have "tries_fresh (su_net su) (ms_conf ms1) ssl (su_bind su i (bind_host buf) port) (ms_bind ms1)"
      using assms(4) b c by simp
    ultimately show ?thesis using uh_socket_bind_inv [OF e] i m by (simp add: main_inv_def)
  qed
  show ?thesis
  proof (cases ssl)
    case False
    then have n: "NUL \<in> set buf" using assms(1,3) by (auto simp: opt_bind_def split: if_splits)
    obtain n bs where e: "uh_socket_bind (su_net su) (ms_conf ms) ssl (su_bind su i (bind_host buf) port) (ms_bind ms) = (n, bs)"
      by (metis prod.exhaust)
    have "ms' = ms\<lparr>ms_bind := bs, ms_bound := ms_bound ms + n, ms_buf := replicate 128 NUL\<rparr>"
      using assms(1,3) n e False by (simp add: opt_bind_def)
    with bind [OF assms(2) refl _ e] False show ?thesis by simp
  next
    case True
    show ?thesis
    proof (cases "uh_inittls (su_tls su) (ms_conf ms)")
      case (Inl e)
      with assms(1,3) True show ?thesis by (simp add: opt_bind_def)
    next
      case (Inr bc)
      obtain miss conf where bc: "bc = (miss, conf)" by fastforce
      show ?thesis
      proof (cases miss)
        case True
        with assms(1,3) Inr bc \<open>ssl\<close> have "ms' = ms\<lparr>ms_buf := buf\<rparr>" by (simp add: opt_bind_def)
        with assms(2) show ?thesis by (simp add: main_inv_def)
      next
        case False
        let ?ms1 = "(upd_conf (\<lambda>_. conf) ms)\<lparr>ms_tls := True\<rparr>"
        have i: "main_inv su ?ms1"
          using main_inv_inittls [OF assms(2), of "su_tls su" conf] Inr bc False by (simp add: main_inv_def)
        have n: "NUL \<in> set buf" using assms(1,3) Inr bc False \<open>ssl\<close> by (auto simp: opt_bind_def split: if_splits)
        obtain n bs where e: "uh_socket_bind (su_net su) (ms_conf ?ms1) ssl (su_bind su i (bind_host buf) port) (ms_bind ?ms1) = (n, bs)"
          by (metis prod.exhaust)
        have "ms' = ?ms1\<lparr>ms_bind := bs, ms_bound := ms_bound ?ms1 + n, ms_buf := replicate 128 NUL\<rparr>"
          using assms(1,3) n e Inr bc False \<open>ssl\<close> by (simp add: opt_bind_def)
        moreover have "ms_bind ?ms1 = ms_bind ms" "ms_conf ?ms1 = (ms_conf ms)\<lparr>conf_tls := True\<rparr>"
          using uh_inittls_conf [of "su_tls su" "ms_conf ms" miss conf] Inr bc False by (simp_all add: upd_conf_def)
        ultimately show ?thesis using bind [OF i _ _ e] \<open>ssl\<close> by simp
      qed
    qed
  qed
qed

lemma opt_key_inv:
  assumes "opt_key su use err optarg ms = Inr ms'" and "main_inv su ms"
  shows "main_inv su ms'"
proof (cases "uh_inittls (su_tls su) (ms_conf ms)")
  case (Inr bc)
  obtain miss conf where bc: "bc = (miss, conf)" by fastforce
  show ?thesis
  proof (cases miss)
    case False
    with assms(1) Inr bc have "ms' = (upd_conf (\<lambda>_. conf) ms)\<lparr>ms_keys := ms_keys ms + 1\<rparr>"
      by (simp add: opt_key_def split: if_splits)
    with main_inv_inittls [OF assms(2), of "su_tls su" conf] Inr bc False show ?thesis by (simp add: main_inv_def)
  qed (use assms Inr bc in \<open>simp add: opt_key_def\<close>)
qed (use assms in \<open>simp add: opt_key_def\<close>)

lemma conf_option_keeps:
  "conf_option opt optarg = Some f \<Longrightarrow> conf_tls (f c) = conf_tls c \<and> lua_state (f c) = lua_state c \<and> docroot (f c) = docroot c"
  by (simp add: conf_option_def split: if_splits) (elim subst; simp)+

lemma main_option_inv:
  assumes "main_option su i oa ms = Inr ms'" and "main_inv su ms" and "option_fresh su i oa ms"
  shows "main_inv su ms'"
proof -
  obtain opt optarg where oa: "oa = (opt, optarg)" by fastforce
  obtain buf port where ba: "bind_arg (ms_buf ms) optarg = (buf, port)" by (metis prod.exhaust)
  consider "opt = CHR ''p''" | "opt = CHR ''s''" | "opt \<in> set ''CK''" | "opt = CHR ''h''" | "opt \<in> set ''EI''"
    | "opt \<in> set ''idfm''" | "opt \<notin> set ''psCKhEIidfm''" by auto
  then show ?thesis
  proof cases
    case 1
    then have o: "opt_bind su i False optarg ms = Inr ms'" using assms(1) oa by (simp add: main_option_def)
    show ?thesis by (rule opt_bind_inv [OF o assms(2) ba]) (use assms(3) oa ba 1 in \<open>simp add: option_fresh_def\<close>)
  next
    case 2
    then have o: "opt_bind su i True optarg ms = Inr ms'" using assms(1) oa by (simp add: main_option_def)
    show ?thesis by (rule opt_bind_inv [OF o assms(2) ba]) (use assms(3) oa ba 2 in \<open>simp add: option_fresh_def\<close>)
  next
    case 3
    with assms(1) oa obtain use err where "opt_key su use err optarg ms = Inr ms'" by (auto simp: main_option_def)
    then show ?thesis using assms(2) by (rule opt_key_inv)
  next
    case 4
    then obtain d where "su_realpath su optarg = Some d" "ms' = upd_conf (\<lambda>c. c\<lparr>docroot := d\<rparr>) ms"
      using assms(1) oa by (auto simp: main_option_def split: option.splits)
    with assms(2) show ?thesis by (auto intro!: main_inv_upd_conf)
  next
    case 5
    with assms(1,2) oa show ?thesis by (auto simp: main_option_def intro!: main_inv_upd_conf split: if_splits)
  next
    case 6
    with assms(1,2) oa show ?thesis
      by (auto simp: main_option_def main_option_rest_def opt_interpreter_def opt_urldecode_def Let_def main_inv_def split: option.splits prod.splits if_splits)
  next
    case 7
    then obtain f where f: "conf_option opt optarg = Some f" "ms' = upd_conf f ms"
      using assms(1) oa by (auto simp: main_option_def main_option_rest_def split: option.splits)
    with conf_option_keeps [OF f(1)] assms(2) show ?thesis by (auto intro!: main_inv_upd_conf)
  qed
qed

lemma main_options_inv:
  "main_options su i opts ms = Inr ms' \<Longrightarrow> main_inv su ms \<Longrightarrow> options_fresh su i opts ms \<Longrightarrow> main_inv su ms'"
proof (induction opts arbitrary: i ms)
  case (Cons oa opts)
  from Cons.prems(1) obtain ms1 where o: "main_option su i oa ms = Inr ms1" "main_options su (Suc i) opts ms1 = Inr ms'"
    by (auto split: sum.splits)
  from Cons.prems(3) o(1) have "option_fresh su i oa ms" "options_fresh su (Suc i) opts ms1" by simp_all
  with main_option_inv [OF o(1) Cons.prems(2)] Cons.IH [OF o(2)] show ?case by blast
qed simp

text \<open>The configuration file sets the index file and the error handler, and nothing else of the configuration.\<close>

definition conf_like :: "config \<Rightarrow> config \<Rightarrow> bool" where
  "conf_like c c' \<longleftrightarrow> c' = c\<lparr>index_file := index_file c', error_handler := error_handler c'\<rparr>"

lemma conf_like_refl: "conf_like c c"
  by (simp add: conf_like_def)

lemma conf_like_trans: "conf_like a b \<Longrightarrow> conf_like b c \<Longrightarrow> conf_like a c"
  by (cases a, cases b, cases c) (simp add: conf_like_def)

lemma config_line_conf: "conf_like (t_conf t) (t_conf (config_line mem db line t))"
  unfolding config_line_def by (simp add: conf_like_def split: option.splits prod.splits)

lemma config_lines_conf: "conf_like (t_conf t) (t_conf (config_lines mem db i ls t))"
proof (induction ls arbitrary: i t)
  case (Cons l ls)
  show ?case using conf_like_trans [OF config_line_conf Cons.IH] by simp
qed (simp add: conf_like_refl)

lemma uh_config_parse_conf: "conf_like (t_conf t) (t_conf (uh_config_parse file mem db t))"
  by (auto simp: uh_config_parse_def conf_like_refl config_lines_conf split: option.splits)

lemma main_lua_conf:
  assumes "main_lua su c = Inr c'" and "\<not> lua_state c"
  shows "docroot c' = docroot c \<and> conf_realm c' = conf_realm c \<and> network_timeout c' = network_timeout c \<and>
    script_timeout c' = script_timeout c \<and> cgi_prefix c' = cgi_prefix c \<and> conf_tls c' = conf_tls c \<and>
    (lua_state c' \<longrightarrow> lua_prefix c' \<noteq> None)"
  using assms by (auto simp: main_lua_def Let_def split: lua_plugin.splits option.splits sum.splits)

text \<open>The server that a successful start leaves, and where its configuration comes from.\<close>

lemma main_result:
  assumes "main su opts = Inr (h, s)" and "options_fresh su 0 opts main_init"
  shows "\<exists>ms. main_inv su ms \<and> 1 \<le> ms_bound ms \<and> (\<exists>p. su_realpath su p = Some (docroot (h_conf h))) \<and>
    conf_tls (h_conf h) = conf_tls (ms_conf ms) \<and> conf_realm (h_conf h) \<noteq> None \<and> 0 < network_timeout (h_conf h) \<and>
    0 < script_timeout (h_conf h) \<and> cgi_prefix (h_conf h) \<noteq> None \<and>
    (lua_state (h_conf h) \<longrightarrow> lua_prefix (h_conf h) \<noteq> None) \<and>
    s = snd (main_server su ms (ms_tables ms))"
proof -
  from assms(1) obtain ms where o: "main_options su 0 opts main_init = Inr ms" and f: "main_finish su ms = Inr (h, s)"
    by (auto simp: main_def split: sum.splits)
  have "main_inv su main_init" by (simp add: main_inv_def main_init_def bind_inv_def tls_listeners_def)
  from main_options_inv [OF o this assms(2)] have i: "main_inv su ms" .
  from f obtain conf1 where b: "1 \<le> ms_bound ms" and d: "main_docroot su (ms_conf ms) = Inr conf1"
    by (auto simp: main_finish_def split: if_splits sum.splits)
  let ?c2 = "case conf_realm conf1 of None \<Rightarrow> conf1\<lparr>conf_realm := Some ''Protected Area''\<rparr> | Some _ \<Rightarrow> conf1"
  let ?t = "uh_config_parse (su_file su) (su_mem_file su) (su_db su) ((ms_tables ms)\<lparr>t_conf := ?c2\<rparr>)"
  from f b d obtain conf3 where l: "main_lua su (main_defaults (t_conf ?t)) = Inr conf3"
    and hs: "(h, s) = main_server su ms (?t\<lparr>t_conf := conf3\<rparr>)"
    by (auto simp: main_finish_def Let_def split: if_splits sum.splits)
  have dr: "\<exists>p. su_realpath su p = Some (docroot conf1)" "conf_tls conf1 = conf_tls (ms_conf ms)" "lua_state conf1 = lua_state (ms_conf ms)"
    using d i by (auto simp: main_docroot_def main_inv_def split: if_splits option.splits)
  have c2: "docroot ?c2 = docroot conf1" "conf_tls ?c2 = conf_tls conf1" "lua_state ?c2 = lua_state conf1" "conf_realm ?c2 \<noteq> None"
    by (auto split: option.splits)
  have tc: "docroot (t_conf ?t) = docroot ?c2 \<and> conf_tls (t_conf ?t) = conf_tls ?c2 \<and> lua_state (t_conf ?t) = lua_state ?c2 \<and>
      conf_realm (t_conf ?t) = conf_realm ?c2"
    using uh_config_parse_conf [of "(ms_tables ms)\<lparr>t_conf := ?c2\<rparr>" "su_file su" "su_mem_file su" "su_db su"]
    unfolding conf_like_def by (cases "t_conf ?t") simp
  have lua0: "\<not> lua_state (main_defaults (t_conf ?t))" using tc c2 dr i by (simp add: main_defaults_def main_inv_def)
  note c3 = main_lua_conf [OF l lua0]
  have hc: "h_conf h = conf3" "s = snd (main_server su ms (ms_tables ms))" using hs by (simp_all add: main_server_def)
  have "docroot (h_conf h) = docroot conf1" "conf_tls (h_conf h) = conf_tls (ms_conf ms)" "conf_realm (h_conf h) \<noteq> None"
    "0 < network_timeout (h_conf h)" "0 < script_timeout (h_conf h)" "cgi_prefix (h_conf h) \<noteq> None"
    "lua_state (h_conf h) \<longrightarrow> lua_prefix (h_conf h) \<noteq> None"
    using c3 tc c2 dr(2) hc(1) by (simp_all add: main_defaults_def split: option.splits)
  with i b dr(1) hc(2) show ?thesis by metis
qed

lemma main_inv_start: "main_inv su ms \<Longrightarrow> server_start (snd (main_server su ms t))"
  unfolding main_inv_def bind_inv_def server_start_def main_server_def by (elim conjE) simp

text \<open>
  C17: When the start succeeds the server is ready. Whatever options are given, in any order and
  number, and whatever the configuration file holds: the process either ends with a status, or it
  enters the main loop with at least one listening socket, all of them registered, watched and
  open; with a document root, a realm name, positive timeouts and a CGI prefix; with a Lua prefix
  when a Lua handler is loaded; and with a TLS context when a listener is to use TLS.
\<close>
theorem main_ready:
  assumes "main su opts = Inr (h, s)" and "options_fresh su 0 opts main_init"
    and "\<forall>p d. su_realpath su p = Some d \<longrightarrow> d \<noteq> [] \<and> hd d = CHR ''/''"
  shows "server_start s \<and> sv_listeners s \<noteq> [] \<and>
    docroot (h_conf h) \<noteq> [] \<and> conf_realm (h_conf h) \<noteq> None \<and> 0 < network_timeout (h_conf h) \<and>
    0 < script_timeout (h_conf h) \<and> cgi_prefix (h_conf h) \<noteq> None \<and>
    (lua_state (h_conf h) \<longrightarrow> lua_prefix (h_conf h) \<noteq> None) \<and>
    (\<forall>l\<in>set (sv_listeners s). ls_tls l \<longrightarrow> conf_tls (h_conf h))"
proof -
  from main_result [OF assms(1,2)] obtain ms where i: "main_inv su ms" and b: "1 \<le> ms_bound ms"
    and d: "\<exists>p. su_realpath su p = Some (docroot (h_conf h))" and tls: "conf_tls (h_conf h) = conf_tls (ms_conf ms)"
    and r: "conf_realm (h_conf h) \<noteq> None" "0 < network_timeout (h_conf h)" "0 < script_timeout (h_conf h)"
      "cgi_prefix (h_conf h) \<noteq> None" "lua_state (h_conf h) \<longrightarrow> lua_prefix (h_conf h) \<noteq> None"
    and s: "s = snd (main_server su ms (ms_tables ms))" by blast
  have "sv_listeners s = b_listeners (ms_bind ms)" using s by (simp add: main_server_def)
  with i b tls have "sv_listeners s \<noteq> []" "\<forall>l\<in>set (sv_listeners s). ls_tls l \<longrightarrow> conf_tls (h_conf h)"
    by (auto simp: main_inv_def tls_listeners_def)
  moreover have "docroot (h_conf h) \<noteq> []" using d assms(3) by blast
  ultimately show ?thesis using main_inv_start [OF i, of "ms_tables ms"] s r by blast
qed

definition demo_startup :: startup where
  "demo_startup = \<lparr>su_tls = \<lparr>tls_dlopen = False, tls_dlsym = False, ssl_ctx_new = False, use_certificate = \<lambda>f p. 0,
       use_privatekey = \<lambda>f p. 0\<rparr>,
     su_bind = \<lambda>i host port. [\<lparr>bt_sock = 3, bt_reuse = True, bt_inet6 = False, bt_v6only = False, bt_bind = True,
       bt_listen = True, bt_mem = True\<rparr>],
     su_net = demo_net, su_realpath = \<lambda>p. Some ''/w'', su_mem = \<lambda>i. True, su_mem_file = \<lambda>i. True,
     su_crypt = \<lambda>p s. None, su_straddr = \<lambda>a. [], su_db = \<lparr>have_shadow = False, getspnam = \<lambda>u. None, getpwnam = \<lambda>u. None\<rparr>,
     su_file = \<lambda>f. Some (''/adm:root:pw'' @ [LF]), su_lua = NoLuaPlugin, su_fork = ForkChild\<rparr>"

abbreviation demo_opts :: "(char \<times> string) list" where
  "demo_opts \<equiv> [(CHR ''p'', ''80'')]"

definition demo_bound :: listener where
  "demo_bound = \<lparr>ls_socket = 3, ls_addr = getsockname demo_net 3, ls_conf = t_conf (ms_tables main_init), ls_tls = False\<rparr>"

lemma demo_fresh: "options_fresh demo_startup 0 demo_opts main_init"
  by (simp add: option_fresh_def bind_arg_def demo_startup_def main_init_def bind_host_def main_option_def opt_bind_def
      bind_one_def uh_listener_add_def Let_def)

lemma demo_config:
  "uh_config_parse (su_file demo_startup) (su_mem_file demo_startup) (su_db demo_startup) t = t\<lparr>t_realms := demo_realm # t_realms t\<rparr>"
proof -
  have "fgets_lines 510 (''/adm:root:pw'' @ [LF]) = [''/adm:root:pw'' @ [LF]]" by code_simp
  moreover have "auth_password db ''pw'' = ''pw''" for db by (simp add: auth_password_def strneq_def)
  ultimately show ?thesis
    by (simp add: demo_startup_def uh_config_parse_def config_line_def cut_at_def to_eol_def uh_auth_add_def demo_realm_def
        PATH_MAX_def Let_def)
qed

lemma demo_main:
  "\<exists>h s. main demo_startup demo_opts = Inr (h, s) \<and>
     h_conf h = demo_conf\<lparr>cgi_prefix := Some ''/cgi-bin'', conf_realm := Some ''Protected Area''\<rparr> \<and>
     h_realms h = [demo_realm] \<and> h_interpreters h = [] \<and> s = demo_server\<lparr>sv_listeners := [demo_bound]\<rparr> \<and>
     ls_socket demo_bound = 3"
proof -
  have o: "main_options demo_startup 0 demo_opts main_init = Inr (main_init\<lparr>ms_bind := \<lparr>b_serv_fds = {3}, b_max_fd = 3,
      b_listeners = [demo_bound], b_open = {3}\<rparr>, ms_bound := 1, ms_buf := replicate 128 NUL\<rparr>)"
    by (simp add: main_option_def opt_bind_def bind_arg_def bind_host_def main_init_def demo_startup_def bind_one_def
        uh_listener_add_def demo_bound_def Let_def)
  have su: "su_realpath demo_startup p = Some ''/w''" "su_lua demo_startup = NoLuaPlugin" "su_fork demo_startup = ForkChild" for p
    by (simp_all add: demo_startup_def)
  show ?thesis unfolding main_def o
    by (simp add: main_finish_def main_docroot_def demo_config su main_defaults_def main_lua_def main_server_def
        main_init_def demo_conf_def demo_bound_def demo_server_def)
qed

theorem main_ready_witness:
  "\<exists>h s. main demo_startup [(CHR ''p'', ''80'')] = Inr (h, s) \<and> server_start s \<and> 0 < network_timeout (h_conf h)"
proof -
  have rp: "\<forall>p d. su_realpath demo_startup p = Some d \<longrightarrow> d \<noteq> [] \<and> hd d = CHR ''/''" by (simp add: demo_startup_def)
  from demo_main obtain h s where m: "main demo_startup demo_opts = Inr (h, s)" by blast
  from main_ready [OF m demo_fresh rp] have "server_start s" "0 < network_timeout (h_conf h)" by blast+
  with m show ?thesis by (intro exI conjI)
qed

text \<open>
  C4: The server dispatches only what it may. In every state that the main loop of a started server
  can reach, every request that was handed to a program or answered with a file, the error page for
  missing files included, carried the credentials of a realm covering the name of the resolved file
  whenever there is such a realm; the string of the file's path is the document root followed by
  that name, and the name is empty or starts with a slash unless the document root is \<^verbatim>\<open>/\<close>, so no
  sibling of the root whose name starts alike is served (the name may still have a component of two
  dots, as the escape of \<open>uh_path_lookup\<close> shows); the client was not one the RFC 1918 filter rejects;
  and a path that was answered with a redirect is dispatched only as error page. Of \<^verbatim>\<open>realpath()\<close>
  it uses that a resolved path starts with a slash and does not end in one unless it is \<^verbatim>\<open>/\<close>.
\<close>
theorem main_dispatch_safe:
  assumes "main su opts = Inr (h, s0)" and "options_fresh su 0 opts main_init"
    and "\<forall>p d. su_realpath su p = Some d \<longrightarrow> d \<noteq> [] \<and> hd d = CHR ''/'' \<and> (d = ''/'' \<or> last d \<noteq> CHR ''/'')"
    and "(uh_mainloop h)\<^sup>*\<^sup>* (At_Select, s0) (ph, s)" and "(cl, Dispatched req pin how, c) \<in> set (sv_log s)"
  shows "authorized h req (pi_name pin) \<and>
    pi_phys pin = docroot (h_conf h) @ pi_name pin \<and>
    (pi_name pin = [] \<or> hd (pi_name pin) = CHR ''/'' \<or> docroot (h_conf h) = ''/'') \<and>
    \<not> (rfc1918_filter (h_conf h) \<and> sa_rfc1918 (c_peeraddr cl) \<and> \<not> sa_rfc1918 (c_servaddr cl)) \<and>
    (pi_redirected pin \<longrightarrow> redirect_status req = 404)"
proof -
  from main_result [OF assms(1,2)] have st: "server_start s0" and "\<exists>p. su_realpath su p = Some (docroot (h_conf h))"
    using main_inv_start by blast+
  with assms(3) have "docroot (h_conf h) = ''/'' \<or> last (docroot (h_conf h)) \<noteq> CHR ''/''" by blast
  with mainloop_dispatches [OF assms(4) st assms(5)] show ?thesis by (auto simp: entry_safe_def)
qed

theorem main_dispatch_safe_witness:
  "\<exists>h s0 s cl pin c. main demo_startup [(CHR ''p'', ''80'')] = Inr (h, s0) \<and>
     (uh_mainloop h)\<^sup>*\<^sup>* (At_Select, s0) (At_Select, s) \<and> (cl, Dispatched demo_get pin By_File, c) \<in> set (sv_log s) \<and>
     authorized h demo_get (pi_name pin) \<and> pi_phys pin = ''/w'' @ pi_name pin"
proof -
  from demo_main obtain h s0 where m: "main demo_startup demo_opts = Inr (h, s0)"
    and h: "h_conf h = demo_conf\<lparr>cgi_prefix := Some ''/cgi-bin'', conf_realm := Some ''Protected Area''\<rparr>"
      "h_realms h = [demo_realm]" "h_interpreters h = []"
    and s0: "s0 = demo_server\<lparr>sv_listeners := [demo_bound]\<rparr>" "ls_socket demo_bound = 3" by blast
  from demo_run [OF h s0] obtain s cl pin c where r: "(uh_mainloop h)\<^sup>*\<^sup>* (At_Select, s0) (At_Select, s)"
    "(cl, Dispatched demo_get pin By_File, c) \<in> set (sv_log s)" by blast
  have rp: "\<forall>p d. su_realpath demo_startup p = Some d \<longrightarrow> d \<noteq> [] \<and> hd d = CHR ''/'' \<and> (d = ''/'' \<or> last d \<noteq> CHR ''/'')"
    by (simp add: demo_startup_def)
  from main_dispatch_safe [OF m demo_fresh rp r] have "authorized h demo_get (pi_name pin)"
    "pi_phys pin = docroot (h_conf h) @ pi_name pin" by blast+
  moreover have "docroot (h_conf h) = ''/w''" by (simp add: h(1) demo_conf_def)
  ultimately show ?thesis using m r by (intro exI conjI) simp_all
qed

text \<open>
  An address given with \<^verbatim>\<open>-s\<close> survives when the TLS plugin is missing: a following \<^verbatim>\<open>-p\<close> without an
  address binds to it instead of to all addresses.
\<close>

lemma stale_bind:
  assumes "uh_inittls (su_tls su) (ms_conf ms) = Inr (True, conf)" and "ms_buf ms = replicate 128 NUL"
  shows "\<exists>ms'. opt_bind su i True ''10.0.0.1:443'' ms = Inr ms' \<and> bind_arg (ms_buf ms') ''80'' = (ms_buf ms', ''80'') \<and>
    bind_host (ms_buf ms') = Some ''10.0.0.1''"
  using assms by (simp add: opt_bind_def bind_arg_def bind_host_def put_at_def Let_def numeral_eq_Suc)

end
