(* ===== verification/Luci_Lmo.thy ===== *)
theory Luci_Lmo
  imports OSan_Prelude
begin

text \<open>
  Translation archives: the hash of \<^verbatim>\<open>lmo_hash.c\<close>, opening, searching and closing an archive
  (\<^verbatim>\<open>lmo_core.c\<close>) and the command \<^verbatim>\<open>lmo_lookup\<close>. The process is a record of the error text and of
  what is open, allocated and mapped; the file and the answers of the kernel and of the allocator
  are a record of parameters. Integers have the widths of a 64-bit machine; whether a plain
  \<^verbatim>\<open>char\<close> is signed is a parameter, for an archive is written on one machine and read on another.
\<close>

unbundle bit_operations_syntax

section \<open>The hash\<close>

definition sfh_get16 :: "string \<Rightarrow> u32" where
  "sfh_get16 d = push_bit 8 (of_nat (byte (char_at d 1))) + of_nat (byte (char_at d 0))"

text \<open>The value of a plain \<^verbatim>\<open>char\<close>, which is signed on some machines and not on others.\<close>

definition plain_char :: "bool \<Rightarrow> char \<Rightarrow> u32" where
  "plain_char sg c = (if sg then word_of_int (schar c) else of_nat (byte c))"

fun sfh_loop :: "nat \<Rightarrow> u32 \<Rightarrow> string \<Rightarrow> u32 \<times> string" where
  "sfh_loop 0 hash dat = (hash, dat)"
| "sfh_loop (Suc n) hash dat =
    (let hash1 = hash + sfh_get16 dat;
         tmp = push_bit 11 (sfh_get16 (drop 2 dat)) XOR hash1;
         hash2 = push_bit 16 hash1 XOR tmp
     in sfh_loop n (hash2 + drop_bit 11 hash2) (drop 4 dat))"

definition sfh_rest :: "bool \<Rightarrow> nat \<Rightarrow> u32 \<Rightarrow> string \<Rightarrow> u32" where
  "sfh_rest sg r hash dat =
    (if r = 3 then let h1 = hash + sfh_get16 dat; h2 = h1 XOR push_bit 16 h1;
                       h3 = h2 XOR push_bit 18 (plain_char sg (char_at dat 2)) in h3 + drop_bit 11 h3
     else if r = 2 then let h1 = hash + sfh_get16 dat; h2 = h1 XOR push_bit 11 h1 in h2 + drop_bit 17 h2
     else if r = 1 then let h1 = hash + plain_char sg (char_at dat 0); h2 = h1 XOR push_bit 10 h1
                        in h2 + drop_bit 1 h2
     else hash)"

definition sfh_final :: "u32 \<Rightarrow> u32" where
  "sfh_final h0 =
    (let h1 = h0 XOR push_bit 3 h0; h2 = h1 + drop_bit 5 h1; h3 = h2 XOR push_bit 4 h2;
         h4 = h3 + drop_bit 17 h3; h5 = h4 XOR push_bit 25 h4
     in h5 + drop_bit 6 h5)"

text \<open>The hash of a whole string: every caller passes \<^verbatim>\<open>strlen(data)\<close> as the length.\<close>

definition sfh_hash :: "bool \<Rightarrow> string \<Rightarrow> u32" where
  "sfh_hash sg dat =
    (if dat = [] then 0
     else let (hash, rest) = sfh_loop (length dat div 4) (of_nat (length dat)) dat
          in sfh_final (sfh_rest sg (length dat mod 4) hash rest))"

section \<open>Archives\<close>

record lmo_entry =
  key_id :: u32
  val_id :: u32
  ent_offset :: u32
  ent_length :: u32

text \<open>\<open>ar_mmap\<close> holds the bytes of the file the mapping covers.\<close>

record lmo_archive =
  ar_length :: u32
  ar_index :: "lmo_entry list"
  ar_mmap :: string

text \<open>
  The outside world of one \<open>lmo_open\<close>: the size \<^verbatim>\<open>stat()\<close> reports, the bytes the open descriptor
  reads, the text of \<^verbatim>\<open>errno\<close>, whether the \<open>n\<close>-th allocation, a seek to a position and the mapping
  succeed, and whether the fresh memory of the archive holds, where the pointer to the mapping will
  be, something else than \<^verbatim>\<open>NULL\<close> and \<^verbatim>\<open>MAP_FAILED\<close>.
\<close>

record lmo_env =
  le_stat :: "nat option"
  le_file :: "string option"
  le_strerror :: string
  le_malloc :: "nat \<Rightarrow> bool"
  le_seek :: "nat \<Rightarrow> bool"
  le_mmap :: bool
  le_junk :: bool

text \<open>The last error and what the process holds.\<close>

record lmo_proc =
  lp_error :: string
  lp_fds :: nat
  lp_entries :: nat
  lp_archives :: nat
  lp_maps :: nat

definition get_be32 :: "string \<Rightarrow> u32" where
  "get_be32 b = of_nat (((byte (char_at b 0) * 256 + byte (char_at b 1)) * 256 + byte (char_at b 2)) * 256
     + byte (char_at b 3))"

text \<open>Reading four bytes at the position of the descriptor, given by what is left of the file.\<close>

definition lmo_read32 :: "string \<Rightarrow> (u32 \<times> string) option" where
  "lmo_read32 rest = (if length rest < 4 then None else Some (get_be32 (take 4 rest), drop 4 rest))"

definition lmo_seterror :: "lmo_env \<Rightarrow> string \<Rightarrow> bool \<Rightarrow> lmo_proc \<Rightarrow> lmo_proc" where
  "lmo_seterror e message add_errno p =
    p\<lparr>lp_error := take 1023 (if add_errno then message @ '': '' @ le_strerror e else message)\<rparr>"

definition lmo_error :: "lmo_proc \<Rightarrow> string" where
  "lmo_error p = lp_error p"

definition lmo_read_entry :: "string \<Rightarrow> (lmo_entry \<times> string) option" where
  "lmo_read_entry r0 =
    (case lmo_read32 r0 of None \<Rightarrow> None | Some (k, r1) \<Rightarrow>
    (case lmo_read32 r1 of None \<Rightarrow> None | Some (v, r2) \<Rightarrow>
    (case lmo_read32 r2 of None \<Rightarrow> None | Some (f, r3) \<Rightarrow>
    (case lmo_read32 r3 of None \<Rightarrow> None | Some (l, r4) \<Rightarrow>
      Some (\<lparr>key_id = k, val_id = v, ent_offset = f, ent_length = l\<rparr>, r4)))))"

text \<open>
  The loop over the index. The counter is a 32-bit integer, the bound a 64-bit one that wraps for a
  file of less than four bytes. A failure returns the message, the entries linked so far and
  the number of entries allocated but not linked.
\<close>

function lmo_read_index ::
  "lmo_env \<Rightarrow> nat \<Rightarrow> u32 \<Rightarrow> string \<Rightarrow> lmo_entry list \<Rightarrow> (string \<times> lmo_entry list \<times> nat) + lmo_entry list" where
  "lmo_read_index e sz i rest head =
    (if \<not> int (unat i) < (int sz - 4) mod 2 ^ 64 then Inr head
     else if \<not> le_malloc e (Suc (length head)) then Inl (''Out of memory'', head, 0)
     else (case lmo_read_entry rest of
         None \<Rightarrow> Inl (''Unexpected EOF while reading index entry'', head, 1)
       | Some (en, rest') \<Rightarrow> lmo_read_index e sz (i + 16) rest' (en # head)))"
  by pat_completeness auto
termination
proof (relation "measure (\<lambda>(e, sz, i, rest, head). length rest)")
  fix e sz i rest head x en rest'
  assume "lmo_read_entry rest = Some x" and "(en, rest') = x"
  then show "((e, sz, i + 16, rest', en # head), (e, sz, i, rest, head))
      \<in> measure (\<lambda>(e, sz, i, rest, head). length rest)"
    by (auto simp: lmo_read_entry_def lmo_read32_def split: option.splits if_splits prod.splits)
qed simp

declare lmo_read_index.simps [simp del]

datatype mmap_ptr = Unset | Map_failed | Mapped

text \<open>
  The common exit of a failed \<open>lmo_open\<close>: whether the file is open, the linked entries, and the
  mapping pointer of the archive if that is allocated. \<^const>\<open>None\<close>: memory is unmapped through a
  pointer that was never assigned, and nothing can be said of the process afterwards.
\<close>

type_synonym lmo_opened = "(lmo_archive option \<times> lmo_proc) option"

definition lmo_cleanup :: "lmo_env \<Rightarrow> bool \<Rightarrow> lmo_entry list \<Rightarrow> mmap_ptr option \<Rightarrow> lmo_proc \<Rightarrow> lmo_opened" where
  "lmo_cleanup e opened head ar p =
    (let p1 = (if opened then p\<lparr>lp_fds := lp_fds p - 1\<rparr> else p);
         p2 = p1\<lparr>lp_entries := lp_entries p1 - length head\<rparr>
     in (case ar of
          None \<Rightarrow> Some (None, p2)
        | Some m \<Rightarrow> (let freed = (\<lambda>p3. Some (None, p3\<lparr>lp_archives := lp_archives p3 - 1\<rparr>))
                     in (case m of
                           Unset \<Rightarrow> if le_junk e then None else freed p2
                         | Map_failed \<Rightarrow> freed p2
                         | Mapped \<Rightarrow> freed (p2\<lparr>lp_maps := lp_maps p2 - 1\<rparr>)))))"

definition lmo_load :: "lmo_env \<Rightarrow> nat \<Rightarrow> string \<Rightarrow> u32 \<Rightarrow> lmo_proc \<Rightarrow> lmo_opened" where
  "lmo_load e sz f idx p =
    (case lmo_read_index e sz idx (drop (unat idx) f) [] of
       Inl (msg, head, stray) \<Rightarrow>
         lmo_cleanup e True head (Some Unset)
           (lmo_seterror e msg False (p\<lparr>lp_entries := lp_entries p + length head + stray\<rparr>))
     | Inr head \<Rightarrow>
         (let p1 = p\<lparr>lp_entries := lp_entries p + length head\<rparr> in
          if \<not> le_seek e 0
          then lmo_cleanup e True head (Some Unset) (lmo_seterror e ''Can not seek to start'' True p1)
          else if idx = 0 \<or> \<not> le_mmap e
          then lmo_cleanup e True head (Some Map_failed)
                 (lmo_seterror e ''Failed to memory map archive contents'' True p1)
          else Some (Some \<lparr>ar_length = idx, ar_index = head, ar_mmap = take (unat idx) f\<rparr>,
                     p1\<lparr>lp_maps := lp_maps p1 + 1\<rparr>)))"

definition lmo_open :: "lmo_env \<Rightarrow> lmo_proc \<Rightarrow> lmo_opened" where
  "lmo_open e p =
    (case le_stat e of
       None \<Rightarrow> lmo_cleanup e False [] None (lmo_seterror e ''Can not stat file'' True p)
     | Some sz \<Rightarrow>
    (case le_file e of
       None \<Rightarrow> lmo_cleanup e False [] None (lmo_seterror e ''Can not open file'' True p)
     | Some f \<Rightarrow>
        (let p1 = p\<lparr>lp_fds := lp_fds p + 1\<rparr> in
         if length f < 4
         then lmo_cleanup e True [] None (lmo_seterror e ''Can not seek to eof'' True p1)
         else (case lmo_read32 (drop (length f - 4) f) of
             None \<Rightarrow> lmo_cleanup e True [] None
                       (lmo_seterror e ''Unexpected EOF while reading index offset'' False p1)
           | Some (idx, _) \<Rightarrow>
               if \<not> le_seek e (unat idx)
               then lmo_cleanup e True [] None (lmo_seterror e ''Can not seek to index offset'' True p1)
               else if \<not> le_malloc e 0
               then lmo_cleanup e True [] None (lmo_seterror e ''Out of memory'' False p1)
               else lmo_load e sz f idx (p1\<lparr>lp_archives := lp_archives p1 + 1\<rparr>)))))"

definition lmo_close :: "lmo_archive option \<Rightarrow> lmo_proc \<Rightarrow> lmo_proc" where
  "lmo_close ar p =
    (case ar of
       None \<Rightarrow> p
     | Some a \<Rightarrow> p\<lparr>lp_entries := lp_entries p - length (ar_index a), lp_maps := lp_maps p - 1,
                    lp_fds := lp_fds p - 1, lp_archives := lp_archives p - 1\<rparr>)"

text \<open>
  Copying a value: the room is compared as an unsigned integer, and both the mapping and
  the destination have to hold what is copied; otherwise the result is \<^const>\<open>None\<close>.
\<close>

definition lmo_copy :: "lmo_archive \<Rightarrow> lmo_entry \<Rightarrow> int \<Rightarrow> string \<Rightarrow> (int \<times> string) option" where
  "lmo_copy a en len dest =
    (let copy_len = (if ent_length en < word_of_int (len - 1) then sint (ent_length en) else len - 1);
         n = nat copy_len; off = unat (ent_offset en)
     in if copy_len < 0 \<or> length (ar_mmap a) < off + n \<or> length dest \<le> n then None
        else Some (copy_len, take n (drop off (ar_mmap a)) @ NUL # drop (Suc n) dest))"

fun lmo_find :: "u32 \<Rightarrow> lmo_entry list \<Rightarrow> lmo_entry option" where
  "lmo_find look_key [] = None"
| "lmo_find look_key (en # es) = (if key_id en = look_key then Some en else lmo_find look_key es)"

definition lmo_lookup :: "bool \<Rightarrow> lmo_archive option \<Rightarrow> string \<Rightarrow> string \<Rightarrow> int \<Rightarrow> (int \<times> string) option" where
  "lmo_lookup sg ar key dest len =
    (case ar of
       None \<Rightarrow> Some (-1, dest)
     | Some a \<Rightarrow> (case lmo_find (sfh_hash sg key) (ar_index a) of
         None \<Rightarrow> Some (-1, dest)
       | Some en \<Rightarrow> lmo_copy a en len dest))"

text \<open>The command: exit status, output and the process; \<open>val\<close> is the buffer on the stack.\<close>

definition lookup_main ::
  "bool \<Rightarrow> lmo_env \<Rightarrow> string \<Rightarrow> string list \<Rightarrow> lmo_proc \<Rightarrow> (nat \<times> string \<times> lmo_proc) option" where
  "lookup_main sg e val argv p =
    (if length argv \<noteq> 3 then Some (1, ''Usage: '' @ hd argv @ '' input.lmo key'' @ [LF], p)
     else (case lmo_open e p of
         None \<Rightarrow> None
       | Some (Some a, p1) \<Rightarrow> (case lmo_lookup sg (Some a) (argv ! 2) val 4096 of
             None \<Rightarrow> None
           | Some (n, val1) \<Rightarrow> Some (0, if -1 < n then cstr val1 @ [LF] else [], lmo_close (Some a) p1))
       | Some (None, p1) \<Rightarrow> Some (1, ''Error: '' @ lmo_error p1 @ [LF], p1)))"

section \<open>The hash does not depend on the machine for ASCII keys\<close>

definition ascii :: "string \<Rightarrow> bool" where
  "ascii s \<longleftrightarrow> list_all (\<lambda>c. byte c < 128) s"

lemma plain_char_ascii: "byte c < 128 \<Longrightarrow> plain_char sg c = of_nat (byte c)"
  by (simp add: plain_char_def schar_def)

lemma plain_char_at_ascii: "ascii s \<Longrightarrow> plain_char sg (char_at s i) = of_nat (byte (char_at s i))"
  by (rule plain_char_ascii) (simp add: ascii_def list_all_length char_at_def)

lemma ascii_drop: "ascii s \<Longrightarrow> ascii (drop n s)"
  by (simp add: ascii_def list_all_length)

lemma sfh_loop_rest: "snd (sfh_loop n hash dat) = drop (4 * n) dat"
  by (induction n arbitrary: hash dat) (simp_all add: Let_def add.commute)

lemma sfh_hash_ascii: "ascii key \<Longrightarrow> sfh_hash sg key = sfh_hash sg' key"
proof -
  assume a: "ascii key"
  have "sfh_rest sg r h (snd (sfh_loop n h' key)) = sfh_rest sg' r h (snd (sfh_loop n h' key))" for r h n h'
    by (simp add: sfh_rest_def sfh_loop_rest plain_char_at_ascii [OF ascii_drop [OF a]])
  then show ?thesis by (simp add: sfh_hash_def case_prod_beta)
qed

section \<open>Words in a file\<close>

definition put_be32 :: "u32 \<Rightarrow> string" where
  "put_be32 w = [char_of (unat w div 2 ^ 24), char_of (unat w div 2 ^ 16 mod 256), char_of (unat w div 2 ^ 8 mod 256),
     char_of (unat w mod 256)]"

definition entry_bytes :: "lmo_entry \<Rightarrow> string" where
  "entry_bytes en = put_be32 (key_id en) @ put_be32 (val_id en) @ put_be32 (ent_offset en) @ put_be32 (ent_length en)"

text \<open>A writer and a reader of 32-bit words that agree, and what they give for records and sequences of records.\<close>

locale word_stream =
  fixes put :: "u32 \<Rightarrow> string" and get :: "string \<Rightarrow> (u32 \<times> string) option"
  assumes get_put: "get (put w @ r) = Some (w, r)"
    and length_put: "length (put w) = 4"
begin

definition put4 :: "u32 \<times> u32 \<times> u32 \<times> u32 \<Rightarrow> string" where
  "put4 t = (case t of (a, b, c, d) \<Rightarrow> put a @ put b @ put c @ put d)"

lemma length_put4: "length (put4 t) = 16"
  by (simp add: put4_def length_put split: prod.split)

lemma length_put4s: "length (concat (map put4 ts)) = 16 * length ts"
  by (induction ts) (simp_all add: length_put4)

lemma get_put4:
  "\<exists>r1 r2 r3. get (put4 (a, b, c, d) @ r) = Some (a, r1) \<and> get r1 = Some (b, r2) \<and> get r2 = Some (c, r3) \<and> get r3 = Some (d, r)"
  by (simp add: put4_def get_put)

end

lemma byte_char_of_mod: "byte (char_of (n :: nat)) = n mod 256"
  by simp

lemma be32_parts: "(((n div 2 ^ 24) * 256 + n div 2 ^ 16 mod 256) * 256 + n div 2 ^ 8 mod 256) * 256 + n mod 256 = (n :: nat)"
proof -
  have "n div 2 ^ 8 = n div 256" "n div 2 ^ 16 = n div 256 div 256" "n div 2 ^ 24 = n div 256 div 256 div 256"
    by (simp_all add: div_mult2_eq [symmetric])
  then show ?thesis by (simp add: div_mult_mod_eq)
qed

interpretation be: word_stream put_be32 lmo_read32
proof
  fix w :: u32 and r
  have "unat w < 2 ^ LENGTH(32)" by (rule unsigned_less)
  then have "unat w < 256 * 2 ^ 24" by simp
  then have "unat w div 2 ^ 24 < 256" by (rule less_mult_imp_div_less)
  then have "get_be32 (put_be32 w) = of_nat ((((unat w div 2 ^ 24) * 256 + unat w div 2 ^ 16 mod 256) * 256
      + unat w div 2 ^ 8 mod 256) * 256 + unat w mod 256)"
    by (simp add: get_be32_def put_be32_def)
  then have "get_be32 (put_be32 w) = w" by (simp only: be32_parts) simp
  then show "lmo_read32 (put_be32 w @ r) = Some (w, r)" by (simp add: lmo_read32_def put_be32_def)
  show "length (put_be32 w) = 4" by (simp add: put_be32_def)
qed

lemma entry_bytes_put4: "entry_bytes en = be.put4 (key_id en, val_id en, ent_offset en, ent_length en)"
  by (simp add: entry_bytes_def be.put4_def)

lemma length_entry_bytes: "length (entry_bytes en) = 16"
  by (simp add: entry_bytes_put4 be.length_put4)

lemma length_index_bytes: "length (concat (map entry_bytes es)) = 16 * length es"
  by (induction es) (simp_all add: length_entry_bytes)

lemma lmo_read_entry_bytes: "lmo_read_entry (entry_bytes en @ r) = Some (en, r)"
proof -
  from be.get_put4 obtain r1 r2 r3 where "lmo_read32 (entry_bytes en @ r) = Some (key_id en, r1)"
    "lmo_read32 r1 = Some (val_id en, r2)" "lmo_read32 r2 = Some (ent_offset en, r3)" "lmo_read32 r3 = Some (ent_length en, r)"
    unfolding entry_bytes_put4 by blast
  then show ?thesis by (simp add: lmo_read_entry_def)
qed

lemma int_less_diff4: "n + 4 < m \<Longrightarrow> int n < int m - 4"
  by simp

text \<open>Reading an index that was written gives its entries, the last one first.\<close>

lemma lmo_read_index_bytes:
  assumes "unat i + 16 * length es + 4 = sz" and "sz < 2 ^ 32" and "\<And>n. le_malloc e n"
  shows "lmo_read_index e sz i (concat (map entry_bytes es) @ r) head = Inr (rev es @ head)"
  using assms(1)
proof (induction es arbitrary: i head)
  case Nil
  from Nil have sz: "int sz - 4 = int (unat i)" by auto
  moreover have "(int sz - 4) mod 2 ^ 64 = int sz - 4" using sz assms(2) by (intro mod_pos_pos_trivial) simp_all
  ultimately have "(int sz - 4) mod 2 ^ 64 = int (unat i)" by simp
  then show ?case by (subst lmo_read_index.simps) simp
next
  case (Cons en es)
  have i: "unat (i + 16) = unat i + 16"
    using Cons.prems assms(2) by (simp add: unat_word_ariths)
  have "int sz - 4 < 2 ^ 64" using assms(2) by simp
  then have "(int sz - 4) mod 2 ^ 64 = int sz - 4" using Cons.prems by (intro mod_pos_pos_trivial) linarith+
  moreover have "int (unat i) < int sz - 4" by (rule int_less_diff4) (use Cons.prems in simp)
  ultimately have "int (unat i) < (int sz - 4) mod 2 ^ 64" by (simp only:)
  moreover have "lmo_read_index e sz (i + 16) (concat (map entry_bytes es) @ r) (en # head) = Inr (rev es @ en # head)"
    using Cons.prems by (intro Cons.IH) (simp add: i)
  ultimately show ?case
    by (subst lmo_read_index.simps) (simp add: assms(3) lmo_read_entry_bytes)
qed

section \<open>Nothing stays open\<close>

definition held :: "lmo_proc \<Rightarrow> nat \<times> nat \<times> nat \<times> nat" where
  "held p = (lp_fds p, lp_entries p, lp_archives p, lp_maps p)"

definition index_eof :: string where
  "index_eof = ''Unexpected EOF while reading index entry''"

lemma lmo_read_index_fails:
  "lmo_read_index e sz i rest head = Inl (msg, head', stray) \<Longrightarrow>
    (msg = index_eof \<and> stray = 1) \<or> (msg = ''Out of memory'' \<and> stray = 0)"
proof (induction e sz i rest head rule: lmo_read_index.induct)
  case (1 e sz i rest head)
  show ?case
  proof (cases "lmo_read_entry rest")
    case None
    with "1.prems" show ?thesis
      by (subst (asm) lmo_read_index.simps) (simp add: index_eof_def split: if_splits)
  next
    case (Some x)
    obtain en rest' where x: "x = (en, rest')" by (cases x)
    show ?thesis
    proof (cases "int (unat i) < (int sz - 4) mod 2 ^ 64 \<and> le_malloc e (Suc (length head))")
      case True
      with "1.prems" Some x have "lmo_read_index e sz (i + 16) rest' (en # head) = Inl (msg, head', stray)"
        by (subst (asm) lmo_read_index.simps) simp
      with True Some x show ?thesis using "1.IH" by blast
    next
      case False
      with "1.prems" Some show ?thesis
        by (subst (asm) lmo_read_index.simps) (auto split: if_splits)
    qed
  qed
qed

text \<open>
  The failures between the allocation of the archive and \<^verbatim>\<open>mmap()\<close>: the index cannot be read, or the
  descriptor cannot be set back.
\<close>

definition lmo_half_open :: "lmo_env \<Rightarrow> bool" where
  "lmo_half_open e = (case (le_stat e, le_file e) of
     (Some sz, Some f) \<Rightarrow> (case lmo_read32 (drop (length f - 4) f) of
         None \<Rightarrow> False
       | Some (idx, _) \<Rightarrow> 4 \<le> length f \<and> le_seek e (unat idx) \<and> le_malloc e 0 \<and>
           (\<not> le_seek e 0 \<or> (case lmo_read_index e sz idx (drop (unat idx) f) [] of Inl _ \<Rightarrow> True | Inr _ \<Rightarrow> False)))
   | _ \<Rightarrow> False)"

text \<open>\<open>wild\<close>: whether the exit goes through a pointer that was never assigned.\<close>

definition open_outcome :: "bool \<Rightarrow> lmo_proc \<Rightarrow> lmo_opened \<Rightarrow> bool" where
  "open_outcome wild p r \<longleftrightarrow> (case r of
     None \<Rightarrow> wild
   | Some (Some a, p') \<Rightarrow> \<not> wild \<and> held (lmo_close (Some a) p') = held p
   | Some (None, p') \<Rightarrow> \<not> wild \<and> lmo_error p' \<noteq> [] \<and>
       held p' = (lp_fds p, lp_entries p + (if lmo_error p' = index_eof then 1 else 0), lp_archives p, lp_maps p))"

lemmas outcome_defs = open_outcome_def held_def lmo_cleanup_def lmo_seterror_def lmo_error_def index_eof_def Let_def

lemma lmo_load_outcome:
  "open_outcome (le_junk e \<and> (\<not> le_seek e 0 \<or> (case lmo_read_index e sz idx (drop (unat idx) f) [] of Inl _ \<Rightarrow> True | Inr _ \<Rightarrow> False)))
     p (lmo_load e sz f idx (p\<lparr>lp_fds := lp_fds p + 1, lp_archives := lp_archives p + 1\<rparr>))"
proof (cases "lmo_read_index e sz idx (drop (unat idx) f) []")
  case (Inl x)
  obtain msg head stray where x: "x = (msg, head, stray)" by (cases x)
  from lmo_read_index_fails [OF Inl [unfolded x]]
  have "msg = index_eof \<and> stray = 1 \<or> msg = ''Out of memory'' \<and> stray = 0" .
  then show ?thesis
  proof (elim disjE conjE)
    assume "msg = index_eof" "stray = 1"
    then show ?thesis by (simp add: lmo_load_def Inl x outcome_defs)
  next
    assume "msg = ''Out of memory''" "stray = 0"
    then show ?thesis by (simp add: lmo_load_def Inl x outcome_defs)
  qed
next
  case (Inr head)
  then show ?thesis
    by (simp add: lmo_load_def outcome_defs lmo_close_def)
qed

lemma early_outcome:
  assumes "\<And>s. take 1023 (msg @ s) \<noteq> index_eof" and "msg \<noteq> []"
  shows "open_outcome False p (lmo_cleanup e True [] None (lmo_seterror e msg b (p\<lparr>lp_fds := Suc (lp_fds p)\<rparr>)))"
  using assms(1) [of "'': '' @ le_strerror e"] assms(1) [of "[]"] assms(2)
  by (simp add: open_outcome_def held_def lmo_cleanup_def lmo_seterror_def lmo_error_def)

lemma late_outcome:
  "open_outcome (le_junk e \<and> (\<not> le_seek e 0 \<or> (case lmo_read_index e sz idx (drop (unat idx) f) [] of Inl _ \<Rightarrow> True | Inr _ \<Rightarrow> False)))
     p (lmo_load e sz f idx (p\<lparr>lp_fds := Suc (lp_fds p), lp_archives := Suc (lp_archives p)\<rparr>))"
  using lmo_load_outcome [of e sz idx f p] by simp

lemma lmo_open_outcome: "open_outcome (le_junk e \<and> lmo_half_open e) p (lmo_open e p)"
proof (cases "le_stat e")
  case None
  then show ?thesis by (simp add: lmo_open_def lmo_half_open_def outcome_defs)
next
  case (Some sz)
  show ?thesis
  proof (cases "le_file e")
    case None
    with Some show ?thesis by (simp add: lmo_open_def lmo_half_open_def outcome_defs)
  next
    case f: (Some f)
    show ?thesis
    proof (cases "lmo_read32 (drop (length f - 4) f)")
      case None
      with Some f show ?thesis
        by (auto simp: lmo_open_def lmo_half_open_def Let_def index_eof_def intro: early_outcome)
    next
      case idx: (Some x)
      obtain i r where x: "x = (i, r)" by (cases x)
      show ?thesis
      proof (cases "4 \<le> length f \<and> le_seek e (unat i) \<and> le_malloc e 0")
        case True
        with Some f idx x late_outcome [of e sz i f p] show ?thesis by (simp add: lmo_open_def lmo_half_open_def Let_def)
      next
        case False
        then have h: "\<not> lmo_half_open e" using Some f idx x by (auto simp: lmo_half_open_def)
        from False show ?thesis
          unfolding lmo_open_def Some f idx x option.case prod.case Let_def using h
          by (auto simp: index_eof_def intro: early_outcome)
      qed
    qed
  qed
qed

text \<open>
  C38: An archive that was opened and closed leaves nothing behind: every descriptor, mapping,
  archive and entry is returned. An \<open>lmo_open\<close> that fails reports an error and returns everything
  too, except that an index cut short in the middle of an entry leaks exactly that entry. The
  exception is a failure between the allocation of the archive and \<^verbatim>\<open>mmap()\<close>: its exit reads the
  pointer to the mapping, which nothing has set, and is undefined exactly when the fresh memory
  holds anything but \<^verbatim>\<open>NULL\<close> or \<^verbatim>\<open>MAP_FAILED\<close> there.
\<close>
theorem lmo_open_close: "case lmo_open e p of
    None \<Rightarrow> le_junk e \<and> lmo_half_open e
  | Some (Some a, p') \<Rightarrow> \<not> (le_junk e \<and> lmo_half_open e) \<and> held (lmo_close (Some a) p') = held p
  | Some (None, p') \<Rightarrow> \<not> (le_junk e \<and> lmo_half_open e) \<and> lmo_error p' \<noteq> [] \<and>
      held p' = (lp_fds p, lp_entries p + (if lmo_error p' = index_eof then 1 else 0), lp_archives p, lp_maps p)"
  using lmo_open_outcome [of e p] by (simp add: open_outcome_def)

section \<open>Bounds of a lookup\<close>

lemma copy_length:
  assumes "1 \<le> len" and "len < 2 ^ 31"
  shows "(if ent_length en < word_of_int (len - 1) then sint (ent_length en) else len - 1) =
    int (min (nat len - 1) (unat (ent_length en)))"
proof -
  have w: "uint (word_of_int (len - 1) :: u32) = len - 1"
    using assms by (simp add: uint_word_of_int del: wi_hom_syms of_int_diff)
  show ?thesis
  proof (cases "ent_length en < word_of_int (len - 1)")
    case True
    then have l: "uint (ent_length en) < len - 1" unfolding word_less_def w .
    have "sint (ent_length en) = uint (ent_length en)"
      unfolding sint_uint using l assms(2) by (intro signed_take_bit_int_eq_self) (simp_all add: order_trans [OF _ uint_ge_0])
    moreover have "int (unat (ent_length en)) = uint (ent_length en)" by simp
    then have "min (nat len - 1) (unat (ent_length en)) = unat (ent_length en)" using l by linarith
    ultimately show ?thesis using True by simp
  next
    case False
    then have "len - 1 \<le> uint (ent_length en)" unfolding word_less_def w by simp
    moreover have "int (unat (ent_length en)) = uint (ent_length en)" by simp
    ultimately have "min (nat len - 1) (unat (ent_length en)) = nat len - 1" using assms(1) by linarith
    with False assms(1) show ?thesis by simp
  qed
qed

lemma lookup_eq:
  assumes "1 \<le> len" and "len < 2 ^ 31" and "nat len \<le> length dest"
  shows "lmo_lookup sg (Some a) key dest len =
    (case lmo_find (sfh_hash sg key) (ar_index a) of
       None \<Rightarrow> Some (-1, dest)
     | Some en \<Rightarrow> (let n = min (nat len - 1) (unat (ent_length en)) in
         if unat (ent_offset en) + n \<le> length (ar_mmap a)
         then Some (int n, take n (drop (unat (ent_offset en)) (ar_mmap a)) @ NUL # drop (Suc n) dest)
         else None))"
proof (cases "lmo_find (sfh_hash sg key) (ar_index a)")
  case None
  then show ?thesis by (simp add: lmo_lookup_def)
next
  case (Some en)
  have "min (nat len - 1) (unat (ent_length en)) < length dest" using assms by linarith
  then show ?thesis
    by (simp only: lmo_lookup_def Some option.case lmo_copy_def copy_length [OF assms(1,2)] Let_def nat_int not_le)
      (simp add: not_less, linarith?)
qed

text \<open>
  C39: A lookup leaves the mapped file exactly when it finds an entry and the bytes it copies of it
  do not lie within the mapping, which no check prevents for a damaged archive. Otherwise it never
  writes outside the caller's buffer: without an entry it returns -1 and leaves the buffer alone;
  with one it returns the number of bytes copied, the length of the entry or one less than the size
  of the buffer, whichever is smaller, and the buffer then holds these bytes of the mapping from the
  offset of the entry on, the terminator behind them, and is unchanged after it.
\<close>
theorem lmo_lookup_bounds:
  assumes "1 \<le> len" and "len < 2 ^ 31" and "nat len \<le> length dest"
  shows "case lmo_find (sfh_hash sg key) (ar_index a) of
      None \<Rightarrow> lmo_lookup sg (Some a) key dest len = Some (-1, dest)
    | Some en \<Rightarrow> (let n = min (nat len - 1) (unat (ent_length en)); off = unat (ent_offset en) in
        (lmo_lookup sg (Some a) key dest len = None \<longleftrightarrow> length (ar_mmap a) < off + n) \<and>
        (off + n \<le> length (ar_mmap a) \<longrightarrow> (\<exists>d. lmo_lookup sg (Some a) key dest len = Some (int n, d) \<and>
          length d = length dest \<and> n < nat len \<and> take n d = take n (drop off (ar_mmap a)) \<and> d ! n = NUL \<and>
          drop (Suc n) d = drop (Suc n) dest)))"
proof (cases "lmo_find (sfh_hash sg key) (ar_index a)")
  case (Some en)
  define n where "n = min (nat len - 1) (unat (ent_length en))"
  define off where "off = unat (ent_offset en)"
  have "n \<le> nat len - 1" by (simp add: n_def)
  then have n: "n < nat len" "n < length dest" using assms(1,3) by linarith+
  have eq: "lmo_lookup sg (Some a) key dest len = (if off + n \<le> length (ar_mmap a)
      then Some (int n, take n (drop off (ar_mmap a)) @ NUL # drop (Suc n) dest) else None)"
    unfolding lookup_eq [OF assms] Some option.case Let_def n_def off_def ..
  have len: "length (take n (drop off (ar_mmap a))) = n" if "off + n \<le> length (ar_mmap a)" using that by simp
  show ?thesis unfolding Some option.case Let_def n_def [symmetric] off_def [symmetric]
    using n len by (auto simp: eq nth_append)
qed (simp add: lookup_eq [OF assms])

definition demo_archive :: lmo_archive where
  "demo_archive = \<lparr>ar_length = 4, ar_index = [\<lparr>key_id = sfh_hash True ''yes'', val_id = 0, ent_offset = 0, ent_length = 2\<rparr>],
     ar_mmap = ''ja'' @ [NUL, NUL]\<rparr>"

theorem lmo_lookup_bounds_witness:
  "\<exists>d. lmo_lookup True (Some demo_archive) ''yes'' ''xxxxx'' 5 = Some (2, d) \<and> length d = length ''xxxxx'' \<and> take 2 d = ''ja'' \<and> d ! 2 = NUL \<and>
     drop (Suc 2) d = ''xx''"
proof -
  let ?en = "\<lparr>key_id = sfh_hash True ''yes'', val_id = 0, ent_offset = 0, ent_length = 2\<rparr>"
  have f: "lmo_find (sfh_hash True ''yes'') (ar_index demo_archive) = Some ?en" by (simp add: demo_archive_def)
  have n: "min (nat 5 - 1) (unat (ent_length ?en)) = 2" "unat (ent_offset ?en) = 0" by simp_all
  have m: "ar_mmap demo_archive = ''ja'' @ [NUL, NUL]" by (simp add: demo_archive_def)
  from lmo_lookup_bounds [where len = 5 and dest = "''xxxxx''" and sg = True and a = demo_archive and key = "''yes''"]
  show ?thesis unfolding f option.case Let_def n m by simp
qed

lemma demo_archive_lookup: "lmo_lookup True (Some demo_archive) ''yes'' ''xxxxx'' 5 = Some (2, ''ja'' @ NUL # ''xx'')"
  using lookup_eq [of 5 "''xxxxx''" True demo_archive "''yes''"] by (simp add: demo_archive_def)

text \<open>An index cut short: with cleared memory an entry is leaked, with other memory the exit is undefined.\<close>

definition demo_cut_env :: "bool \<Rightarrow> lmo_env" where
  "demo_cut_env junk = \<lparr>le_stat = Some 14, le_file = Some (''ja'' @ replicate 8 NUL @ [NUL, NUL, NUL, CHR 0x04]),
     le_strerror = [], le_malloc = (\<lambda>n. True), le_seek = (\<lambda>n. True), le_mmap = True, le_junk = junk\<rparr>"

lemma lmo_open_cut_index:
  "lmo_open (demo_cut_env True) p = None"
  "\<exists>p'. lmo_open (demo_cut_env False) p = Some (None, p') \<and> lp_entries p' = Suc (lp_entries p)"
proof -
  have r: "lmo_read32 (drop (length (the (le_file (demo_cut_env j))) - 4) (the (le_file (demo_cut_env j)))) = Some (4, [])" for j
    by code_simp
  have i: "lmo_read_index (demo_cut_env j) 14 4 (drop 4 (the (le_file (demo_cut_env j)))) [] = Inl (index_eof, [], 1)" for j
    by (subst lmo_read_index.simps) (simp add: demo_cut_env_def lmo_read_entry_def lmo_read32_def index_eof_def)
  show "lmo_open (demo_cut_env True) p = None"
    "\<exists>p'. lmo_open (demo_cut_env False) p = Some (None, p') \<and> lp_entries p' = Suc (lp_entries p)"
    using r [of True] r [of False] i [of True] i [of False]
    by (simp_all add: lmo_open_def lmo_load_def lmo_cleanup_def lmo_seterror_def demo_cut_env_def Let_def)
qed

end
