(* ===== verification/Luci_Po2lmo.thy ===== *)
theory Luci_Po2lmo
  imports Luci_Lmo
begin

text \<open>
  The compiler for translations (\<^verbatim>\<open>lmo_po2lmo.c\<close>): it reads a PO catalogue line by line with a small
  state machine and writes the archive that \<^verbatim>\<open>lmo_core.c\<close> reads. Buffers are lists of their size, so
  that stale bytes and missing terminators are visible; leaving the process and leaving a buffer
  are values of an error type. The main result is the round trip from a catalogue to a lookup.
\<close>

section \<open>The compiler\<close>

datatype po_error = Po_usage | Po_die string | Po_fault

text \<open>
  What the program is given: whether the \<open>n\<close>-th entry can be allocated, whether a block can be written behind
  what was written, whether the input ends with a read error, and what the buffer \<open>tmp\<close>
  holds before its first use.
\<close>

record po_env =
  pe_malloc :: "nat \<Rightarrow> bool"
  pe_write :: "string \<Rightarrow> string \<Rightarrow> bool"
  pe_readerr :: bool
  pe_tmp :: string

record po_state =
  po_st :: nat
  po_key :: string
  po_val :: string
  po_tmp :: string
  po_offset :: u32
  po_head :: "lmo_entry list"
  po_out :: string

text \<open>The loop of \<open>extract_string\<close>; \<open>off\<close> is \<^const>\<open>None\<close> for -1.\<close>

function extract_loop :: "string \<Rightarrow> nat \<Rightarrow> nat \<Rightarrow> bool \<Rightarrow> nat option \<Rightarrow> string \<Rightarrow> nat option \<times> string" where
  "extract_loop src len pos esc off dest =
    (if \<not> (pos < length src \<and> pos < len) then (off, dest)
     else (case off of
         None \<Rightarrow> extract_loop src len (Suc pos) esc (if src ! pos = CHR 0x22 then Some (Suc pos) else None) dest
       | Some k \<Rightarrow>
           if esc then extract_loop src len (Suc pos) False off (dest[pos - k := src ! pos])
           else if src ! pos = CHR 0x5C then extract_loop src len (Suc pos) True (Some (Suc k)) dest
           else if src ! pos \<noteq> CHR 0x22 then extract_loop src len (Suc pos) esc off (dest[pos - k := src ! pos])
           else (off, dest[pos - k := NUL])))"
  by pat_completeness auto
termination
  by (relation "measure (\<lambda>(src, len, pos, esc, off, dest). length src - pos)") auto

declare extract_loop.simps [simp del]

text \<open>The result is \<^const>\<open>None\<close> when the destination holds no terminator for \<^verbatim>\<open>strlen(dest)\<close>.\<close>

definition extract_string :: "string \<Rightarrow> string \<Rightarrow> nat \<Rightarrow> (int \<times> string) option" where
  "extract_string src dest len =
    (case extract_loop src len 0 False None dest of
       (None, dest1) \<Rightarrow> Some (-1, dest1)
     | (Some k, dest1) \<Rightarrow> if NUL \<in> set dest1 then Some (int (length (cstr dest1)), dest1) else None)"

definition strcat :: "string \<Rightarrow> string \<Rightarrow> string option" where
  "strcat d s =
    (let n = length (cstr d) + length (cstr s) in
     if NUL \<in> set d \<and> NUL \<in> set s \<and> n < length d then Some (cstr d @ cstr s @ NUL # drop (Suc n) d) else None)"

definition po_print :: "po_env \<Rightarrow> string \<Rightarrow> string \<Rightarrow> po_error + string" where
  "po_print e blk out = (if pe_write e out blk then Inr (out @ blk) else Inl (Po_die ''Failed to write stdout''))"

definition po_zero :: string where
  "po_zero = replicate 4096 NUL"

text \<open>The first half of the loop body: the transitions of the state machine.\<close>

definition po_msgid :: "string \<Rightarrow> po_state \<Rightarrow> po_error + po_state" where
  "po_msgid line s =
    (case extract_string line (po_key s) 4096 of
       None \<Rightarrow> Inl Po_fault
     | Some (n, b) \<Rightarrow> if n = -1 then Inl (Po_die ''Syntax error in msgid'')
         else Inr (s\<lparr>po_key := b, po_st := (if n = 0 then 1 else 2)\<rparr>))"

definition po_msgstr :: "string \<Rightarrow> po_state \<Rightarrow> po_error + po_state" where
  "po_msgstr line s =
    (case extract_string line (po_val s) 4096 of
       None \<Rightarrow> Inl Po_fault
     | Some (n, b) \<Rightarrow> Inr (s\<lparr>po_val := b, po_st := (if n = -1 then 4 else 3)\<rparr>))"

definition po_more_key :: "string \<Rightarrow> po_state \<Rightarrow> po_error + po_state" where
  "po_more_key line s =
    (case extract_string line (po_tmp s) 4096 of
       None \<Rightarrow> Inl Po_fault
     | Some (n, b) \<Rightarrow> if n = -1 then Inr (s\<lparr>po_tmp := b, po_st := 2\<rparr>)
         else (case strcat (po_key s) b of None \<Rightarrow> Inl Po_fault | Some k \<Rightarrow> Inr (s\<lparr>po_tmp := b, po_key := k\<rparr>)))"

definition po_more_val :: "string \<Rightarrow> po_state \<Rightarrow> po_error + po_state" where
  "po_more_val line s =
    (case extract_string line (po_tmp s) 4096 of
       None \<Rightarrow> Inl Po_fault
     | Some (n, b) \<Rightarrow> if n = -1 then Inr (s\<lparr>po_tmp := b, po_st := 4\<rparr>)
         else (case strcat (po_val s) b of None \<Rightarrow> Inl Po_fault | Some v \<Rightarrow> Inr (s\<lparr>po_tmp := b, po_val := v\<rparr>)))"

definition po_read :: "string \<Rightarrow> po_state \<Rightarrow> po_error + po_state" where
  "po_read line s =
    (if po_st s = 0 \<and> take 7 line = ''msgid '' @ [CHR 0x22] then po_msgid line s
     else if po_st s = 1 \<or> po_st s = 2
     then (if take 8 line = ''msgstr '' @ [CHR 0x22] \<or> po_st s = 2 then po_msgstr line s else po_more_key line s)
     else if po_st s = 3 then po_more_val line s
     else Inr s)"

text \<open>The second half: state 4 stores a complete message and starts over.\<close>

definition po_reset :: "po_state \<Rightarrow> po_state" where
  "po_reset s = s\<lparr>po_st := 0, po_key := po_zero, po_val := po_zero\<rparr>"

definition po_store :: "bool \<Rightarrow> po_env \<Rightarrow> po_state \<Rightarrow> po_error + po_state" where
  "po_store sg e s =
    (if po_st s \<noteq> 4 then Inr s
     else if NUL \<notin> set (po_key s) \<or> NUL \<notin> set (po_val s) then Inl Po_fault
     else (let k = cstr (po_key s); v = cstr (po_val s); key_id = sfh_hash sg k; val_id = sfh_hash sg v in
       if k \<noteq> [] \<and> v \<noteq> [] \<and> key_id \<noteq> val_id
       then if \<not> pe_malloc e (length (po_head s)) then Inl (Po_die ''Out of memory'')
         else (let len = length v + (4 - length v mod 4) mod 4 in
           if length (po_val s) < len then Inl Po_fault
           else (case po_print e (take len (po_val s)) (po_out s) of
               Inl x \<Rightarrow> Inl x
             | Inr out \<Rightarrow> Inr (po_reset (s\<lparr>po_out := out, po_offset := po_offset s + of_nat len,
                 po_head := \<lparr>key_id = key_id, val_id = val_id, ent_offset = po_offset s, ent_length = of_nat (length v)\<rparr>
                   # po_head s\<rparr>))))
       else Inr (po_reset s)))"

definition po_step :: "bool \<Rightarrow> po_env \<Rightarrow> string \<Rightarrow> po_state \<Rightarrow> po_error + po_state" where
  "po_step sg e line s = (case po_read line s of Inl x \<Rightarrow> Inl x | Inr s1 \<Rightarrow> po_store sg e s1)"

fun po_lines :: "bool \<Rightarrow> po_env \<Rightarrow> string list \<Rightarrow> po_state \<Rightarrow> po_error + po_state" where
  "po_lines sg e [] s = Inr s"
| "po_lines sg e (l # ls) s = (case po_step sg e (cstr l) s of Inl x \<Rightarrow> Inl x | Inr s1 \<Rightarrow> po_lines sg e ls s1)"

text \<open>At the end of the input the loop goes on with an empty line while a message is incomplete.\<close>

partial_function (option) po_eof :: "bool \<Rightarrow> po_env \<Rightarrow> po_state \<Rightarrow> (po_error + po_state) option" where
  "po_eof sg e s =
    (if 2 \<le> po_st s \<and> \<not> pe_readerr e
     then (case po_step sg e [] s of Inl x \<Rightarrow> Some (Inl x) | Inr s1 \<Rightarrow> po_eof sg e s1)
     else Some (Inr s))"

declare po_eof.simps [code]

fun po_index :: "po_env \<Rightarrow> lmo_entry list \<Rightarrow> string \<Rightarrow> po_error + string" where
  "po_index e [] out = Inr out"
| "po_index e (en # es) out =
    (case po_print e (put_be32 (key_id en)) out of Inl x \<Rightarrow> Inl x | Inr o1 \<Rightarrow>
    (case po_print e (put_be32 (val_id en)) o1 of Inl x \<Rightarrow> Inl x | Inr o2 \<Rightarrow>
    (case po_print e (put_be32 (ent_offset en)) o2 of Inl x \<Rightarrow> Inl x | Inr o3 \<Rightarrow>
    (case po_print e (put_be32 (ent_length en)) o3 of Inl x \<Rightarrow> Inl x | Inr o4 \<Rightarrow> po_index e es o4))))"

text \<open>The output file, or \<^const>\<open>None\<close> when it is removed.\<close>

definition po_finish :: "po_env \<Rightarrow> po_state \<Rightarrow> po_error + string option" where
  "po_finish e s =
    (case po_index e (po_head s) (po_out s) of
       Inl x \<Rightarrow> Inl x
     | Inr out \<Rightarrow>
         if 0 < sint (po_offset s)
         then (case po_print e (put_be32 (po_offset s)) out of Inl x \<Rightarrow> Inl x | Inr out1 \<Rightarrow> Inr (Some out1))
         else Inr None)"

definition po_init :: "po_env \<Rightarrow> po_state" where
  "po_init e = \<lparr>po_st = 0, po_key = po_zero, po_val = po_zero, po_tmp = pe_tmp e, po_offset = 0, po_head = [], po_out = []\<rparr>"

text \<open>The program on its arguments, the contents of the input if it can be opened, and whether the output can be
  opened; \<^const>\<open>None\<close> would be a run that does not end.\<close>

definition po2lmo :: "bool \<Rightarrow> po_env \<Rightarrow> string list \<Rightarrow> string option \<Rightarrow> bool \<Rightarrow> (po_error + string option) option" where
  "po2lmo sg e argv inp outp =
    (case (length argv = 3, inp, outp) of
       (True, Some content, True) \<Rightarrow>
         (case po_lines sg e (fgets_lines 4095 content) (po_init e) of
            Inl x \<Rightarrow> Some (Inl x)
          | Inr s \<Rightarrow> map_option (\<lambda>r. case r of Inl x \<Rightarrow> Inl x | Inr s1 \<Rightarrow> po_finish e s1) (po_eof sg e s))
     | _ \<Rightarrow> Some (Inl Po_usage))"

section \<open>Every run ends\<close>

lemma extract_empty: "extract_string [] dest n = Some (-1, dest)"
  by (simp add: extract_string_def extract_loop.simps [of "[]"])

lemma po_store_st: "po_store sg e s = Inr s' \<Longrightarrow> po_st s' = (if po_st s = 4 then 0 else po_st s)"
  by (auto simp: po_store_def po_reset_def Let_def split: if_splits sum.splits)

lemma po_read_st: "po_read line s = Inr s' \<Longrightarrow> po_st s \<le> 3 \<Longrightarrow> po_st s' \<le> 4"
  by (auto simp: po_read_def po_msgid_def po_msgstr_def po_more_key_def po_more_val_def
    split: if_splits option.splits prod.splits)

lemma po_step_st: "po_step sg e line s = Inr s' \<Longrightarrow> po_st s \<le> 3 \<Longrightarrow> po_st s' \<le> 3"
proof -
  assume "po_step sg e line s = Inr s'" "po_st s \<le> 3"
  then obtain s1 where "po_read line s = Inr s1" "po_store sg e s1 = Inr s'"
    by (auto simp: po_step_def split: sum.splits)
  with po_read_st [of line s s1] po_store_st [of sg e s1 s'] \<open>po_st s \<le> 3\<close> show ?thesis by (simp split: if_splits)
qed

lemma po_lines_st: "po_lines sg e ls s = Inr s' \<Longrightarrow> po_st s \<le> 3 \<Longrightarrow> po_st s' \<le> 3"
  by (induction ls arbitrary: s) (auto split: sum.splits dest: po_step_st)

lemma po_step_empty: "po_step sg e [] s = Inr s' \<Longrightarrow> po_st s = 2 \<or> po_st s = 3 \<Longrightarrow> po_st s' = 0"
  by (auto simp: po_step_def po_read_def po_msgstr_def po_more_val_def extract_empty dest!: po_store_st)

lemma po_eof_idle: "po_st s < 2 \<Longrightarrow> po_eof sg e s = Some (Inr s)"
  by (subst po_eof.simps) simp

lemma po_eof_returns:
  assumes "po_st s \<le> 3"
  shows "\<exists>r. po_eof sg e s = Some r"
proof (cases "2 \<le> po_st s \<and> \<not> pe_readerr e")
  case True
  then have st: "po_st s = 2 \<or> po_st s = 3" using assms by linarith
  show ?thesis
  proof (cases "po_step sg e [] s")
    case (Inl x)
    with True show ?thesis by (subst po_eof.simps) simp
  next
    case (Inr s1)
    then have "po_eof sg e s1 = Some (Inr s1)" using po_step_empty [OF Inr st] by (intro po_eof_idle) simp
    with True Inr show ?thesis by (subst po_eof.simps) simp
  qed
next
  case False
  then show ?thesis by (subst po_eof.simps) auto
qed

text \<open>
  The compiler ends on every input: the loop that goes on after the end of the file while a message is
  incomplete runs at most once, because an empty line completes the message.
\<close>
lemma po2lmo_ends: "\<exists>r. po2lmo sg e argv inp outp = Some r"
proof (cases "length argv = 3 \<and> outp")
  case True
  show ?thesis
  proof (cases inp)
    case (Some content)
    show ?thesis
    proof (cases "po_lines sg e (fgets_lines 4095 content) (po_init e)")
      case (Inr s)
      then have "po_st s \<le> 3" by (rule po_lines_st) (simp add: po_init_def)
      then obtain r where "po_eof sg e s = Some r" using po_eof_returns by blast
      with True Some Inr show ?thesis by (simp add: po2lmo_def)
    qed (simp add: po2lmo_def True Some)
  qed (simp add: po2lmo_def True)
next
  case False
  then show ?thesis by (auto simp: po2lmo_def split: option.split bool.split)
qed

section \<open>Quoted strings\<close>

definition po_escape :: "string \<Rightarrow> string" where
  "po_escape s = concat (map (\<lambda>c. if c = CHR 0x5C \<or> c = CHR 0x22 then [CHR 0x5C, c] else [c]) s)"

definition quoted :: "string \<Rightarrow> string \<Rightarrow> string" where
  "quoted kw s = kw @ CHR 0x22 # po_escape s @ [CHR 0x22, LF]"

lemma list_update_step:
  "i < length d \<Longrightarrow> take (Suc i) (d[i := c]) = take i d @ [c]" "drop (Suc i + n) (d[i := c]) = drop (Suc i + n) d"
  by (simp_all add: take_Suc_conv_app_nth)

lemma extract_loop_body:
  assumes "src = p @ po_escape s @ CHR 0x22 # q" and "length src \<le> len" and "k \<le> length p"
    and "length p - k + length s < length dest"
  shows "\<exists>k'. extract_loop src len (length p) False (Some k) dest =
    (Some k', take (length p - k) dest @ s @ NUL # drop (Suc (length p - k + length s)) dest)"
  using assms
proof (induction s arbitrary: p k dest)
  case Nil
  let ?i = "length p - k"
  have "length p < length src" and "src ! length p = CHR 0x22" using Nil.prems(1) by (simp_all add: po_escape_def)
  moreover have "dest[?i := NUL] = take ?i dest @ NUL # drop (Suc ?i) dest"
    using Nil.prems(4) by (simp add: upd_conv_take_nth_drop)
  ultimately show ?case using Nil.prems(2) by (subst extract_loop.simps) simp
next
  case (Cons c s)
  let ?i = "length p - k"
  have i: "?i < length dest" using Cons.prems(4) by simp
  have join: "take (Suc ?i) (dest[?i := c]) @ s @ NUL # drop (Suc (Suc ?i + length s)) (dest[?i := c]) =
      take ?i dest @ (c # s) @ NUL # drop (Suc (?i + length (c # s))) dest"
    using i list_update_step(1) [OF i, of c] list_update_step(2) [of ?i "Suc (length s)" dest c] by simp
  show ?case
  proof (cases "c = CHR 0x5C \<or> c = CHR 0x22")
    case True
    let ?p = "p @ [CHR 0x5C, c]"
    have src: "src = ?p @ po_escape s @ CHR 0x22 # q" using Cons.prems(1) True by (simp add: po_escape_def)
    have n: "Suc (length p) < length src" "src ! length p = CHR 0x5C" "src ! Suc (length p) = c"
      using src by (simp_all add: nth_append)
    have len: "length ?p - Suc k = Suc ?i" using Cons.prems(3) by simp
    have "\<exists>k'. extract_loop src len (length ?p) False (Some (Suc k)) (dest[?i := c]) =
        (Some k', take (length ?p - Suc k) (dest[?i := c]) @ s @ NUL # drop (Suc (length ?p - Suc k + length s)) (dest[?i := c]))"
      by (rule Cons.IH [OF src Cons.prems(2)]) (use Cons.prems(3,4) in simp_all)
    then obtain k' where k': "extract_loop src len (length ?p) False (Some (Suc k)) (dest[?i := c]) =
        (Some k', take ?i dest @ (c # s) @ NUL # drop (Suc (?i + length (c # s))) dest)"
      unfolding len join by blast
    have "extract_loop src len (length p) False (Some k) dest = extract_loop src len (Suc (length p)) True (Some (Suc k)) dest"
      using n Cons.prems(2) by (subst extract_loop.simps) simp
    also have "\<dots> = extract_loop src len (length ?p) False (Some (Suc k)) (dest[?i := c])"
      using n Cons.prems(2) by (subst extract_loop.simps) simp
    finally show ?thesis using k' by metis
  next
    case False
    let ?p = "p @ [c]"
    have src: "src = ?p @ po_escape s @ CHR 0x22 # q" using Cons.prems(1) False by (simp add: po_escape_def)
    have n: "length p < length src" "src ! length p = c" using src by (simp_all add: nth_append)
    have len: "length ?p - k = Suc ?i" using Cons.prems(3) by simp
    have "\<exists>k'. extract_loop src len (length ?p) False (Some k) (dest[?i := c]) =
        (Some k', take (length ?p - k) (dest[?i := c]) @ s @ NUL # drop (Suc (length ?p - k + length s)) (dest[?i := c]))"
      by (rule Cons.IH [OF src Cons.prems(2)]) (use Cons.prems(3,4) in simp_all)
    then obtain k' where k': "extract_loop src len (length ?p) False (Some k) (dest[?i := c]) =
        (Some k', take ?i dest @ (c # s) @ NUL # drop (Suc (?i + length (c # s))) dest)"
      unfolding len join by blast
    have "extract_loop src len (length p) False (Some k) dest = extract_loop src len (length ?p) False (Some k) (dest[?i := c])"
      using n False Cons.prems(2) by (subst extract_loop.simps) simp
    then show ?thesis using k' by metis
  qed
qed

lemma extract_loop_skip:
  assumes "CHR 0x22 \<notin> set kw" and "length kw + pos \<le> length src" and "length src \<le> len" and "take (length kw) (drop pos src) = kw"
  shows "extract_loop src len pos False None dest = extract_loop src len (pos + length kw) False None dest"
  using assms
proof (induction kw arbitrary: pos)
  case (Cons c kw)
  from Cons.prems have "pos < length src" by simp
  then have d: "drop pos src = src ! pos # drop (Suc pos) src" by (simp add: Cons_nth_drop_Suc)
  with Cons.prems have c: "src ! pos = c" "take (length kw) (drop (Suc pos) src) = kw" by simp_all
  have "extract_loop src len pos False None dest = extract_loop src len (Suc pos) False None dest"
    using Cons.prems c \<open>pos < length src\<close> by (subst extract_loop.simps) auto
  also have "\<dots> = extract_loop src len (Suc pos + length kw) False None dest"
    using Cons.prems c by (intro Cons.IH) simp_all
  finally show ?case by simp
qed simp

text \<open>Reading a quoted string gives the string, whatever the destination held before.\<close>

lemma extract_quoted:
  assumes "CHR 0x22 \<notin> set kw" and "NUL \<notin> set s" and "length (quoted kw s) \<le> n" and "length s < length dest"
  shows "extract_string (quoted kw s) dest n = Some (int (length s), s @ NUL # drop (Suc (length s)) dest)"
proof -
  let ?src = "quoted kw s" and ?p = "kw @ [CHR 0x22]"
  have src: "?src = ?p @ po_escape s @ CHR 0x22 # [LF]" by (simp add: quoted_def)
  have "extract_loop ?src n 0 False None dest = extract_loop ?src n (0 + length kw) False None dest"
    using assms by (intro extract_loop_skip) (simp_all add: quoted_def)
  also have "\<dots> = extract_loop ?src n (length ?p) False (Some (length ?p)) dest"
    using assms(3) by (subst extract_loop.simps) (simp add: quoted_def nth_append)
  finally obtain k' where "extract_loop ?src n 0 False None dest = (Some k', s @ NUL # drop (Suc (length s)) dest)"
    using extract_loop_body [OF src assms(3), of "length ?p" dest] assms(4) by auto
  then show ?thesis using assms(2) by (simp add: extract_string_def cstr_append_NUL)
qed

lemma extract_unquoted:
  assumes "CHR 0x22 \<notin> set line" and "length line \<le> n"
  shows "extract_string line dest n = Some (-1, dest)"
proof -
  have "extract_loop line n 0 False None dest = extract_loop line n (0 + length line) False None dest"
    using assms by (intro extract_loop_skip) simp_all
  also have "\<dots> = (None, dest)" by (subst extract_loop.simps) simp
  finally show ?thesis by (simp add: extract_string_def)
qed

section \<open>Catalogues\<close>

text \<open>A buffer that holds a string and zeros behind it.\<close>

definition zbuf :: "string \<Rightarrow> string" where
  "zbuf s = s @ replicate (4096 - length s) NUL"

definition po_text_ok :: "string \<Rightarrow> bool" where
  "po_text_ok s \<longleftrightarrow> NUL \<notin> set s \<and> LF \<notin> set s"

record message =
  msg_comments :: "string list"
  msg_id :: string
  msg_id_more :: "string list"
  msg_str :: string
  msg_str_more :: "string list"

definition msgid_of :: "message \<Rightarrow> string" where
  "msgid_of m = msg_id m @ concat (msg_id_more m)"

definition msgstr_of :: "message \<Rightarrow> string" where
  "msgstr_of m = msg_str m @ concat (msg_str_more m)"

definition message_lines :: "message \<Rightarrow> string list" where
  "message_lines m = map (\<lambda>c. c @ [LF]) (msg_comments m) @ quoted ''msgid '' (msg_id m) # map (quoted []) (msg_id_more m)
     @ quoted ''msgstr '' (msg_str m) # map (quoted []) (msg_str_more m) @ [[LF]]"

definition po_text :: "message list \<Rightarrow> string" where
  "po_text ms = concat (concat (map message_lines ms))"

text \<open>
  The catalogues the compiler understands: lines and strings fit the buffers, a key in several pieces starts with
  an empty one, and no other line looks like the start of a message.
\<close>

definition message_ok :: "message \<Rightarrow> bool" where
  "message_ok m \<longleftrightarrow> list_all po_text_ok (msg_comments m) \<and>
     list_all (\<lambda>c. take 7 (c @ [LF]) \<noteq> ''msgid '' @ [CHR 0x22]) (msg_comments m) \<and>
     po_text_ok (msgid_of m) \<and> po_text_ok (msgstr_of m) \<and> length (msgid_of m) < 4096 \<and> length (msgstr_of m) < 4096 \<and>
     (msg_id m = [] \<or> msg_id_more m = []) \<and> list_all (\<lambda>l. length l \<le> 4095) (message_lines m)"

lemma length_zbuf: "length s < 4096 \<Longrightarrow> length (zbuf s) = 4096 \<and> NUL \<in> set (zbuf s)"
  by (simp add: zbuf_def)

lemma zbuf_Nil: "zbuf [] = po_zero"
  by (simp add: zbuf_def po_zero_def)

lemma cstr_zbuf: "NUL \<notin> set s \<Longrightarrow> length s < 4096 \<Longrightarrow> cstr (zbuf s) = s"
  by (cases "4096 - length s") (simp_all add: zbuf_def cstr_append_NUL)

lemma zbuf_fill: "length s < 4096 \<Longrightarrow> s @ NUL # drop (Suc (length s)) po_zero = zbuf s"
  by (simp add: zbuf_def po_zero_def flip: replicate_Suc)

lemma strcat_zbuf:
  assumes "NUL \<notin> set a" "NUL \<notin> set b" "length a + length b < 4096"
  shows "strcat (zbuf a) (b @ NUL # r) = Some (zbuf (a @ b))"
proof -
  have "length a < 4096" using assms(3) by simp
  have "drop (Suc (length a + length b)) (zbuf a) = replicate (4096 - Suc (length a + length b)) NUL"
    by (simp add: zbuf_def)
  moreover have "Suc (4096 - Suc (length a + length b)) = 4096 - (length a + length b)" using assms(3) by linarith
  ultimately have "NUL # drop (Suc (length a + length b)) (zbuf a) = replicate (4096 - (length a + length b)) NUL"
    by (metis replicate_Suc)
  then show ?thesis
    using length_zbuf [of a] cstr_zbuf [OF assms(1) \<open>length a < 4096\<close>] assms \<open>length a < 4096\<close>
    by (simp add: strcat_def cstr_append_NUL Let_def) (simp add: zbuf_def)
qed

text \<open>The state between two lines: the phase, the two strings read so far, and what was written.\<close>

definition po_at :: "po_state \<Rightarrow> nat \<Rightarrow> string \<Rightarrow> string \<Rightarrow> po_state \<Rightarrow> bool" where
  "po_at s n k v s0 \<longleftrightarrow> po_st s = n \<and> po_key s = zbuf k \<and> po_val s = zbuf v \<and> length (po_tmp s) = 4096 \<and>
     po_offset s = po_offset s0 \<and> po_head s = po_head s0 \<and> po_out s = po_out s0"

lemma po_store_other: "po_st s \<noteq> 4 \<Longrightarrow> po_store sg e s = Inr s"
  by (simp add: po_store_def)

lemma po_step_comment:
  assumes "po_at s 0 k v s0" and "take 7 l \<noteq> ''msgid '' @ [CHR 0x22]"
  shows "po_step sg e l s = Inr s"
  using assms by (simp add: po_step_def po_read_def po_at_def po_store_other)

lemma po_step_msgid:
  assumes "po_at s 0 [] [] s0" and "NUL \<notin> set k" and "length (quoted ''msgid '' k) \<le> 4095" and "length k < 4096"
  shows "\<exists>s'. po_step sg e (quoted ''msgid '' k) s = Inr s' \<and> po_at s' (if k = [] then 1 else 2) k [] s0"
proof -
  have "extract_string (quoted ''msgid '' k) (po_key s) 4096 = Some (int (length k), zbuf k)"
    using assms by (subst extract_quoted) (simp_all add: po_at_def zbuf_Nil po_zero_def [symmetric] zbuf_fill length_zbuf [of "[]", unfolded zbuf_Nil])
  then have "po_read (quoted ''msgid '' k) s = Inr (s\<lparr>po_key := zbuf k, po_st := (if k = [] then 1 else 2)\<rparr>)"
    using assms(1) by (simp add: po_read_def po_at_def po_msgid_def quoted_def)
  then show ?thesis using assms(1) by (simp add: po_step_def po_store_other po_at_def)
qed

lemma po_step_msgstr:
  assumes "po_at s n k [] s0" and "n = 1 \<or> n = 2" and "NUL \<notin> set v" and "length (quoted ''msgstr '' v) \<le> 4095" and "length v < 4096"
  shows "\<exists>s'. po_step sg e (quoted ''msgstr '' v) s = Inr s' \<and> po_at s' 3 k v s0"
proof -
  have "extract_string (quoted ''msgstr '' v) (po_val s) 4096 = Some (int (length v), zbuf v)"
    using assms by (subst extract_quoted) (simp_all add: po_at_def zbuf_Nil zbuf_fill length_zbuf [of "[]", unfolded zbuf_Nil])
  then have "po_read (quoted ''msgstr '' v) s = Inr (s\<lparr>po_val := zbuf v, po_st := 3\<rparr>)"
    using assms(1,2) by (auto simp: po_read_def po_at_def po_msgstr_def quoted_def)
  then show ?thesis using assms(1) by (simp add: po_step_def po_store_other po_at_def)
qed

lemma po_step_more_key:
  assumes "po_at s 1 k [] s0" and "NUL \<notin> set k" "NUL \<notin> set t" and "length (quoted [] t) \<le> 4095" and "length k + length t < 4096"
  shows "\<exists>s'. po_step sg e (quoted [] t) s = Inr s' \<and> po_at s' 1 (k @ t) [] s0"
proof -
  have "extract_string (quoted [] t) (po_tmp s) 4096 = Some (int (length t), t @ NUL # drop (Suc (length t)) (po_tmp s))"
    using assms by (intro extract_quoted) (simp_all add: po_at_def)
  then have "po_read (quoted [] t) s =
      Inr (s\<lparr>po_tmp := t @ NUL # drop (Suc (length t)) (po_tmp s), po_key := zbuf (k @ t)\<rparr>)"
    using assms by (simp add: po_read_def po_at_def po_more_key_def strcat_zbuf quoted_def [of "[]"])
  then show ?thesis using assms(1,5) by (simp add: po_step_def po_store_other po_at_def)
qed

lemma po_step_more_val:
  assumes "po_at s 3 k v s0" and "NUL \<notin> set v" "NUL \<notin> set t" and "length (quoted [] t) \<le> 4095" and "length v + length t < 4096"
  shows "\<exists>s'. po_step sg e (quoted [] t) s = Inr s' \<and> po_at s' 3 k (v @ t) s0"
proof -
  have "extract_string (quoted [] t) (po_tmp s) 4096 = Some (int (length t), t @ NUL # drop (Suc (length t)) (po_tmp s))"
    using assms by (intro extract_quoted) (simp_all add: po_at_def)
  then have "po_read (quoted [] t) s =
      Inr (s\<lparr>po_tmp := t @ NUL # drop (Suc (length t)) (po_tmp s), po_val := zbuf (v @ t)\<rparr>)"
    using assms by (simp add: po_read_def po_at_def po_more_val_def strcat_zbuf)
  then show ?thesis using assms(1,5) by (simp add: po_step_def po_store_other po_at_def)
qed

lemma po_lines_append:
  "po_lines sg e (a @ b) s = (case po_lines sg e a s of Inl x \<Rightarrow> Inl x | Inr s1 \<Rightarrow> po_lines sg e b s1)"
  by (induction a arbitrary: s) (simp_all split: sum.split)

lemma NUL_quoted: "NUL \<notin> set kw \<Longrightarrow> NUL \<notin> set t \<Longrightarrow> NUL \<notin> set (quoted kw t)"
  by (auto simp: quoted_def po_escape_def)

lemma po_lines_comments:
  assumes "po_at s 0 k v s0" and "list_all po_text_ok cs" and "list_all (\<lambda>c. take 7 (c @ [LF]) \<noteq> ''msgid '' @ [CHR 0x22]) cs"
  shows "po_lines sg e (map (\<lambda>c. c @ [LF]) cs) s = Inr s"
  using assms(2,3) by (induction cs) (simp_all add: po_text_ok_def cstr_append po_step_comment [OF assms(1)])

lemma po_lines_more_key:
  assumes "po_at s 1 k [] s0" and "NUL \<notin> set (k @ concat ts)" and "list_all (\<lambda>t. length (quoted [] t) \<le> 4095) ts"
    and "length (k @ concat ts) < 4096"
  shows "\<exists>s'. po_lines sg e (map (quoted []) ts) s = Inr s' \<and> po_at s' 1 (k @ concat ts) [] s0"
  using assms
proof (induction ts arbitrary: s k)
  case (Cons t ts)
  from Cons.prems obtain s1 where s1: "po_step sg e (quoted [] t) s = Inr s1" "po_at s1 1 (k @ t) [] s0"
    using po_step_more_key [of s k s0 t sg e] by auto
  moreover have "NUL \<notin> set (quoted [] t)" using Cons.prems by (intro NUL_quoted) simp_all
  moreover have "\<exists>s'. po_lines sg e (map (quoted []) ts) s1 = Inr s' \<and> po_at s' 1 ((k @ t) @ concat ts) [] s0"
    using Cons.prems s1(2) by (intro Cons.IH) simp_all
  ultimately show ?case by (simp add: cstr_no_NUL)
qed simp

lemma po_lines_more_val:
  assumes "po_at s 3 k v s0" and "NUL \<notin> set (v @ concat ts)" and "list_all (\<lambda>t. length (quoted [] t) \<le> 4095) ts"
    and "length (v @ concat ts) < 4096"
  shows "\<exists>s'. po_lines sg e (map (quoted []) ts) s = Inr s' \<and> po_at s' 3 k (v @ concat ts) s0"
  using assms
proof (induction ts arbitrary: s v)
  case (Cons t ts)
  from Cons.prems obtain s1 where s1: "po_step sg e (quoted [] t) s = Inr s1" "po_at s1 3 k (v @ t) s0"
    using po_step_more_val [of s k v s0 t sg e] by auto
  moreover have "NUL \<notin> set (quoted [] t)" using Cons.prems by (intro NUL_quoted) simp_all
  moreover have "\<exists>s'. po_lines sg e (map (quoted []) ts) s1 = Inr s' \<and> po_at s' 3 k ((v @ t) @ concat ts) s0"
    using Cons.prems s1(2) by (intro Cons.IH) simp_all
  ultimately show ?case by (simp add: cstr_no_NUL)
qed simp

section \<open>The layout of the archive\<close>

definition pad4 :: "string \<Rightarrow> string" where
  "pad4 v = v @ replicate ((4 - length v mod 4) mod 4) NUL"

definition po_keep :: "bool \<Rightarrow> string \<times> string \<Rightarrow> bool" where
  "po_keep sg kv \<longleftrightarrow> fst kv \<noteq> [] \<and> snd kv \<noteq> [] \<and> sfh_hash sg (fst kv) \<noteq> sfh_hash sg (snd kv)"

definition po_entry :: "bool \<Rightarrow> nat \<Rightarrow> string \<times> string \<Rightarrow> lmo_entry" where
  "po_entry sg off kv = \<lparr>key_id = sfh_hash sg (fst kv), val_id = sfh_hash sg (snd kv), ent_offset = of_nat off,
     ent_length = of_nat (length (snd kv))\<rparr>"

fun layout :: "bool \<Rightarrow> nat \<Rightarrow> (string \<times> string) list \<Rightarrow> lmo_entry list" where
  "layout sg off [] = []"
| "layout sg off (kv # kvs) = po_entry sg off kv # layout sg (off + length (pad4 (snd kv))) kvs"

definition values_of :: "(string \<times> string) list \<Rightarrow> string" where
  "values_of kvs = concat (map (pad4 \<circ> snd) kvs)"

definition written :: "bool \<Rightarrow> (string \<times> string) list \<Rightarrow> po_state \<Rightarrow> bool" where
  "written sg kvs s \<longleftrightarrow> po_out s = values_of kvs \<and> po_offset s = of_nat (length (values_of kvs)) \<and>
     po_head s = rev (layout sg 0 kvs)"

lemma layout_append: "layout sg off (a @ b) = layout sg off a @ layout sg (off + length (values_of a)) b"
  by (induction a arbitrary: off) (simp_all add: values_of_def add.assoc)

lemma length_layout [simp]: "length (layout sg off kvs) = length kvs"
  by (induction kvs arbitrary: off) simp_all

lemma pad4_length:
  assumes "length v < 4096"
  shows "length v + (4 - length v mod 4) mod 4 \<le> 4096"
proof -
  define q r where "q = length v div 4" and "r = length v mod 4"
  have n: "length v = 4 * q + r" and "r < 4" by (simp_all add: q_def r_def)
  then have "r = 0 \<or> r = 1 \<or> r = 2 \<or> r = 3" by linarith
  then have "r + (4 - r) mod 4 \<le> 4" by auto
  moreover have "q \<le> 1023" using n assms by linarith
  ultimately show ?thesis unfolding r_def [symmetric] using n by linarith
qed

lemma take_zbuf: "length v < 4096 \<Longrightarrow> take (length v + (4 - length v mod 4) mod 4) (zbuf v) = pad4 v"
  using pad4_length [of v] by (simp add: zbuf_def pad4_def min_def)

lemma po_store_message:
  assumes "po_at s 4 k v s0" and "written sg kvs s0" and "NUL \<notin> set k" "NUL \<notin> set v" and "length k < 4096" "length v < 4096"
    and "\<And>n. pe_malloc e n" and "\<And>a b. pe_write e a b"
  shows "\<exists>s' s1. po_store sg e s = Inr s' \<and> po_at s' 0 [] [] s1 \<and>
    written sg (kvs @ filter (po_keep sg) [(k, v)]) s1"
proof -
  from assms(1) have s: "po_st s = 4" "po_key s = zbuf k" "po_val s = zbuf v" "length (po_tmp s) = 4096"
    "po_offset s = po_offset s0" "po_head s = po_head s0" "po_out s = po_out s0" by (simp_all add: po_at_def)
  note b = length_zbuf [OF assms(5)] length_zbuf [OF assms(6)] cstr_zbuf [OF assms(3,5)] cstr_zbuf [OF assms(4,6)]
  show ?thesis
  proof (cases "po_keep sg (k, v)")
    case True
    define s1 where "s1 = s\<lparr>po_out := po_out s0 @ pad4 v, po_offset := po_offset s0 + of_nat (length (pad4 v)),
      po_head := \<lparr>key_id = sfh_hash sg k, val_id = sfh_hash sg v, ent_offset = po_offset s0, ent_length = of_nat (length v)\<rparr>
         # po_head s0\<rparr>"
    have "length (pad4 v) = length v + (4 - length v mod 4) mod 4" by (simp add: pad4_def)
    with True have "po_store sg e s = Inr (po_reset s1)"
      using pad4_length [OF assms(6)] take_zbuf [OF assms(6)]
      by (simp add: po_store_def s b assms(7,8) po_keep_def po_print_def Let_def s1_def)
    moreover have "po_at (po_reset s1) 0 [] [] s1" by (simp add: po_at_def po_reset_def zbuf_Nil s1_def s)
    moreover have "written sg (kvs @ [(k, v)]) s1"
      using assms(2) by (simp add: written_def s1_def values_of_def layout_append po_entry_def)
    ultimately show ?thesis using True by auto
  next
    case False
    then have "po_store sg e s = Inr (po_reset s)"
      by (auto simp: po_store_def s b po_keep_def Let_def)
    moreover have "po_at (po_reset s) 0 [] [] s0" by (simp add: po_at_def po_reset_def zbuf_Nil s)
    ultimately show ?thesis using False assms(2) by auto
  qed
qed

lemma po_step_blank:
  assumes "po_at s 3 k v s0"
  shows "\<exists>s'. po_read [LF] s = Inr s' \<and> po_at s' 4 k v s0"
  using assms by (simp add: po_read_def po_at_def po_more_val_def extract_unquoted)

section \<open>From a catalogue to an archive\<close>

definition po_pairs :: "message list \<Rightarrow> (string \<times> string) list" where
  "po_pairs ms = map (\<lambda>m. (msgid_of m, msgstr_of m)) ms"

definition po_idle :: "bool \<Rightarrow> (string \<times> string) list \<Rightarrow> po_state \<Rightarrow> bool" where
  "po_idle sg kvs s \<longleftrightarrow> po_at s 0 [] [] s \<and> written sg kvs s"

lemma po_idleI: "po_at s 0 [] [] s1 \<Longrightarrow> written sg kvs s1 \<Longrightarrow> po_idle sg kvs s"
  by (simp add: po_idle_def po_at_def written_def)

lemma message_okD:
  assumes "message_ok m"
  shows "NUL \<notin> set (msgid_of m)" "NUL \<notin> set (msgstr_of m)" "length (msgid_of m) < 4096" "length (msgstr_of m) < 4096"
    "length (quoted ''msgid '' (msg_id m)) \<le> 4095" "length (quoted ''msgstr '' (msg_str m)) \<le> 4095"
    "list_all (\<lambda>t. length (quoted [] t) \<le> 4095) (msg_id_more m)" "list_all (\<lambda>t. length (quoted [] t) \<le> 4095) (msg_str_more m)"
  using assms by (simp_all add: message_ok_def po_text_ok_def message_lines_def list_all_iff)

lemma po_lines_key:
  assumes "message_ok m" and "po_at s 0 [] [] s0"
  shows "\<exists>s' n. po_lines sg e (quoted ''msgid '' (msg_id m) # map (quoted []) (msg_id_more m)) s = Inr s' \<and>
    (n = 1 \<or> n = 2) \<and> po_at s' n (msgid_of m) [] s0"
proof -
  note ok = message_okD [OF assms(1)]
  from ok have k: "NUL \<notin> set (msg_id m)" "length (msg_id m) < 4096" by (simp_all add: msgid_of_def)
  obtain s1 where s1: "po_step sg e (quoted ''msgid '' (msg_id m)) s = Inr s1"
    "po_at s1 (if msg_id m = [] then 1 else 2) (msg_id m) [] s0"
    using po_step_msgid [OF assms(2) k(1) ok(5) k(2)] by blast
  have c: "cstr (quoted ''msgid '' (msg_id m)) = quoted ''msgid '' (msg_id m)"
    using k(1) by (intro cstr_no_NUL NUL_quoted) simp_all
  show ?thesis
  proof (cases "msg_id m = []")
    case True
    then obtain s2 where "po_lines sg e (map (quoted []) (msg_id_more m)) s1 = Inr s2" "po_at s2 1 (msgid_of m) [] s0"
      using po_lines_more_key [of s1 "msg_id m" s0 "msg_id_more m" sg e] s1(2) ok unfolding msgid_of_def by auto
    with s1(1) c show ?thesis by auto
  next
    case False
    with assms(1) have "msg_id_more m = []" by (simp add: message_ok_def)
    with False s1 c show ?thesis by (auto simp: msgid_of_def)
  qed
qed

lemma po_lines_val:
  assumes "message_ok m" and "po_at s n k [] s0" and "n = 1 \<or> n = 2"
  shows "\<exists>s'. po_lines sg e (quoted ''msgstr '' (msg_str m) # map (quoted []) (msg_str_more m)) s = Inr s' \<and>
    po_at s' 3 k (msgstr_of m) s0"
proof -
  note ok = message_okD [OF assms(1)]
  from ok have v: "NUL \<notin> set (msg_str m)" "length (msg_str m) < 4096" by (simp_all add: msgstr_of_def)
  obtain s1 where s1: "po_step sg e (quoted ''msgstr '' (msg_str m)) s = Inr s1" "po_at s1 3 k (msg_str m) s0"
    using po_step_msgstr [OF assms(2,3) v(1) ok(6) v(2)] by blast
  have c: "cstr (quoted ''msgstr '' (msg_str m)) = quoted ''msgstr '' (msg_str m)"
    using v(1) by (intro cstr_no_NUL NUL_quoted) simp_all
  obtain s2 where "po_lines sg e (map (quoted []) (msg_str_more m)) s1 = Inr s2" "po_at s2 3 k (msgstr_of m) s0"
    using po_lines_more_val [OF s1(2), of "msg_str_more m" sg e] ok unfolding msgstr_of_def by auto
  with s1(1) c show ?thesis by auto
qed

text \<open>One message takes the idle state to the idle state with the message stored.\<close>

lemma po_lines_message:
  assumes "message_ok m" and "po_idle sg kvs s" and "\<And>n. pe_malloc e n" and "\<And>a b. pe_write e a b"
  shows "\<exists>s'. po_lines sg e (message_lines m) s = Inr s' \<and>
    po_idle sg (kvs @ filter (po_keep sg) (po_pairs [m])) s'"
proof -
  note ok = message_okD [OF assms(1)]
  have at: "po_at s 0 [] [] s" "written sg kvs s" using assms(2) by (simp_all add: po_idle_def)
  have comments: "po_lines sg e (map (\<lambda>c. c @ [LF]) (msg_comments m)) s = Inr s"
    using assms(1) by (intro po_lines_comments [OF at(1)]) (simp_all add: message_ok_def)
  from po_lines_key [OF assms(1) at(1)] obtain s1 n where
    s1: "po_lines sg e (quoted ''msgid '' (msg_id m) # map (quoted []) (msg_id_more m)) s = Inr s1"
      "n = 1 \<or> n = 2" "po_at s1 n (msgid_of m) [] s" by blast
  from po_lines_val [OF assms(1) s1(3,2)] obtain s2 where
    s2: "po_lines sg e (quoted ''msgstr '' (msg_str m) # map (quoted []) (msg_str_more m)) s1 = Inr s2"
      "po_at s2 3 (msgid_of m) (msgstr_of m) s" by blast
  from po_step_blank [OF s2(2)] obtain s3 where s3: "po_read [LF] s2 = Inr s3" "po_at s3 4 (msgid_of m) (msgstr_of m) s" by blast
  from po_store_message [OF s3(2) at(2) ok(1-4) assms(3,4)] obtain s4 s5 where
    s4: "po_store sg e s3 = Inr s4" "po_at s4 0 [] [] s5" "written sg (kvs @ filter (po_keep sg) [(msgid_of m, msgstr_of m)]) s5"
    by blast
  have "message_lines m = map (\<lambda>c. c @ [LF]) (msg_comments m) @ (quoted ''msgid '' (msg_id m) # map (quoted []) (msg_id_more m))
      @ (quoted ''msgstr '' (msg_str m) # map (quoted []) (msg_str_more m)) @ [[LF]]"
    by (simp add: message_lines_def)
  then have "po_lines sg e (message_lines m) s = Inr s4"
    by (simp only: po_lines_append comments s1(1) s2(1) sum.case) (simp add: po_step_def s3(1) s4(1))
  with po_idleI [OF s4(2,3)] show ?thesis by (simp add: po_pairs_def)
qed

lemma po_lines_catalogue:
  assumes "list_all message_ok ms" and "po_idle sg kvs s" and "\<And>n. pe_malloc e n" and "\<And>a b. pe_write e a b"
  shows "\<exists>s'. po_lines sg e (concat (map message_lines ms)) s = Inr s' \<and>
    po_idle sg (kvs @ filter (po_keep sg) (po_pairs ms)) s'"
  using assms(1,2)
proof (induction ms arbitrary: kvs s)
  case Nil
  then show ?case by (simp add: po_pairs_def)
next
  case (Cons m ms)
  then obtain s1 where s1: "po_lines sg e (message_lines m) s = Inr s1" "po_idle sg (kvs @ filter (po_keep sg) (po_pairs [m])) s1"
    using po_lines_message [OF _ _ assms(3,4)] by force
  from Cons.IH [OF _ s1(2)] Cons.prems(1) obtain s2 where
    "po_lines sg e (concat (map message_lines ms)) s1 = Inr s2"
    "po_idle sg ((kvs @ filter (po_keep sg) (po_pairs [m])) @ filter (po_keep sg) (po_pairs ms)) s2" by auto
  with s1(1) show ?case by (simp add: po_lines_append po_pairs_def split: if_splits)
qed

lemma fgets_line:
  assumes "LF \<notin> set l" and "length l < n"
  shows "fgets_lines n (l @ LF # r) = (l @ [LF]) # fgets_lines n r"
proof -
  have "take n (l @ LF # r) = l @ LF # take (n - Suc (length l)) r" using assms(2)
    by (simp add: Suc_diff_Suc flip: take_Suc_Cons)
  then have "strchr (take n (l @ LF # r)) LF = Some (length l)" using assms(1) by (simp add: strchr_append_notin)
  then show ?thesis using assms(2) by (subst fgets_lines.simps) (simp add: fgets_def)
qed

definition text_line :: "string \<Rightarrow> bool" where
  "text_line l \<longleftrightarrow> (\<exists>b. l = b @ [LF] \<and> LF \<notin> set b) \<and> length l \<le> 4095"

lemma fgets_text_lines: "list_all text_line ls \<Longrightarrow> fgets_lines 4095 (concat ls) = ls"
proof (induction ls)
  case Nil
  then show ?case by (simp add: fgets_lines.simps)
next
  case (Cons l ls)
  then obtain b where "l = b @ [LF]" "LF \<notin> set b" "length b < 4095" by (auto simp: text_line_def)
  with Cons show ?case using fgets_line [of b 4095 "concat ls"] by simp
qed

lemma quoted_line: "LF \<notin> set kw \<Longrightarrow> LF \<notin> set t \<Longrightarrow> \<exists>b. quoted kw t = b @ [LF] \<and> LF \<notin> set b"
  by (rule exI [of _ "kw @ CHR 0x22 # po_escape t @ [CHR 0x22]"]) (auto simp: quoted_def po_escape_def)

lemma message_text_lines:
  assumes "message_ok m"
  shows "list_all text_line (message_lines m)"
proof -
  have len: "length l \<le> 4095" if "l \<in> set (message_lines m)" for l
    using assms that by (simp add: message_ok_def list_all_iff)
  have LF: "LF \<notin> set (msgid_of m)" "LF \<notin> set (msgstr_of m)" "\<And>c. c \<in> set (msg_comments m) \<Longrightarrow> LF \<notin> set c"
    using assms by (auto simp: message_ok_def po_text_ok_def list_all_iff)
  have "\<exists>b. l = b @ [LF] \<and> LF \<notin> set b" if "l \<in> set (message_lines m)" for l
  proof -
    from that consider c where "c \<in> set (msg_comments m)" "l = c @ [LF]" | "l = [LF]"
      | kw t where "l = quoted kw t" "LF \<notin> set kw" "set t \<subseteq> set (msgid_of m) \<union> set (msgstr_of m)"
      unfolding message_lines_def msgid_of_def msgstr_of_def by fastforce
    then show ?thesis using LF by cases (auto intro: quoted_line)
  qed
  with len show ?thesis by (simp add: list_all_iff text_line_def)
qed

lemma fgets_po_text: "list_all message_ok ms \<Longrightarrow> fgets_lines 4095 (po_text ms) = concat (map message_lines ms)"
  unfolding po_text_def by (rule fgets_text_lines) (induction ms, simp_all add: message_text_lines)

definition archive_bytes :: "bool \<Rightarrow> (string \<times> string) list \<Rightarrow> string" where
  "archive_bytes sg kvs = values_of kvs @ concat (map entry_bytes (rev (layout sg 0 kvs))) @ put_be32 (of_nat (length (values_of kvs)))"

lemma po_index_bytes: "(\<And>a b. pe_write e a b) \<Longrightarrow> po_index e es out = Inr (out @ concat (map entry_bytes es))"
  by (induction es arbitrary: out) (simp_all add: po_print_def entry_bytes_def)

lemma length_archive_bytes: "length (archive_bytes sg kvs) = length (values_of kvs) + 16 * length kvs + 4"
  by (simp add: archive_bytes_def length_index_bytes be.length_put)

lemma unat_of_nat_u32: "n < 2 ^ 31 \<Longrightarrow> unat (of_nat n :: u32) = n"
  by (simp add: unat_of_nat take_bit_nat_eq_self)

lemma sint_of_nat: "n < 2 ^ 31 \<Longrightarrow> sint (of_nat n :: u32) = int n"
  by (simp add: sint_uint uint_nat unat_of_nat_u32 signed_take_bit_int_eq_self)

lemma values_of_empty: "list_all (po_keep sg) kvs \<Longrightarrow> values_of kvs = [] \<longleftrightarrow> kvs = []"
  by (cases kvs) (auto simp: values_of_def po_keep_def pad4_def)

lemma po2lmo_output:
  assumes "list_all message_ok ms" and "\<And>n. pe_malloc e n" and "\<And>a b. pe_write e a b" and "length (pe_tmp e) = 4096"
    and "length argv = 3" and "kvs = filter (po_keep sg) (po_pairs ms)" and "length (archive_bytes sg kvs) < 2 ^ 31"
  shows "po2lmo sg e argv (Some (po_text ms)) True = Some (Inr (if kvs = [] then None else Some (archive_bytes sg kvs)))"
proof -
  have "po_idle sg [] (po_init e)"
    by (simp add: po_idle_def po_at_def written_def po_init_def zbuf_Nil assms(4) values_of_def)
  then obtain s where s: "po_lines sg e (concat (map message_lines ms)) (po_init e) = Inr s" "po_idle sg kvs s"
    using po_lines_catalogue [OF assms(1) _ assms(2,3)] assms(6) by fastforce
  have eof: "po_eof sg e s = Some (Inr s)" using s(2) by (intro po_eof_idle) (simp add: po_idle_def po_at_def)
  have w: "po_out s = values_of kvs" "po_offset s = of_nat (length (values_of kvs))" "po_head s = rev (layout sg 0 kvs)"
    using s(2) by (simp_all add: po_idle_def written_def)
  have "length (values_of kvs) < 2 ^ 31" using assms(7) by (simp add: length_archive_bytes)
  then have "0 < sint (po_offset s) \<longleftrightarrow> values_of kvs \<noteq> []" by (simp add: w(2) sint_of_nat)
  also have "\<dots> \<longleftrightarrow> kvs \<noteq> []" using values_of_empty [of sg kvs] assms(6) by (simp add: list_all_iff)
  finally have "po_finish e s = Inr (if kvs = [] then None else Some (archive_bytes sg kvs))"
    by (simp add: po_finish_def po_index_bytes [OF assms(3)] w po_print_def assms(3) archive_bytes_def)
  with s(1) eof show ?thesis by (simp add: po2lmo_def assms(5) fgets_po_text [OF assms(1)])
qed

definition lmo_env_ok :: "lmo_env \<Rightarrow> string \<Rightarrow> bool" where
  "lmo_env_ok e file \<longleftrightarrow> le_stat e = Some (length file) \<and> le_file e = Some file \<and> le_malloc e = (\<lambda>n. True) \<and>
     le_seek e = (\<lambda>n. True) \<and> le_mmap e"

lemma lmo_open_archive:
  assumes "lmo_env_ok e (archive_bytes sg kvs)" and "values_of kvs \<noteq> []" and "length (archive_bytes sg kvs) < 2 ^ 31"
  shows "\<exists>p'. lmo_open e p =
    Some (Some \<lparr>ar_length = of_nat (length (values_of kvs)), ar_index = layout sg 0 kvs, ar_mmap = values_of kvs\<rparr>, p')"
proof -
  let ?f = "archive_bytes sg kvs" and ?n = "length (values_of kvs)"
  note len = length_archive_bytes [of sg kvs]
  have n: "unat (of_nat ?n :: u32) = ?n" using assms(3) len by (simp add: unat_of_nat_u32)
  define pre where "pre = values_of kvs @ concat (map entry_bytes (rev (layout sg 0 kvs)))"
  have f: "?f = pre @ put_be32 (of_nat ?n)" by (simp add: archive_bytes_def pre_def)
  then have "length ?f - 4 = length pre" by (simp add: be.length_put)
  then have "drop (length ?f - 4) ?f = put_be32 (of_nat ?n) @ []" unfolding f by simp
  then have idx: "lmo_read32 (drop (length ?f - 4) ?f) = Some (of_nat ?n, [])" by (simp only: be.get_put)
  have "lmo_read_index e (length ?f) (of_nat ?n) (concat (map entry_bytes (rev (layout sg 0 kvs))) @ put_be32 (of_nat ?n)) []
      = Inr (rev (rev (layout sg 0 kvs)) @ [])"
    using assms(1,3) by (intro lmo_read_index_bytes) (simp_all add: n len lmo_env_ok_def)
  then have index: "lmo_read_index e (length ?f) (of_nat ?n) (drop (unat (of_nat ?n :: u32)) ?f) [] = Inr (layout sg 0 kvs)"
    unfolding n by (simp add: archive_bytes_def)
  have nz: "(of_nat ?n :: u32) \<noteq> 0" using n assms(2) by (metis length_0_conv unat_0)
  have "take (unat (of_nat ?n :: u32)) ?f = values_of kvs" unfolding n by (simp add: archive_bytes_def)
  with index nz idx len assms(1) show ?thesis
    by (simp add: lmo_open_def lmo_load_def lmo_env_ok_def Let_def)
qed

lemma lookup_layout:
  assumes "length P + length (values_of kvs) < 2 ^ 31"
  shows "case find (\<lambda>kv. sfh_hash sg (fst kv) = h) kvs of
      None \<Rightarrow> lmo_find h (layout sg (length P) kvs) = None
    | Some kv \<Rightarrow> (\<exists>en. lmo_find h (layout sg (length P) kvs) = Some en \<and> unat (ent_length en) = length (snd kv) \<and>
        unat (ent_offset en) + length (snd kv) \<le> length (P @ values_of kvs) \<and>
        take (length (snd kv)) (drop (unat (ent_offset en)) (P @ values_of kvs)) = snd kv)"
  using assms
proof (induction kvs arbitrary: P)
  case (Cons kv kvs)
  have vs: "values_of (kv # kvs) = pad4 (snd kv) @ values_of kvs" by (simp add: values_of_def)
  show ?case
  proof (cases "sfh_hash sg (fst kv) = h")
    case True
    have "length (snd kv) \<le> length (pad4 (snd kv))" by (simp add: pad4_def)
    then have "unat (of_nat (length P) :: u32) = length P" "unat (of_nat (length (snd kv)) :: u32) = length (snd kv)"
      using Cons.prems vs by (simp_all add: unat_of_nat_u32)
    with True show ?thesis by (simp add: vs po_entry_def pad4_def)
  next
    case False
    have "length (P @ pad4 (snd kv)) + length (values_of kvs) < 2 ^ 31" using Cons.prems by (simp add: vs)
    note ih = Cons.IH [OF this]
    from False have "find (\<lambda>kv. sfh_hash sg (fst kv) = h) (kv # kvs) = find (\<lambda>kv. sfh_hash sg (fst kv) = h) kvs"
      "lmo_find h (layout sg (length P) (kv # kvs)) = lmo_find h (layout sg (length (P @ pad4 (snd kv))) kvs)"
      by (simp_all add: po_entry_def)
    moreover have "P @ values_of (kv # kvs) = (P @ pad4 (snd kv)) @ values_of kvs" by (simp add: vs)
    ultimately show ?thesis using ih by (simp only:)
  qed
qed simp

lemma lookup_archive:
  assumes "length (values_of kvs) < 2 ^ 31" and "1 \<le> len" and "len < 2 ^ 31" and "nat len \<le> length dest"
    and "sfh_hash sg' key = sfh_hash sg key"
  shows "lmo_lookup sg' (Some \<lparr>ar_length = l, ar_index = layout sg 0 kvs, ar_mmap = values_of kvs\<rparr>) key dest len =
    (case find (\<lambda>kv. sfh_hash sg (fst kv) = sfh_hash sg key) kvs of
       None \<Rightarrow> Some (-1, dest)
     | Some kv \<Rightarrow> (let n = min (nat len - 1) (length (snd kv)) in Some (int n, take n (snd kv) @ NUL # drop (Suc n) dest)))"
proof (cases "find (\<lambda>kv. sfh_hash sg (fst kv) = sfh_hash sg key) kvs")
  case None
  with lookup_layout [where P = "[]" and kvs = kvs and sg = sg and h = "sfh_hash sg key"] assms(1)
  have "lmo_find (sfh_hash sg key) (layout sg 0 kvs) = None" by simp
  with None show ?thesis unfolding lookup_eq [OF assms(2-4)] assms(5) by simp
next
  case (Some kv)
  with lookup_layout [where P = "[]" and kvs = kvs and sg = sg and h = "sfh_hash sg key"] assms(1) obtain en where
    en: "lmo_find (sfh_hash sg key) (layout sg 0 kvs) = Some en" "unat (ent_length en) = length (snd kv)"
      "unat (ent_offset en) + length (snd kv) \<le> length (values_of kvs)"
      "take (length (snd kv)) (drop (unat (ent_offset en)) (values_of kvs)) = snd kv"
    by auto
  define n where "n = min (nat len - 1) (length (snd kv))"
  have n: "n \<le> length (snd kv)" by (simp add: n_def)
  have "take n (snd kv) = take n (take (length (snd kv)) (drop (unat (ent_offset en)) (values_of kvs)))" using en(4) by simp
  also have "\<dots> = take n (drop (unat (ent_offset en)) (values_of kvs))" using n by (simp add: min_absorb1)
  finally have t: "take n (drop (unat (ent_offset en)) (values_of kvs)) = take n (snd kv)" by simp
  have "unat (ent_offset en) + n \<le> length (values_of kvs)" using en(3) n by simp
  with t show ?thesis
    unfolding lookup_eq [OF assms(2-4)] assms(5) lmo_archive.select_convs en(1) Some option.case en(2) Let_def n_def [symmetric]
    by simp
qed

text \<open>
  C8: A catalogue compiled by \<open>po2lmo\<close> and opened with \<open>lmo_open\<close> answers every lookup with the first translation
  whose key has the hash of the key asked for, cut to the caller's buffer, and with -1 if there is none. The
  translations are those with a key and a value that are not empty and do not have the same hash; if
  none is left no archive is written. Keys and values are read back through the quoting of the catalogue, in one
  piece or several. The machine that compiles and the machine that looks up may differ in the signedness
  of \<^verbatim>\<open>char\<close>: then the hashes agree for ASCII keys.
\<close>
theorem po2lmo_lookup:
  assumes "list_all message_ok ms" and "pe_malloc e = (\<lambda>n. True)" and "pe_write e = (\<lambda>a b. True)" and "length (pe_tmp e) = 4096"
    and "length argv = 3" and "kvs = filter (po_keep sg) (po_pairs ms)" and "length (archive_bytes sg kvs) < 2 ^ 31"
    and "ascii key \<or> sg' = sg" and "1 \<le> len" and "len < 2 ^ 31" and "nat len \<le> length dest"
  shows "if kvs = [] then po2lmo sg e argv (Some (po_text ms)) True = Some (Inr None)
    else \<exists>file. po2lmo sg e argv (Some (po_text ms)) True = Some (Inr (Some file)) \<and>
      (\<forall>e' p. lmo_env_ok e' file \<longrightarrow> (\<exists>a p'. lmo_open e' p = Some (Some a, p') \<and>
        lmo_lookup sg' (Some a) key dest len =
          (case find (\<lambda>kv. sfh_hash sg (fst kv) = sfh_hash sg key) kvs of
             None \<Rightarrow> Some (-1, dest)
           | Some kv \<Rightarrow> (let n = min (nat len - 1) (length (snd kv)) in
               Some (int n, take n (snd kv) @ NUL # drop (Suc n) dest)))))"
proof -
  have hash: "sfh_hash sg' key = sfh_hash sg key" using assms(8) sfh_hash_ascii by auto
  have out: "po2lmo sg e argv (Some (po_text ms)) True = Some (Inr (if kvs = [] then None else Some (archive_bytes sg kvs)))"
    using assms(2,3) by (intro po2lmo_output [OF assms(1) _ _ assms(4-7)]) simp_all
  have bound: "length (values_of kvs) < 2 ^ 31" using assms(7) by (simp add: length_archive_bytes)
  show ?thesis
  proof (cases "kvs = []")
    case False
    define a where "a = \<lparr>ar_length = of_nat (length (values_of kvs)), ar_index = layout sg 0 kvs, ar_mmap = values_of kvs\<rparr>"
    have "values_of kvs \<noteq> []" using False values_of_empty [of sg kvs] assms(6) by (simp add: list_all_iff)
    then have opens: "\<exists>p'. lmo_open e' p = Some (Some a, p')" if "lmo_env_ok e' (archive_bytes sg kvs)" for e' p
      unfolding a_def using lmo_open_archive [OF that _ assms(7)] by blast
    have found: "lmo_lookup sg' (Some a) key dest len =
        (case find (\<lambda>kv. sfh_hash sg (fst kv) = sfh_hash sg key) kvs of
           None \<Rightarrow> Some (-1, dest)
         | Some kv \<Rightarrow> (let n = min (nat len - 1) (length (snd kv)) in Some (int n, take n (snd kv) @ NUL # drop (Suc n) dest)))"
      using bound unfolding a_def by (intro lookup_archive assms(9-11) hash)
    have "\<exists>a p'. lmo_open e' p = Some (Some a, p') \<and> lmo_lookup sg' (Some a) key dest len =
        (case find (\<lambda>kv. sfh_hash sg (fst kv) = sfh_hash sg key) kvs of
           None \<Rightarrow> Some (-1, dest)
         | Some kv \<Rightarrow> (let n = min (nat len - 1) (length (snd kv)) in Some (int n, take n (snd kv) @ NUL # drop (Suc n) dest)))"
      if e': "lmo_env_ok e' (archive_bytes sg kvs)" for e' p
    proof -
      from opens [OF e'] obtain p' where "lmo_open e' p = Some (Some a, p')" by blast
      with found show ?thesis by (intro exI conjI)
    qed
    with False out show ?thesis by simp
  qed (simp add: out)
qed

definition demo_catalogue :: "message list" where
  "demo_catalogue = [\<lparr>msg_comments = [''# German''], msg_id = [], msg_id_more = [], msg_str = [], msg_str_more = [''Language: de'']\<rparr>,
     \<lparr>msg_comments = [], msg_id = ''yes'', msg_id_more = [], msg_str = ''j'', msg_str_more = [''a'']\<rparr>]"

definition demo_po_env :: po_env where
  "demo_po_env = \<lparr>pe_malloc = (\<lambda>n. True), pe_write = (\<lambda>a b. True), pe_readerr = False, pe_tmp = replicate 4096 CHR ''x''\<rparr>"

lemma demo_catalogue_ok: "list_all message_ok demo_catalogue"
  by (simp add: demo_catalogue_def message_ok_def message_lines_def quoted_def po_escape_def po_text_ok_def msgid_of_def msgstr_of_def)

lemma demo_hashes: "sfh_hash True ''yes'' \<noteq> sfh_hash True ''ja''"
  by (simp add: sfh_hash_def sfh_final_def sfh_rest_def sfh_get16_def plain_char_def schar_def Let_def)

lemma demo_pairs: "filter (po_keep True) (po_pairs demo_catalogue) = [(''yes'', ''ja'')]"
  by (simp add: demo_catalogue_def po_pairs_def po_keep_def msgid_of_def msgstr_of_def demo_hashes)

theorem po2lmo_lookup_witness:
  "\<exists>file. po2lmo True demo_po_env [''po2lmo'', ''de.po'', ''de.lmo''] (Some (po_text demo_catalogue)) True = Some (Inr (Some file)) \<and>
    (\<forall>e' p. lmo_env_ok e' file \<longrightarrow> (\<exists>a p'. lmo_open e' p = Some (Some a, p') \<and>
      lmo_lookup False (Some a) ''yes'' ''xxxxx'' 5 = Some (2, ''ja'' @ NUL # ''xx'')))"
proof -
  have "length (archive_bytes True [(''yes'', ''ja'')]) < 2 ^ 31"
    by (simp add: length_archive_bytes values_of_def pad4_def)
  then show ?thesis
    using po2lmo_lookup [where ms = demo_catalogue and e = demo_po_env and sg = True and sg' = False and key = "''yes''" and len = 5
      and dest = "''xxxxx''" and kvs = "[(''yes'', ''ja'')]" and argv = "[''po2lmo'', ''de.po'', ''de.lmo'']"]
    by (simp add: demo_catalogue_ok demo_pairs demo_po_env_def ascii_def Let_def)
qed

end
