(* ===== verification/Luci_Lmo_Lua.thy ===== *)
theory Luci_Lmo_Lua
  imports Luci_Po2lmo
begin

text \<open>
  The archives as objects of the Lua interpreter (\<^verbatim>\<open>lmo_lualib.c\<close>). An object of a script is a number; an
  archive object holds a pointer that is null once the archive is closed, an entry object a
  pointer to an archive and one into its index, which nothing keeps alive. Archives are allocated at new
  addresses, so that the use of a closed one is seen; such a use, like a read outside
  the mapping, has the result \<open>Undefined\<close>. The interpreter itself, the conversion of arguments to strings and
  integers (\<^const>\<open>None\<close> if they cannot be converted) and what \<^verbatim>\<open>lua_newuserdata\<close> does are parameters.
\<close>

section \<open>Objects and calls\<close>

datatype lua_val = LNil | LInt int | LStr string | LUdata nat

datatype lmo_udata = Archive_ud "nat option" | Entry_ud "(nat \<times> nat) option"

text \<open>
  The state: the objects, the archives they can point to, the process, and the number of open
  archives that no object points to.
\<close>

record lmo_lua =
  ll_objs :: "lmo_udata list"
  ll_heap :: "lmo_archive option list"
  ll_proc :: lmo_proc
  ll_lost :: nat

text \<open>A call returns values, raises an error, which leaves the C function where it is, or is undefined.\<close>

datatype lmo_result = Returns "lua_val list" lmo_lua | Raises string lmo_lua | Undefined

text \<open>
  What \<^verbatim>\<open>lua_newuserdata()\<close> does: a new object, the null pointer the library checks for, or an error
  that is raised, which is what the interpreter does when memory runs out.
\<close>

datatype new_udata = Ud_ok | Ud_null | Ud_raises

text \<open>What a pointer to an archive leads to; \<^const>\<open>None\<close> for a null pointer and for freed memory.\<close>

definition ar_deref :: "lmo_lua \<Rightarrow> nat option \<Rightarrow> lmo_archive option" where
  "ar_deref st ar = (case ar of None \<Rightarrow> None | Some k \<Rightarrow> if k < length (ll_heap st) then ll_heap st ! k else None)"

text \<open>\<^verbatim>\<open>luaL_checkudata\<close> for the two types of objects.\<close>

definition check_archive :: "lmo_lua \<Rightarrow> lua_val \<Rightarrow> (nat \<times> nat option) option" where
  "check_archive st v = (case v of
     LUdata n \<Rightarrow> if n < length (ll_objs st) then (case ll_objs st ! n of Archive_ud ar \<Rightarrow> Some (n, ar) | _ \<Rightarrow> None) else None
   | _ \<Rightarrow> None)"

definition check_entry :: "lmo_lua \<Rightarrow> lua_val \<Rightarrow> (nat \<times> (nat \<times> nat) option) option" where
  "check_entry st v = (case v of
     LUdata n \<Rightarrow> if n < length (ll_objs st) then (case ll_objs st ! n of Entry_ud le \<Rightarrow> Some (n, le) | _ \<Rightarrow> None) else None
   | _ \<Rightarrow> None)"

definition lmo_L_open :: "lmo_env \<Rightarrow> new_udata \<Rightarrow> lmo_lua \<Rightarrow> lmo_result" where
  "lmo_L_open e ud st =
    (case lmo_open e (ll_proc st) of
       None \<Rightarrow> Undefined
     | Some (Some a, p1) \<Rightarrow>
         (case ud of
            Ud_ok \<Rightarrow> Returns [LUdata (length (ll_objs st))]
                (st\<lparr>ll_objs := ll_objs st @ [Archive_ud (Some (length (ll_heap st)))], ll_heap := ll_heap st @ [Some a], ll_proc := p1\<rparr>)
          | Ud_null \<Rightarrow> Returns [LNil, LStr ''out of memory''] (st\<lparr>ll_proc := lmo_close (Some a) p1\<rparr>)
          | Ud_raises \<Rightarrow> Raises ''not enough memory'' (st\<lparr>ll_proc := p1, ll_lost := Suc (ll_lost st)\<rparr>))
     | Some (None, p1) \<Rightarrow> Returns [LNil, LStr (lmo_error p1)] (st\<lparr>ll_proc := p1\<rparr>))"

definition lmo_L_hash :: "bool \<Rightarrow> string option \<Rightarrow> lmo_lua \<Rightarrow> lmo_result" where
  "lmo_L_hash sg dat st = (case dat of
     None \<Rightarrow> Raises ''string expected'' st
   | Some s \<Rightarrow> Returns [LInt (uint (sfh_hash sg (cstr s)))] st)"

text \<open>The first entry of the index with a key.\<close>

fun lmo_find_pos :: "u32 \<Rightarrow> nat \<Rightarrow> lmo_entry list \<Rightarrow> nat option" where
  "lmo_find_pos hash i [] = None"
| "lmo_find_pos hash i (en # es) = (if key_id en = hash then Some i else lmo_find_pos hash (Suc i) es)"

definition lmo_push_entry :: "new_udata \<Rightarrow> nat \<Rightarrow> nat \<Rightarrow> lmo_lua \<Rightarrow> lmo_result" where
  "lmo_push_entry ud k i st = (case ud of
     Ud_ok \<Rightarrow> Returns [LUdata (length (ll_objs st))] (st\<lparr>ll_objs := ll_objs st @ [Entry_ud (Some (k, i))]\<rparr>)
   | Ud_null \<Rightarrow> Returns [LNil, LStr ''out of memory''] st
   | Ud_raises \<Rightarrow> Raises ''not enough memory'' st)"

definition lmo_lookup_entry :: "new_udata \<Rightarrow> nat option \<Rightarrow> u32 \<Rightarrow> lmo_lua \<Rightarrow> lmo_result" where
  "lmo_lookup_entry ud ar hash st = (case ar_deref st ar of
     None \<Rightarrow> Undefined
   | Some a \<Rightarrow> (case lmo_find_pos hash 0 (ar_index a) of
       None \<Rightarrow> Returns [LNil] st
     | Some i \<Rightarrow> lmo_push_entry ud (the ar) i st))"

definition lmo_L_get :: "new_udata \<Rightarrow> lua_val \<Rightarrow> int option \<Rightarrow> lmo_lua \<Rightarrow> lmo_result" where
  "lmo_L_get ud v n st = (case check_archive st v of
     None \<Rightarrow> Raises ''lmo.archive expected'' st
   | Some (u, ar) \<Rightarrow> (case n of
       None \<Rightarrow> Raises ''number expected'' st
     | Some h \<Rightarrow> lmo_lookup_entry ud ar (word_of_int h) st))"

definition lmo_L_lookup :: "bool \<Rightarrow> new_udata \<Rightarrow> lua_val \<Rightarrow> string option \<Rightarrow> lmo_lua \<Rightarrow> lmo_result" where
  "lmo_L_lookup sg ud v key st = (case check_archive st v of
     None \<Rightarrow> Raises ''lmo.archive expected'' st
   | Some (u, ar) \<Rightarrow> (case key of
       None \<Rightarrow> Raises ''string expected'' st
     | Some s \<Rightarrow> lmo_lookup_entry ud ar (sfh_hash sg (cstr s)) st))"

text \<open>\<^verbatim>\<open>lua_pushlstring\<close> of the bytes of an entry.\<close>

definition entry_value :: "lmo_archive \<Rightarrow> lmo_entry \<Rightarrow> string option" where
  "entry_value a en =
    (if unat (ent_offset en) + unat (ent_length en) \<le> length (ar_mmap a)
     then Some (take (unat (ent_length en)) (drop (unat (ent_offset en)) (ar_mmap a))) else None)"

text \<open>
  The loop of \<open>lmo_L_foreach\<close> with \<open>m\<close> entries to go behind entry \<open>i\<close> of the archive \<open>k\<close>. The function of the
  script is a change of the state, \<^verbatim>\<open>lua_pcall\<close> catches its errors. The mapping is read through the object \<open>u\<close>
  in every pass.
\<close>

fun foreach_loop :: "(int \<Rightarrow> string \<Rightarrow> lmo_lua \<Rightarrow> lmo_lua) \<Rightarrow> nat \<Rightarrow> nat \<Rightarrow> nat \<Rightarrow> nat \<Rightarrow> lmo_lua \<Rightarrow> lmo_result" where
  "foreach_loop f u k 0 i st = Returns [] st"
| "foreach_loop f u k (Suc m) i st =
    (case (ar_deref st (Some k), check_archive st (LUdata u)) of
       (Some a, Some (_, ar)) \<Rightarrow>
         (case ar_deref st ar of
            None \<Rightarrow> Undefined
          | Some b \<Rightarrow> (case entry_value b (ar_index a ! i) of
              None \<Rightarrow> Undefined
            | Some val \<Rightarrow>
                (let st1 = f (uint (key_id (ar_index a ! i))) val st
                 in if ar_deref st1 (Some k) = None then Undefined else foreach_loop f u k m (Suc i) st1)))
     | _ \<Rightarrow> Undefined)"

definition lmo_L_foreach :: "lua_val \<Rightarrow> (int \<Rightarrow> string \<Rightarrow> lmo_lua \<Rightarrow> lmo_lua) option \<Rightarrow> lmo_lua \<Rightarrow> lmo_result" where
  "lmo_L_foreach v fn st = (case check_archive st v of
     None \<Rightarrow> Raises ''lmo.archive expected'' st
   | Some (u, ar) \<Rightarrow> (case ar_deref st ar of
       None \<Rightarrow> Undefined
     | Some a \<Rightarrow> (case fn of
         None \<Rightarrow> Returns [] st
       | Some f \<Rightarrow> foreach_loop f u (the ar) (length (ar_index a)) 0 st)))"

text \<open>The finalizer, which is also the method \<open>close\<close>.\<close>

definition lmo_L_gc :: "lua_val \<Rightarrow> lmo_lua \<Rightarrow> lmo_result" where
  "lmo_L_gc v st = (case check_archive st v of
     None \<Rightarrow> Raises ''lmo.archive expected'' st
   | Some (u, None) \<Rightarrow> Returns [] (st\<lparr>ll_objs := (ll_objs st)[u := Archive_ud None]\<rparr>)
   | Some (u, Some k) \<Rightarrow> (case ar_deref st (Some k) of
       None \<Rightarrow> Undefined
     | Some a \<Rightarrow> Returns [] (st\<lparr>ll_objs := (ll_objs st)[u := Archive_ud None], ll_heap := (ll_heap st)[k := None],
                    ll_proc := lmo_close (Some a) (ll_proc st)\<rparr>)))"

definition lmo_L_tostring :: "lua_val \<Rightarrow> lmo_lua \<Rightarrow> lmo_result" where
  "lmo_L_tostring v st = (case check_archive st v of
     None \<Rightarrow> Raises ''lmo.archive expected'' st
   | Some (u, ar) \<Rightarrow> (case ar_deref st ar of
       None \<Rightarrow> Undefined
     | Some a \<Rightarrow> Returns [LStr (''LMO Archive ('' @ fmt_int (sint (ar_length a)) @ '' bytes)'')] st))"

text \<open>The entry an entry object points to, with its archive.\<close>

definition le_deref :: "lmo_lua \<Rightarrow> (nat \<times> nat) option \<Rightarrow> (lmo_archive \<times> lmo_entry) option" where
  "le_deref st le = (case le of
     None \<Rightarrow> None
   | Some (k, i) \<Rightarrow> (case ar_deref st (Some k) of
       None \<Rightarrow> None
     | Some a \<Rightarrow> if i < length (ar_index a) then Some (a, ar_index a ! i) else None))"

definition lmo_convert_entry :: "lua_val \<Rightarrow> lmo_lua \<Rightarrow> lmo_result" where
  "lmo_convert_entry v st = (case check_entry st v of
     None \<Rightarrow> Raises ''lmo.entry expected'' st
   | Some (u, le) \<Rightarrow> (case le_deref st le of
       None \<Rightarrow> Undefined
     | Some (a, en) \<Rightarrow> (case entry_value a en of None \<Rightarrow> Undefined | Some s \<Rightarrow> Returns [LStr s] st)))"

definition lmo_L_entry_tostring :: "lua_val \<Rightarrow> lmo_lua \<Rightarrow> lmo_result" where
  "lmo_L_entry_tostring v st = lmo_convert_entry v st"

text \<open>An operand of a concatenation; what is not an object goes through a C string, \<^verbatim>\<open>tos\<close> converts it.\<close>

definition concat_operand :: "(lua_val \<Rightarrow> string option) \<Rightarrow> lua_val \<Rightarrow> lmo_lua \<Rightarrow> lmo_result" where
  "concat_operand tos v st = (case v of
     LUdata n \<Rightarrow> lmo_convert_entry v st
   | _ \<Rightarrow> Returns [case tos v of None \<Rightarrow> LNil | Some s \<Rightarrow> LStr (cstr s)] st)"

definition lmo_L_entry_concat :: "(lua_val \<Rightarrow> string option) \<Rightarrow> lua_val \<Rightarrow> lua_val \<Rightarrow> lmo_lua \<Rightarrow> lmo_result" where
  "lmo_L_entry_concat tos v w st = (case concat_operand tos v st of
     Returns xs st1 \<Rightarrow> (case concat_operand tos w st1 of
         Returns ys st2 \<Rightarrow> (case (xs, ys) of
             ([LStr x], [LStr y]) \<Rightarrow> Returns [LStr (x @ y)] st2
           | _ \<Rightarrow> Raises ''attempt to concatenate a nil value'' st2)
       | r \<Rightarrow> r)
   | r \<Rightarrow> r)"

definition lmo_L_entry_len :: "lua_val \<Rightarrow> lmo_lua \<Rightarrow> lmo_result" where
  "lmo_L_entry_len v st = (case check_entry st v of
     None \<Rightarrow> Raises ''lmo.entry expected'' st
   | Some (u, le) \<Rightarrow> (case le_deref st le of
       None \<Rightarrow> Undefined
     | Some (a, en) \<Rightarrow> Returns [LInt (uint (ent_length en))] st))"

definition lmo_L_entry_gc :: "lua_val \<Rightarrow> lmo_lua \<Rightarrow> lmo_result" where
  "lmo_L_entry_gc v st = (case check_entry st v of
     None \<Rightarrow> Raises ''lmo.entry expected'' st
   | Some (u, le) \<Rightarrow> Returns [] (st\<lparr>ll_objs := (ll_objs st)[u := Entry_ud None]\<rparr>))"

text \<open>The functions and methods a script can call.\<close>

datatype lmo_op =
    Lmo_open lmo_env new_udata
  | Lmo_hash "string option"
  | Ar_close lua_val
  | Ar_get lua_val "int option" new_udata
  | Ar_lookup lua_val "string option" new_udata
  | Ar_foreach lua_val "(int \<Rightarrow> string \<Rightarrow> lmo_lua \<Rightarrow> lmo_lua) option"
  | Ar_tostring lua_val
  | En_tostring lua_val
  | En_concat "lua_val \<Rightarrow> string option" lua_val lua_val
  | En_len lua_val
  | En_gc lua_val

primrec lmo_call :: "bool \<Rightarrow> lmo_op \<Rightarrow> lmo_lua \<Rightarrow> lmo_result" where
  "lmo_call sg (Lmo_open e ud) = lmo_L_open e ud"
| "lmo_call sg (Lmo_hash s) = lmo_L_hash sg s"
| "lmo_call sg (Ar_close v) = lmo_L_gc v"
| "lmo_call sg (Ar_get v n ud) = lmo_L_get ud v n"
| "lmo_call sg (Ar_lookup v s ud) = lmo_L_lookup sg ud v s"
| "lmo_call sg (Ar_foreach v f) = lmo_L_foreach v f"
| "lmo_call sg (Ar_tostring v) = lmo_L_tostring v"
| "lmo_call sg (En_tostring v) = lmo_L_entry_tostring v"
| "lmo_call sg (En_concat tos v w) = lmo_L_entry_concat tos v w"
| "lmo_call sg (En_len v) = lmo_L_entry_len v"
| "lmo_call sg (En_gc v) = lmo_L_entry_gc v"

text \<open>What scripts do: calls one after the other, and calls of the functions they hand to \<open>foreach\<close>.\<close>

fun callback :: "lmo_op \<Rightarrow> (int \<Rightarrow> string \<Rightarrow> lmo_lua \<Rightarrow> lmo_lua) option" where
  "callback (Ar_foreach v f) = f"
| "callback _ = None"

inductive lmo_run :: "bool \<Rightarrow> lmo_lua \<Rightarrow> lmo_lua \<Rightarrow> bool" for sg where
  run_refl: "lmo_run sg st st"
| run_call: "lmo_run sg st st1 \<Longrightarrow> (\<And>f key val t. callback c = Some f \<Longrightarrow> lmo_run sg t (f key val t)) \<Longrightarrow>
    lmo_call sg c st1 = Returns vs st2 \<Longrightarrow> lmo_run sg st st2"
| run_raise: "lmo_run sg st st1 \<Longrightarrow> (\<And>f key val t. callback c = Some f \<Longrightarrow> lmo_run sg t (f key val t)) \<Longrightarrow>
    lmo_call sg c st1 = Raises msg st2 \<Longrightarrow> lmo_run sg st st2"

section \<open>What the objects hold\<close>

definition live :: "lmo_archive option list \<Rightarrow> lmo_archive list" where
  "live h = map the (filter (\<lambda>a. a \<noteq> None) h)"

definition is_open :: "lmo_udata \<Rightarrow> bool" where
  "is_open u = (case u of Archive_ud (Some k) \<Rightarrow> True | _ \<Rightarrow> False)"

definition open_objs :: "lmo_lua \<Rightarrow> nat" where
  "open_objs st = length (filter is_open (ll_objs st))"

text \<open>Every archive object that is not closed owns its archive; entry objects point into an index.\<close>

definition obj_ok :: "lmo_archive option list \<Rightarrow> lmo_udata \<Rightarrow> bool" where
  "obj_ok h u = (case u of
     Archive_ud (Some k) \<Rightarrow> k < length h \<and> h ! k \<noteq> None
   | Entry_ud (Some (k, i)) \<Rightarrow> k < length h \<and> (case h ! k of None \<Rightarrow> True | Some a \<Rightarrow> i < length (ar_index a))
   | _ \<Rightarrow> True)"

definition owned :: "lmo_udata list \<Rightarrow> nat list" where
  "owned us = List.map_filter (\<lambda>u. case u of Archive_ud ar \<Rightarrow> ar | _ \<Rightarrow> None) us"

definition objs_ok :: "lmo_lua \<Rightarrow> bool" where
  "objs_ok st \<longleftrightarrow> list_all (obj_ok (ll_heap st)) (ll_objs st) \<and> distinct (owned (ll_objs st)) \<and>
     length (live (ll_heap st)) = open_objs st"

definition index_sizes :: "lmo_archive option list \<Rightarrow> nat" where
  "index_sizes h = sum_list (map (length \<circ> ar_index) (live h))"

definition books :: "lmo_proc \<Rightarrow> lmo_lua \<Rightarrow> bool" where
  "books p0 st \<longleftrightarrow> (case ll_proc st of p \<Rightarrow>
     lp_fds p = lp_fds p0 + length (live (ll_heap st)) + ll_lost st \<and> lp_maps p = lp_maps p0 + length (live (ll_heap st)) + ll_lost st \<and>
     lp_archives p = lp_archives p0 + length (live (ll_heap st)) + ll_lost st \<and> lp_entries p0 + index_sizes (ll_heap st) \<le> lp_entries p)"

definition lmo_inv :: "lmo_proc \<Rightarrow> lmo_lua \<Rightarrow> bool" where
  "lmo_inv p0 st \<longleftrightarrow> objs_ok st \<and> books p0 st"

lemma live_simps [simp]: "live [] = []" "live (None # h) = live h" "live (Some a # h) = a # live h" "live (h @ h') = live h @ live h'"
  by (simp_all add: live_def)

lemma live_free:
  "k < length h \<Longrightarrow> h ! k = Some a \<Longrightarrow>
    length (live h) = Suc (length (live (h[k := None]))) \<and> index_sizes h = length (ar_index a) + index_sizes (h[k := None])"
proof (induction h arbitrary: k)
  case (Cons x h)
  then show ?case by (cases k; cases x) (auto simp: index_sizes_def)
qed simp

lemma owned_simps [simp]:
  "owned [] = []" "owned (us @ vs) = owned us @ owned vs" "owned (Archive_ud (Some k) # us) = k # owned us"
  "owned (Archive_ud None # us) = owned us" "owned (Entry_ud le # us) = owned us"
  by (simp_all add: owned_def List.map_filter_def)

lemma owned_in: "n < length us \<Longrightarrow> us ! n = Archive_ud (Some k) \<Longrightarrow> k \<in> set (owned us)"
  by (metis id_take_nth_drop in_set_conv_decomp owned_simps(2,3))

text \<open>Replacing an object.\<close>

lemma owned_update: "n < length us \<Longrightarrow> owned (us[n := u]) = owned (take n us) @ owned [u] @ owned (drop (Suc n) us)"
  by (simp only: upd_conv_take_nth_drop) (metis append_Cons append_Nil owned_simps(2))

lemma owned_split: "n < length us \<Longrightarrow> owned us = owned (take n us) @ owned [us ! n] @ owned (drop (Suc n) us)"
  using owned_update [of n us "us ! n"] by simp

lemma open_update: "n < length us \<Longrightarrow>
    length (filter is_open (us[n := u])) + (if is_open (us ! n) then 1 else 0) = length (filter is_open us) + (if is_open u then 1 else 0)"
proof -
  assume n: "n < length us"
  have "filter is_open us = filter is_open (take n us) @ filter is_open [us ! n] @ filter is_open (drop (Suc n) us)"
    by (metis append_Cons append_Nil filter_append id_take_nth_drop n)
  then show ?thesis using n by (simp add: upd_conv_take_nth_drop)
qed

lemma is_open_owned: "is_open u \<longleftrightarrow> owned [u] \<noteq> []"
  by (auto simp: is_open_def owned_def List.map_filter_def split: lmo_udata.splits option.splits)

section \<open>Every call keeps the invariant\<close>

lemma lmo_open_held:
  "lmo_open e p = Some (Some a, p') \<Longrightarrow> lp_fds p' = Suc (lp_fds p) \<and> lp_maps p' = Suc (lp_maps p) \<and>
    lp_archives p' = Suc (lp_archives p) \<and> lp_entries p' = lp_entries p + length (ar_index a)"
  by (auto simp: lmo_open_def lmo_load_def lmo_cleanup_def Let_def split: option.splits if_splits sum.splits prod.splits)

lemma lmo_open_failed:
  "lmo_open e p = Some (None, p') \<Longrightarrow> lp_fds p' = lp_fds p \<and> lp_maps p' = lp_maps p \<and> lp_archives p' = lp_archives p \<and>
    lp_entries p \<le> lp_entries p'"
  using lmo_open_outcome [of e p] by (simp add: open_outcome_def held_def)

lemma obj_ok_cases:
  obtains "u = Archive_ud None" | k where "u = Archive_ud (Some k)" | "u = Entry_ud None" | k i where "u = Entry_ud (Some (k, i))"
  by (metis lmo_udata.exhaust not_None_eq surj_pair)

lemma obj_ok_alloc: "obj_ok h u \<Longrightarrow> obj_ok (h @ [a]) u"
  by (auto simp: obj_ok_def nth_append split: lmo_udata.splits option.splits)

lemma owned_less: "list_all (obj_ok h) us \<Longrightarrow> k \<in> set (owned us) \<Longrightarrow> k < length h"
proof (induction us)
  case (Cons u us)
  have "k \<in> set (owned [u]) \<or> k \<in> set (owned us)" using Cons.prems(2) owned_simps(2) [of "[u]" us] by auto
  moreover have "k < length h" if "k \<in> set (owned [u])"
    using that Cons.prems(1) by (cases u rule: obj_ok_cases) (auto simp: obj_ok_def)
  ultimately show ?case using Cons by auto
qed simp

text \<open>The state a call leaves, whether it returns or raises an error.\<close>

definition leaves :: "lmo_result \<Rightarrow> lmo_lua \<Rightarrow> bool" where
  "leaves r st' = (case r of Returns vs st1 \<Rightarrow> st1 = st' | Raises msg st1 \<Rightarrow> st1 = st' | Undefined \<Rightarrow> False)"

lemma leaves_simps [simp]:
  "leaves (Returns vs st) st' \<longleftrightarrow> st' = st" "leaves (Raises msg st) st' \<longleftrightarrow> st' = st" "\<not> leaves Undefined st'"
  by (auto simp: leaves_def)

lemma inv_opened:
  assumes "lmo_inv p0 st" and "lmo_open e (ll_proc st) = Some (Some a, p1)"
  shows "lmo_inv p0 (st\<lparr>ll_objs := ll_objs st @ [Archive_ud (Some (length (ll_heap st)))], ll_heap := ll_heap st @ [Some a], ll_proc := p1\<rparr>)"
    "lmo_inv p0 (st\<lparr>ll_proc := lmo_close (Some a) p1\<rparr>)" "lmo_inv p0 (st\<lparr>ll_proc := p1, ll_lost := Suc (ll_lost st)\<rparr>)"
proof -
  note held = lmo_open_held [OF assms(2)]
  have fresh: "length (ll_heap st) \<notin> set (owned (ll_objs st))"
    using owned_less [of "ll_heap st" "ll_objs st"] assms(1) by (auto simp: lmo_inv_def objs_ok_def)
  have all: "list_all (obj_ok (ll_heap st @ [Some a])) (ll_objs st)"
    using assms(1) by (auto simp: lmo_inv_def objs_ok_def list_all_iff intro: obj_ok_alloc)
  show "lmo_inv p0 (st\<lparr>ll_objs := ll_objs st @ [Archive_ud (Some (length (ll_heap st)))], ll_heap := ll_heap st @ [Some a], ll_proc := p1\<rparr>)"
    using assms(1) held fresh all
    by (auto simp: lmo_inv_def objs_ok_def books_def open_objs_def obj_ok_def is_open_def index_sizes_def)
  show "lmo_inv p0 (st\<lparr>ll_proc := lmo_close (Some a) p1\<rparr>)" "lmo_inv p0 (st\<lparr>ll_proc := p1, ll_lost := Suc (ll_lost st)\<rparr>)"
    using assms(1) held by (auto simp: lmo_inv_def objs_ok_def books_def open_objs_def lmo_close_def)
qed

lemma inv_open:
  assumes "lmo_inv p0 st" and "leaves (lmo_L_open e ud st) st'"
  shows "lmo_inv p0 st'"
proof -
  from assms(2) obtain ar p1 where o: "lmo_open e (ll_proc st) = Some (ar, p1)"
    by (cases "lmo_open e (ll_proc st)") (auto simp: leaves_def lmo_L_open_def)
  show ?thesis
  proof (cases ar)
    case None
    with assms o lmo_open_failed [of e "ll_proc st" p1] show ?thesis
      by (auto simp: leaves_def lmo_L_open_def lmo_inv_def objs_ok_def books_def open_objs_def)
  next
    case (Some a)
    note keep = inv_opened [OF assms(1) o [unfolded Some]]
    from assms(2) o Some keep show ?thesis by (cases ud) (auto simp: leaves_def lmo_L_open_def)
  qed
qed

lemma check_archive_Some: "check_archive st v = Some (u, ar) \<Longrightarrow> v = LUdata u \<and> u < length (ll_objs st) \<and> ll_objs st ! u = Archive_ud ar"
  by (auto simp: check_archive_def split: lua_val.splits if_splits lmo_udata.splits)

lemma check_entry_Some: "check_entry st v = Some (u, le) \<Longrightarrow> v = LUdata u \<and> u < length (ll_objs st) \<and> ll_objs st ! u = Entry_ud le"
  by (auto simp: check_entry_def split: lua_val.splits if_splits lmo_udata.splits)

text \<open>Freeing an archive that no other object owns.\<close>

lemma nth_update: "j < length xs \<Longrightarrow> xs[k := x] ! j = (if k = j then x else xs ! j)"
  by auto

lemma obj_ok_free: "obj_ok h u \<Longrightarrow> k \<notin> set (owned [u]) \<Longrightarrow> obj_ok (h[k := None]) u"
  by (cases u rule: obj_ok_cases) (auto simp: obj_ok_def nth_update)

lemma owned_in_single: "u \<in> set us \<Longrightarrow> k \<in> set (owned [u]) \<Longrightarrow> k \<in> set (owned us)"
  by (metis Un_iff append_Cons append_Nil in_set_conv_decomp owned_simps(2) set_append)

lemma obj_ok_close:
  assumes "list_all (obj_ok h) us" and "distinct (owned us)" and "n < length us" and "us ! n = Archive_ud (Some k)"
  shows "list_all (obj_ok (h[k := None])) (us[n := Archive_ud None])"
proof -
  have "owned us = owned (take n us) @ [k] @ owned (drop (Suc n) us)" using owned_split [OF assms(3)] assms(4) by simp
  with assms(2) have "k \<notin> set (owned (take n us))" "k \<notin> set (owned (drop (Suc n) us))" by auto
  then have "k \<notin> set (owned [u])" if "u \<in> set (take n us) \<union> set (drop (Suc n) us)" for u
    using that owned_in_single by blast
  moreover have "obj_ok h u" if "u \<in> set (take n us) \<union> set (drop (Suc n) us)" for u
    using that assms(1) by (meson UnE in_set_dropD in_set_takeD list_all_iff)
  ultimately show ?thesis using assms(3)
    by (simp add: upd_conv_take_nth_drop list_all_iff obj_ok_free) (simp add: obj_ok_def)
qed

lemma inv_close:
  assumes "lmo_inv p0 st" and "leaves (lmo_L_gc v st) st'"
  shows "lmo_inv p0 st'"
proof (cases "check_archive st v")
  case None
  with assms show ?thesis by (simp add: lmo_L_gc_def)
next
  case (Some x)
  then obtain u ar where u: "check_archive st v = Some (u, ar)" by (cases x) simp
  note obj = check_archive_Some [OF u]
  have ok: "list_all (obj_ok (ll_heap st)) (ll_objs st)" "distinct (owned (ll_objs st))" "length (live (ll_heap st)) = open_objs st"
    using assms(1) by (simp_all add: lmo_inv_def objs_ok_def)
  show ?thesis
  proof (cases ar)
    case None
    with obj have "(ll_objs st)[u := Archive_ud None] = ll_objs st" by (metis list_update_id)
    with None u assms show ?thesis by (simp add: lmo_L_gc_def)
  next
    case (Some k)
    with assms(2) u obtain a where a: "ar_deref st (Some k) = Some a" by (auto simp: lmo_L_gc_def split: option.splits)
    then have h: "k < length (ll_heap st)" "ll_heap st ! k = Some a" by (simp_all add: ar_deref_def split: if_splits)
    have st': "st' = st\<lparr>ll_objs := (ll_objs st)[u := Archive_ud None], ll_heap := (ll_heap st)[k := None],
        ll_proc := lmo_close (Some a) (ll_proc st)\<rparr>" using assms(2) u Some a by (simp add: lmo_L_gc_def)
    have "owned ((ll_objs st)[u := Archive_ud None]) = owned (take u (ll_objs st)) @ owned (drop (Suc u) (ll_objs st))"
      using owned_update [of u "ll_objs st" "Archive_ud None"] obj by simp
    moreover have "owned (ll_objs st) = owned (take u (ll_objs st)) @ [k] @ owned (drop (Suc u) (ll_objs st))"
      using owned_split [of u "ll_objs st"] obj Some by simp
    ultimately have d: "distinct (owned ((ll_objs st)[u := Archive_ud None]))" using ok(2) by simp
    have "Suc (length (filter is_open ((ll_objs st)[u := Archive_ud None]))) = length (filter is_open (ll_objs st))"
      using open_update [of u "ll_objs st" "Archive_ud None"] obj Some by (simp add: is_open_def)
    with live_free [OF h] d ok(3) obj_ok_close [OF ok(1,2), of u k] obj Some have "objs_ok st'"
      by (simp add: st' objs_ok_def open_objs_def)
    moreover have "books p0 st'"
      using live_free [OF h] assms(1) by (auto simp: st' lmo_inv_def books_def lmo_close_def)
    ultimately show ?thesis by (simp add: lmo_inv_def)
  qed
qed

lemma lmo_find_pos_less: "lmo_find_pos h i es = Some j \<Longrightarrow> i \<le> j \<and> j < i + length es"
  by (induction es arbitrary: i) (fastforce split: if_splits)+

lemma inv_lookup_entry:
  assumes "lmo_inv p0 st" and "leaves (lmo_lookup_entry ud ar hash st) st'"
  shows "lmo_inv p0 st'"
proof -
  from assms(2) obtain a where a: "ar_deref st ar = Some a" by (auto simp: lmo_lookup_entry_def split: option.splits)
  then obtain k where k: "ar = Some k" "k < length (ll_heap st)" "ll_heap st ! k = Some a"
    by (auto simp: ar_deref_def split: option.splits if_splits)
  show ?thesis
  proof (cases "lmo_find_pos hash 0 (ar_index a)")
    case None
    with a assms show ?thesis by (simp add: lmo_lookup_entry_def)
  next
    case (Some i)
    with lmo_find_pos_less [OF Some] a k assms show ?thesis
      by (auto simp: lmo_lookup_entry_def lmo_push_entry_def lmo_inv_def objs_ok_def obj_ok_def books_def open_objs_def is_open_def
        split: new_udata.splits)
  qed
qed

lemma obj_ok_none: "obj_ok h (Entry_ud None)"
  by (simp add: obj_ok_def)

lemma inv_entry_gc:
  assumes "lmo_inv p0 st" and "leaves (lmo_L_entry_gc v st) st'"
  shows "lmo_inv p0 st'"
proof (cases "check_entry st v")
  case None
  with assms show ?thesis by (simp add: lmo_L_entry_gc_def)
next
  case (Some x)
  then obtain u le where u: "check_entry st v = Some (u, le)" by (cases x) simp
  note obj = check_entry_Some [OF u]
  have st': "st' = st\<lparr>ll_objs := (ll_objs st)[u := Entry_ud None]\<rparr>" using assms(2) u by (simp add: lmo_L_entry_gc_def)
  have "owned ((ll_objs st)[u := Entry_ud None]) = owned (ll_objs st)"
    using owned_update [of u "ll_objs st" "Entry_ud None"] owned_split [of u "ll_objs st"] obj by simp
  moreover have "length (filter is_open ((ll_objs st)[u := Entry_ud None])) = length (filter is_open (ll_objs st))"
    using open_update [of u "ll_objs st" "Entry_ud None"] obj by (simp add: is_open_def)
  moreover have "list_all (obj_ok (ll_heap st)) ((ll_objs st)[u := Entry_ud None])"
    using assms(1) by (auto simp: lmo_inv_def objs_ok_def list_all_length nth_update obj_ok_none)
  ultimately show ?thesis using assms(1) by (simp add: st' lmo_inv_def objs_ok_def books_def open_objs_def)
qed

lemma inv_foreach_loop:
  assumes "\<And>key val t. lmo_inv p0 t \<Longrightarrow> lmo_inv p0 (f key val t)"
  shows "lmo_inv p0 st \<Longrightarrow> leaves (foreach_loop f u k m i st) st' \<Longrightarrow> lmo_inv p0 st'"
proof (induction m arbitrary: i st)
  case (Suc m)
  from Suc.prems(2) obtain key val where
    "leaves (foreach_loop f u k m (Suc i) (f key val st)) st'"
    by (auto simp: Let_def split: option.splits if_splits)
  with Suc.IH Suc.prems(1) assms show ?case by blast
qed simp

text \<open>The functions that only look.\<close>

lemma look_only:
  "leaves (lmo_L_hash sg s st) st' \<Longrightarrow> st' = st"
  "leaves (lmo_L_tostring v st) st' \<Longrightarrow> st' = st"
  "leaves (lmo_convert_entry v st) st' \<Longrightarrow> st' = st"
  "leaves (lmo_L_entry_len v st) st' \<Longrightarrow> st' = st"
  by (auto simp: leaves_def lmo_L_hash_def lmo_L_tostring_def lmo_convert_entry_def lmo_L_entry_len_def split: option.splits prod.splits)

lemma concat_operand_look: "leaves (concat_operand tos v st) st' \<Longrightarrow> st' = st"
  by (cases v) (auto simp: concat_operand_def dest: look_only(3))

lemma concat_look: "leaves (lmo_L_entry_concat tos v w st) st' \<Longrightarrow> st' = st"
  using concat_operand_look [of tos v st] concat_operand_look [of tos w st]
  by (auto simp: lmo_L_entry_concat_def leaves_def split: lmo_result.splits list.splits lua_val.splits)

lemma inv_call:
  assumes "lmo_inv p0 st" and "leaves (lmo_call sg c st) st'"
    and "\<And>f key val t. callback c = Some f \<Longrightarrow> lmo_inv p0 t \<Longrightarrow> lmo_inv p0 (f key val t)"
  shows "lmo_inv p0 st'"
proof (cases c)
  case (Ar_foreach v f)
  have keeps: "lmo_inv p0 (g key val t)" if "f = Some g" "lmo_inv p0 t" for g key val t
    using assms(3) [OF _ that(2)] that(1) Ar_foreach by simp
  from assms(2) Ar_foreach have "st' = st \<or> (\<exists>g u k m. f = Some g \<and> leaves (foreach_loop g u k m 0 st) st')"
    by (auto simp: leaves_def lmo_L_foreach_def split: option.splits)
  with keeps assms(1) inv_foreach_loop [of p0] show ?thesis by blast
next
  case (Ar_get v n ud)
  with assms show ?thesis
    by (cases "check_archive st v"; cases n) (auto simp: lmo_L_get_def intro: inv_lookup_entry)
next
  case (Ar_lookup v s ud)
  with assms show ?thesis
    by (cases "check_archive st v"; cases s) (auto simp: lmo_L_lookup_def intro: inv_lookup_entry)
next
  case (Lmo_open e ud)
  with assms(2) show ?thesis by (intro inv_open [OF assms(1)]) simp
next
  case (Ar_close v)
  with assms(2) show ?thesis by (intro inv_close [OF assms(1)]) simp
next
  case (En_gc v)
  with assms(2) show ?thesis by (intro inv_entry_gc [OF assms(1)]) simp
next
  case (Lmo_hash s)
  with assms(1,2) look_only(1) [of sg s st st'] show ?thesis by simp
next
  case (Ar_tostring v)
  with assms(1,2) look_only(2) [of v st st'] show ?thesis by simp
next
  case (En_tostring v)
  with assms(1,2) look_only(3) [of v st st'] show ?thesis by (simp add: lmo_L_entry_tostring_def)
next
  case (En_len v)
  with assms(1,2) look_only(4) [of v st st'] show ?thesis by simp
next
  case (En_concat tos v w)
  with assms(1,2) concat_look [of tos v w st st'] show ?thesis by simp
qed

lemma lmo_run_inv: "lmo_run sg st st' \<Longrightarrow> lmo_inv p0 st \<Longrightarrow> lmo_inv p0 st'"
proof (induction rule: lmo_run.induct)
  case (run_call st st1 c vs st2)
  then have "leaves (lmo_call sg c st1) st2" by simp
  with run_call show ?case by (blast intro: inv_call)
next
  case (run_raise st st1 c msg st2)
  then have "leaves (lmo_call sg c st1) st2" by simp
  with run_raise show ?case by (blast intro: inv_call)
qed simp

lemma card_live: "length (live h) = card {k. k < length h \<and> h ! k \<noteq> None}"
  by (simp add: live_def length_filter_conv_card)

lemma open_owned: "length (filter is_open us) = length (owned us)"
proof (induction us)
  case (Cons u us)
  then show ?case by (cases u rule: obj_ok_cases) (simp_all add: is_open_def)
qed simp

text \<open>An archive is in memory exactly when an object owns it.\<close>

lemma owned_live:
  assumes "objs_ok st" and "k < length (ll_heap st)"
  shows "ll_heap st ! k \<noteq> None \<longleftrightarrow> k \<in> set (owned (ll_objs st))"
proof -
  have "set (owned us) \<subseteq> {k. k < length h \<and> h ! k \<noteq> None}" if "list_all (obj_ok h) us" for us and h :: "lmo_archive option list"
    using that
  proof (induction us)
    case (Cons u us)
    then show ?case by (cases u rule: obj_ok_cases) (auto simp: obj_ok_def)
  qed simp
  then have sub: "set (owned (ll_objs st)) \<subseteq> {k. k < length (ll_heap st) \<and> ll_heap st ! k \<noteq> None}"
    using assms(1) by (simp add: objs_ok_def)
  have "card (set (owned (ll_objs st))) = card {k. k < length (ll_heap st) \<and> ll_heap st ! k \<noteq> None}"
    using assms(1) by (simp add: objs_ok_def distinct_card open_objs_def open_owned card_live)
  with sub have "set (owned (ll_objs st)) = {k. k < length (ll_heap st) \<and> ll_heap st ! k \<noteq> None}"
    by (intro card_subset_eq) simp_all
  with assms(2) show ?thesis by blast
qed

lemma obj_okD: "lmo_inv p0 st \<Longrightarrow> u < length (ll_objs st) \<Longrightarrow> obj_ok (ll_heap st) (ll_objs st ! u)"
  by (simp add: lmo_inv_def objs_ok_def list_all_length)

lemma open_deref:
  assumes "lmo_inv p0 st" and "check_archive st v = Some (u, ar)"
  shows "ar_deref st ar = None \<longleftrightarrow> ar = None"
  using obj_okD [OF assms(1), of u] check_archive_Some [OF assms(2)]
  by (auto simp: ar_deref_def obj_ok_def split: option.splits)

lemma entry_deref:
  assumes "lmo_inv p0 st" and "check_entry st v = Some (u, le)"
  shows "le_deref st le = None \<longleftrightarrow> (case le of None \<Rightarrow> True | Some (k, i) \<Rightarrow> k \<notin> set (owned (ll_objs st)))"
proof (cases le)
  case (Some ki)
  obtain k i where ki: "ki = (k, i)" by (cases ki)
  have "k < length (ll_heap st)" and i: "case ll_heap st ! k of None \<Rightarrow> True | Some a \<Rightarrow> i < length (ar_index a)"
    using obj_okD [OF assms(1), of u] check_entry_Some [OF assms(2)] Some ki by (simp_all add: obj_ok_def)
  with owned_live [of st k] assms(1) Some ki show ?thesis
    by (cases "ll_heap st ! k") (auto simp: le_deref_def ar_deref_def lmo_inv_def)
qed (simp add: le_deref_def)

lemma lookup_entry_defined: "lmo_lookup_entry ud ar h st = Undefined \<longleftrightarrow> ar_deref st ar = None"
  by (auto simp: lmo_lookup_entry_def lmo_push_entry_def split: option.splits new_udata.splits)

definition lmo_lua_init :: "lmo_proc \<Rightarrow> lmo_lua" where
  "lmo_lua_init p0 = \<lparr>ll_objs = [], ll_heap = [], ll_proc = p0, ll_lost = 0\<rparr>"

lemma lmo_run_init: "lmo_run sg (lmo_lua_init p0) st \<Longrightarrow> lmo_inv p0 st"
  by (erule lmo_run_inv) (simp add: lmo_lua_init_def lmo_inv_def objs_ok_def open_objs_def books_def index_sizes_def)

text \<open>An archive object that is closed; an entry object that is finalized or whose archive is; an entry outside the mapping.\<close>

definition ar_closed :: "lmo_lua \<Rightarrow> lua_val \<Rightarrow> bool" where
  "ar_closed st v \<longleftrightarrow> (\<exists>u. check_archive st v = Some (u, None))"

definition en_dead :: "lmo_lua \<Rightarrow> lua_val \<Rightarrow> bool" where
  "en_dead st v \<longleftrightarrow> (\<exists>u le. check_entry st v = Some (u, le) \<and>
     (case le of None \<Rightarrow> True | Some (k, i) \<Rightarrow> k \<notin> set (owned (ll_objs st))))"

definition en_outside :: "lmo_lua \<Rightarrow> lua_val \<Rightarrow> bool" where
  "en_outside st v \<longleftrightarrow> (\<exists>u le a en. check_entry st v = Some (u, le) \<and> le_deref st le = Some (a, en) \<and>
     length (ar_mmap a) < unat (ent_offset en) + unat (ent_length en))"

lemma entry_undefined:
  assumes "lmo_inv p0 st"
  shows "lmo_L_entry_len v st = Undefined \<longleftrightarrow> en_dead st v"
    "lmo_convert_entry v st = Undefined \<longleftrightarrow> en_dead st v \<or> en_outside st v"
proof -
  have "(lmo_L_entry_len v st = Undefined \<longleftrightarrow> en_dead st v) \<and>
    (lmo_convert_entry v st = Undefined \<longleftrightarrow> en_dead st v \<or> en_outside st v)"
  proof (cases "check_entry st v")
    case (Some x)
    obtain u le where x: "x = (u, le)" by (cases x)
    have d: "en_dead st v \<longleftrightarrow> le_deref st le = None"
      using entry_deref [OF assms Some [unfolded x]] Some x by (simp add: en_dead_def)
    show ?thesis
    proof (cases "le_deref st le")
      case None
      with d Some x show ?thesis by (simp add: lmo_L_entry_len_def lmo_convert_entry_def)
    next
      case (Some ae)
      obtain a en where ae: "ae = (a, en)" by (cases ae)
      with d Some x \<open>check_entry st v = Some x\<close> show ?thesis
        by (auto simp: lmo_L_entry_len_def lmo_convert_entry_def en_outside_def entry_value_def)
    qed
  qed (simp add: lmo_L_entry_len_def lmo_convert_entry_def en_dead_def en_outside_def)
  then show "lmo_L_entry_len v st = Undefined \<longleftrightarrow> en_dead st v"
    "lmo_convert_entry v st = Undefined \<longleftrightarrow> en_dead st v \<or> en_outside st v" by blast+
qed

text \<open>A value that is not an object is never an entry, so only objects make a concatenation undefined.\<close>

lemma concat_operand_undefined:
  "concat_operand tos v st = Undefined \<longleftrightarrow> lmo_convert_entry v st = Undefined"
  by (cases v) (simp_all add: concat_operand_def lmo_convert_entry_def check_entry_def)

lemma concat_operand_returns:
  "(\<exists>xs. concat_operand tos v st = Returns xs st) \<longleftrightarrow>
     concat_operand tos v st \<noteq> Undefined \<and> (\<forall>n. v = LUdata n \<longrightarrow> check_entry st v \<noteq> None)"
  by (cases v) (auto simp: concat_operand_def lmo_convert_entry_def split: option.splits prod.splits)

lemma concat_values:
  "(case (xs, ys) of ([LStr x], [LStr y]) \<Rightarrow> Returns [LStr (x @ y)] st | _ \<Rightarrow> Raises msg st) \<noteq> Undefined"
  by (auto split: list.splits lua_val.splits)

lemma concat_undefined:
  "lmo_L_entry_concat tos v w st = Undefined \<longleftrightarrow> lmo_convert_entry v st = Undefined \<or>
     (\<forall>n. v = LUdata n \<longrightarrow> check_entry st v \<noteq> None) \<and> lmo_convert_entry w st = Undefined"
proof (cases "\<exists>xs. concat_operand tos v st = Returns xs st")
  case True
  then obtain xs where v: "concat_operand tos v st = Returns xs st" by blast
  have nv: "lmo_convert_entry v st \<noteq> Undefined" using v concat_operand_undefined [of tos v st] by simp
  have ok: "\<forall>n. v = LUdata n \<longrightarrow> check_entry st v \<noteq> None" using True concat_operand_returns [of tos v st] by blast
  have "lmo_L_entry_concat tos v w st = Undefined \<longleftrightarrow> concat_operand tos w st = Undefined"
    unfolding lmo_L_entry_concat_def v lmo_result.case
    by (cases "concat_operand tos w st") (simp_all only: lmo_result.case concat_values lmo_result.distinct simp_thms)
  with nv ok concat_operand_undefined [of tos w st] show ?thesis by blast
next
  case False
  have "concat_operand tos v st = Returns xs st' \<Longrightarrow> st' = st" for xs st'
    using concat_operand_look [of tos v st st'] by simp
  with False have "lmo_L_entry_concat tos v w st = Undefined \<longleftrightarrow> concat_operand tos v st = Undefined"
    by (cases "concat_operand tos v st") (auto simp: lmo_L_entry_concat_def)
  with False concat_operand_returns [of tos v st] concat_operand_undefined [of tos v st] show ?thesis by blast
qed

lemma archive_undefined:
  assumes "lmo_inv p0 st"
  shows "lmo_L_get ud v (Some h) st = Undefined \<longleftrightarrow> ar_closed st v" "lmo_L_lookup sg ud v (Some key) st = Undefined \<longleftrightarrow> ar_closed st v"
    "lmo_L_tostring v st = Undefined \<longleftrightarrow> ar_closed st v" "lmo_L_gc v st \<noteq> Undefined"
proof -
  have deref: "ar_deref st ar = None \<longleftrightarrow> ar = None" if "check_archive st v = Some (u, ar)" for u ar
    using open_deref [OF assms that] .
  show "lmo_L_gc v st \<noteq> Undefined" using deref by (auto simp: lmo_L_gc_def split: option.splits)
  show "lmo_L_get ud v (Some h) st = Undefined \<longleftrightarrow> ar_closed st v" "lmo_L_lookup sg ud v (Some key) st = Undefined \<longleftrightarrow> ar_closed st v"
    "lmo_L_tostring v st = Undefined \<longleftrightarrow> ar_closed st v"
    using deref by (cases "check_archive st v"; auto simp: ar_closed_def lmo_L_get_def lmo_L_lookup_def lmo_L_tostring_def
      lookup_entry_defined split: option.splits)+
qed

text \<open>
  C37: Whatever a script does with the objects, also inside \<open>foreach\<close>, and whichever calls raise
  errors, as long as no call is undefined the process holds exactly one descriptor, mapping and
  archive for every archive object that is not closed, and one for every archive that was lost
  because memory ran out for its object. Closing an object is always defined, so that no archive is
  freed twice. An archive object is not safe to look into, by hash, by key or as a string, exactly
  when the script has closed it; the length of an entry exactly when the entry was finalized or the
  archive it came from is closed; its conversion to a string also when it lies outside the mapping;
  and a concatenation exactly when the conversion of its first operand is undefined, or that of the
  second is and the first one is no foreign object. The library checks none of this.
\<close>
theorem lmo_lua_objects:
  assumes "lmo_run sg (lmo_lua_init p0) st"
  shows "lp_fds (ll_proc st) = lp_fds p0 + open_objs st + ll_lost st \<and>
    lp_maps (ll_proc st) = lp_maps p0 + open_objs st + ll_lost st \<and>
    lp_archives (ll_proc st) = lp_archives p0 + open_objs st + ll_lost st \<and> lmo_L_gc v st \<noteq> Undefined \<and>
    (lmo_L_get ud v (Some h) st = Undefined \<longleftrightarrow> ar_closed st v) \<and>
    (lmo_L_lookup sg ud v (Some key) st = Undefined \<longleftrightarrow> ar_closed st v) \<and>
    (lmo_L_tostring v st = Undefined \<longleftrightarrow> ar_closed st v) \<and>
    (lmo_L_entry_len v st = Undefined \<longleftrightarrow> en_dead st v) \<and>
    (lmo_L_entry_tostring v st = Undefined \<longleftrightarrow> en_dead st v \<or> en_outside st v) \<and>
    (lmo_L_entry_concat tos v w st = Undefined \<longleftrightarrow> en_dead st v \<or> en_outside st v \<or>
      (\<forall>n. v = LUdata n \<longrightarrow> check_entry st v \<noteq> None) \<and> (en_dead st w \<or> en_outside st w))"
proof -
  note inv = lmo_run_init [OF assms]
  have "length (live (ll_heap st)) = open_objs st" "books p0 st" using inv by (simp_all add: lmo_inv_def objs_ok_def)
  then have "lp_fds (ll_proc st) = lp_fds p0 + open_objs st + ll_lost st" "lp_maps (ll_proc st) = lp_maps p0 + open_objs st + ll_lost st"
    "lp_archives (ll_proc st) = lp_archives p0 + open_objs st + ll_lost st" by (simp_all add: books_def)
  with archive_undefined [OF inv] entry_undefined [OF inv] show ?thesis
    by (simp add: concat_undefined lmo_L_entry_tostring_def)
qed

section \<open>Translations in a script\<close>

lemma lmo_find_pos_find:
  "case lmo_find h es of
     None \<Rightarrow> lmo_find_pos h i es = None
   | Some en \<Rightarrow> (\<exists>j. lmo_find_pos h i es = Some (i + j) \<and> j < length es \<and> es ! j = en)"
proof (induction es arbitrary: i)
  case (Cons e es)
  show ?case
  proof (cases "key_id e = h")
    case False
    show ?thesis
    proof (cases "lmo_find h es")
      case (Some en)
      with Cons [of "Suc i"] obtain j where "lmo_find_pos h (Suc i) es = Some (Suc i + j)" "j < length es" "es ! j = en" by auto
      with False Some show ?thesis by (auto intro: exI [of _ "Suc j"])
    qed (use False Cons [of "Suc i"] in simp)
  qed simp
qed simp

text \<open>The archive \<open>a\<close>, opened by a script.\<close>

lemma lookup_tostring:
  assumes "lmo_open e (ll_proc st) = Some (Some a, p')"
  shows "\<exists>v st1. lmo_L_open e Ud_ok st = Returns [v] st1 \<and> (\<forall>key en s. NUL \<notin> set key \<longrightarrow>
    (lmo_find (sfh_hash sg key) (ar_index a) = None \<longrightarrow> lmo_L_lookup sg Ud_ok v (Some key) st1 = Returns [LNil] st1) \<and>
    (lmo_find (sfh_hash sg key) (ar_index a) = Some en \<longrightarrow> entry_value a en = Some s \<longrightarrow>
      (\<exists>w st2. lmo_L_lookup sg Ud_ok v (Some key) st1 = Returns [w] st2 \<and> lmo_L_entry_tostring w st2 = Returns [LStr s] st2)))"
proof -
  define n where "n = length (ll_objs st)"
  define k where "k = length (ll_heap st)"
  define st1 where "st1 = st\<lparr>ll_objs := ll_objs st @ [Archive_ud (Some k)], ll_heap := ll_heap st @ [Some a], ll_proc := p'\<rparr>"
  have opened: "lmo_L_open e Ud_ok st = Returns [LUdata n] st1" using assms by (simp add: lmo_L_open_def st1_def n_def k_def)
  have check: "check_archive st1 (LUdata n) = Some (n, Some k)" by (simp add: check_archive_def st1_def n_def nth_append)
  have deref: "ar_deref st1 (Some k) = Some a" by (simp add: ar_deref_def st1_def k_def nth_append)
  have found: "\<exists>w st2. lmo_L_lookup sg Ud_ok (LUdata n) (Some key) st1 = Returns [w] st2 \<and> lmo_L_entry_tostring w st2 = Returns [LStr s] st2"
    if key: "NUL \<notin> set key" and en: "lmo_find (sfh_hash sg key) (ar_index a) = Some en" "entry_value a en = Some s" for key en s
  proof -
    from lmo_find_pos_find [of "sfh_hash sg key" 0 "ar_index a"] en(1) obtain j where
      j: "lmo_find_pos (sfh_hash sg key) 0 (ar_index a) = Some j" "j < length (ar_index a)" "ar_index a ! j = en" by auto
    define st2 where "st2 = st1\<lparr>ll_objs := ll_objs st1 @ [Entry_ud (Some (k, j))]\<rparr>"
    have "lmo_L_lookup sg Ud_ok (LUdata n) (Some key) st1 = Returns [LUdata (length (ll_objs st1))] st2"
      using check deref j(1) key by (simp add: lmo_L_lookup_def lmo_lookup_entry_def lmo_push_entry_def st2_def cstr_no_NUL)
    moreover have "lmo_L_entry_tostring (LUdata (length (ll_objs st1))) st2 = Returns [LStr s] st2"
      using deref j(2,3) en(2)
      by (simp split: if_splits add: lmo_L_entry_tostring_def lmo_convert_entry_def check_entry_def st2_def le_deref_def ar_deref_def)
    ultimately show ?thesis by blast
  qed
  have missing: "lmo_L_lookup sg Ud_ok (LUdata n) (Some key) st1 = Returns [LNil] st1"
    if "NUL \<notin> set key" "lmo_find (sfh_hash sg key) (ar_index a) = None" for key
    using that check deref lmo_find_pos_find [of "sfh_hash sg key" 0 "ar_index a"]
    by (simp add: lmo_L_lookup_def lmo_lookup_entry_def cstr_no_NUL)
  from opened found missing show ?thesis by blast
qed

text \<open>
  C9: A script that opens a catalogue compiled by \<open>po2lmo\<close>, looks a key up and turns the entry into a string gets the
  whole first translation whose key has the hash of the key, and nil if there is none. As for
  \<open>lmo_lookup\<close> the two machines may treat \<^verbatim>\<open>char\<close> differently for ASCII keys.
\<close>
theorem lmo_lua_translates:
  assumes "list_all message_ok ms" and "pe_malloc e = (\<lambda>n. True)" and "pe_write e = (\<lambda>a b. True)" and "length (pe_tmp e) = 4096"
    and "length argv = 3" and "kvs = filter (po_keep sg) (po_pairs ms)" and "length (archive_bytes sg kvs) < 2 ^ 31"
    and "ascii key \<or> sg' = sg" and "NUL \<notin> set key" and "kvs \<noteq> []"
  shows "\<exists>file. po2lmo sg e argv (Some (po_text ms)) True = Some (Inr (Some file)) \<and>
    (\<forall>e' st. lmo_env_ok e' file \<longrightarrow> (\<exists>v st1. lmo_L_open e' Ud_ok st = Returns [v] st1 \<and>
      (case find (\<lambda>kv. sfh_hash sg (fst kv) = sfh_hash sg key) kvs of
         None \<Rightarrow> lmo_L_lookup sg' Ud_ok v (Some key) st1 = Returns [LNil] st1
       | Some kv \<Rightarrow> (\<exists>w st2. lmo_L_lookup sg' Ud_ok v (Some key) st1 = Returns [w] st2 \<and>
           lmo_L_entry_tostring w st2 = Returns [LStr (snd kv)] st2))))"
proof -
  have hash: "sfh_hash sg' key = sfh_hash sg key" using assms(8) sfh_hash_ascii by auto
  have out: "po2lmo sg e argv (Some (po_text ms)) True = Some (Inr (Some (archive_bytes sg kvs)))"
    using assms(2,3,10) by (subst po2lmo_output [OF assms(1) _ _ assms(4-7)]) simp_all
  define a where "a = \<lparr>ar_length = of_nat (length (values_of kvs)), ar_index = layout sg 0 kvs, ar_mmap = values_of kvs\<rparr>"
  have ne: "values_of kvs \<noteq> []" using assms(10) values_of_empty [of sg kvs] assms(6) by (simp add: list_all_iff)
  have bound: "length ([] :: string) + length (values_of kvs) < 2 ^ 31" using assms(7) by (simp add: length_archive_bytes)
  note look = lookup_layout [OF bound, where sg = sg and h = "sfh_hash sg key"]
  have "\<exists>v st1. lmo_L_open e' Ud_ok st = Returns [v] st1 \<and>
      (case find (\<lambda>kv. sfh_hash sg (fst kv) = sfh_hash sg key) kvs of
         None \<Rightarrow> lmo_L_lookup sg' Ud_ok v (Some key) st1 = Returns [LNil] st1
       | Some kv \<Rightarrow> (\<exists>w st2. lmo_L_lookup sg' Ud_ok v (Some key) st1 = Returns [w] st2 \<and>
           lmo_L_entry_tostring w st2 = Returns [LStr (snd kv)] st2))"
    if e': "lmo_env_ok e' (archive_bytes sg kvs)" for e' st
  proof -
    from lmo_open_archive [OF e' ne assms(7)] obtain p' where "lmo_open e' (ll_proc st) = Some (Some a, p')" unfolding a_def by blast
    from lookup_tostring [OF this, of sg'] obtain v st1 where v: "lmo_L_open e' Ud_ok st = Returns [v] st1"
      "\<And>en s. (lmo_find (sfh_hash sg key) (ar_index a) = None \<longrightarrow> lmo_L_lookup sg' Ud_ok v (Some key) st1 = Returns [LNil] st1) \<and>
        (lmo_find (sfh_hash sg key) (ar_index a) = Some en \<longrightarrow> entry_value a en = Some s \<longrightarrow>
          (\<exists>w st2. lmo_L_lookup sg' Ud_ok v (Some key) st1 = Returns [w] st2 \<and> lmo_L_entry_tostring w st2 = Returns [LStr s] st2))"
      using assms(9) hash by metis
    show ?thesis
    proof (cases "find (\<lambda>kv. sfh_hash sg (fst kv) = sfh_hash sg key) kvs")
      case None
      with look have "lmo_find (sfh_hash sg key) (ar_index a) = None" by (simp add: a_def)
      with v None show ?thesis by auto
    next
      case (Some kv)
      with look obtain en where "lmo_find (sfh_hash sg key) (ar_index a) = Some en" "entry_value a en = Some (snd kv)"
        by (auto simp: a_def entry_value_def)
      with v(2) have "\<exists>w st2. lmo_L_lookup sg' Ud_ok v (Some key) st1 = Returns [w] st2 \<and>
          lmo_L_entry_tostring w st2 = Returns [LStr (snd kv)] st2" by blast
      with v(1) Some show ?thesis by auto
    qed
  qed
  with out show ?thesis by blast
qed

definition demo_lmo_proc :: lmo_proc where
  "demo_lmo_proc = \<lparr>lp_error = [], lp_fds = 3, lp_entries = 0, lp_archives = 0, lp_maps = 0\<rparr>"

definition demo_file_env :: "string \<Rightarrow> lmo_env" where
  "demo_file_env file = \<lparr>le_stat = Some (length file), le_file = Some file, le_strerror = [], le_malloc = (\<lambda>n. True),
     le_seek = (\<lambda>n. True), le_mmap = True, le_junk = True\<rparr>"

theorem lmo_lua_translates_witness:
  "\<exists>file v st1 w st2. po2lmo True demo_po_env [''po2lmo'', ''de.po'', ''de.lmo''] (Some (po_text demo_catalogue)) True = Some (Inr (Some file)) \<and>
    lmo_L_open (demo_file_env file) Ud_ok (lmo_lua_init demo_lmo_proc) = Returns [v] st1 \<and>
    lmo_L_lookup False Ud_ok v (Some ''yes'') st1 = Returns [w] st2 \<and> lmo_L_entry_tostring w st2 = Returns [LStr ''ja''] st2"
proof -
  have "length (archive_bytes True [(''yes'', ''ja'')]) < 2 ^ 31"
    by (simp add: length_archive_bytes values_of_def pad4_def)
  then obtain f where f: "po2lmo True demo_po_env [''po2lmo'', ''de.po'', ''de.lmo''] (Some (po_text demo_catalogue)) True = Some (Inr (Some f))"
    "\<And>e' st. lmo_env_ok e' f \<Longrightarrow> \<exists>v st1. lmo_L_open e' Ud_ok st = Returns [v] st1 \<and>
      (\<exists>w st2. lmo_L_lookup False Ud_ok v (Some ''yes'') st1 = Returns [w] st2 \<and> lmo_L_entry_tostring w st2 = Returns [LStr ''ja''] st2)"
    using lmo_lua_translates [where ms = demo_catalogue and e = demo_po_env and sg = True and sg' = False and key = "''yes''"
      and kvs = "[(''yes'', ''ja'')]" and argv = "[''po2lmo'', ''de.po'', ''de.lmo'']"]
    by (auto simp: demo_catalogue_ok demo_pairs demo_po_env_def ascii_def)
  have "lmo_env_ok (demo_file_env f) f" by (simp add: lmo_env_ok_def demo_file_env_def)
  from f(2) [OF this] f(1) show ?thesis by blast
qed

text \<open>A script that opens an archive with one entry, looks the entry up and closes the archive: the entry is left behind.\<close>

definition demo_entry :: lmo_entry where
  "demo_entry = \<lparr>key_id = 7, val_id = 0, ent_offset = 0, ent_length = 2\<rparr>"

definition demo_lmo_file :: string where
  "demo_lmo_file = ''ja'' @ [NUL, NUL] @ entry_bytes demo_entry @ put_be32 4"

definition demo_lmo_state :: lmo_lua where
  "demo_lmo_state = \<lparr>ll_objs = [Archive_ud None, Entry_ud (Some (0, 0))], ll_heap = [None], ll_proc = demo_lmo_proc, ll_lost = 0\<rparr>"

lemma demo_lmo_open:
  "lmo_open (demo_file_env demo_lmo_file) p =
    Some (Some \<lparr>ar_length = 4, ar_index = [demo_entry], ar_mmap = ''ja'' @ [NUL, NUL]\<rparr>,
     p\<lparr>lp_fds := lp_fds p + 1, lp_entries := lp_entries p + 1, lp_archives := lp_archives p + 1, lp_maps := lp_maps p + 1\<rparr>)"
proof -
  note len = length_entry_bytes [of demo_entry] be.length_put [of 4]
  have n: "length demo_lmo_file = 24" by (simp add: demo_lmo_file_def len)
  have "drop 20 demo_lmo_file = put_be32 4 @ []" by (simp add: demo_lmo_file_def len)
  then have last: "lmo_read32 (drop 20 demo_lmo_file) = Some (4, [])" by (simp only: be.get_put)
  have "lmo_read_index (demo_file_env demo_lmo_file) 24 4 (concat (map entry_bytes [demo_entry]) @ put_be32 4) [] = Inr (rev [demo_entry] @ [])"
    by (rule lmo_read_index_bytes) (simp_all add: demo_file_env_def)
  then have idx: "lmo_read_index (demo_file_env demo_lmo_file) 24 4 (drop 4 demo_lmo_file) [] = Inr [demo_entry]"
    by (simp add: demo_lmo_file_def)
  have "take 4 demo_lmo_file = ''ja'' @ [NUL, NUL]" by (simp add: demo_lmo_file_def)
  with n last idx show ?thesis by (simp add: lmo_open_def lmo_load_def demo_file_env_def Let_def)
qed

lemma demo_lmo_run: "lmo_run True (lmo_lua_init demo_lmo_proc) demo_lmo_state"
proof (rule run_call [where c = "Ar_close (LUdata 0)"], rule run_call [where c = "Ar_get (LUdata 0) (Some 7) Ud_ok"],
    rule run_call [where c = "Lmo_open (demo_file_env demo_lmo_file) Ud_ok"], rule run_refl)
  let ?a = "\<lparr>ar_length = 4, ar_index = [demo_entry], ar_mmap = ''ja'' @ [NUL, NUL]\<rparr>"
  let ?p = "demo_lmo_proc\<lparr>lp_fds := 4, lp_entries := 1, lp_archives := 1, lp_maps := 1\<rparr>"
  let ?s1 = "\<lparr>ll_objs = [Archive_ud (Some 0)], ll_heap = [Some ?a], ll_proc = ?p, ll_lost = 0\<rparr>"
  show "lmo_call True (Lmo_open (demo_file_env demo_lmo_file) Ud_ok) (lmo_lua_init demo_lmo_proc) = Returns [LUdata 0] ?s1"
    using demo_lmo_open by (simp add: lmo_L_open_def lmo_lua_init_def demo_lmo_proc_def)
  let ?s2 = "\<lparr>ll_objs = [Archive_ud (Some 0), Entry_ud (Some (0, 0))], ll_heap = [Some ?a], ll_proc = ?p, ll_lost = 0\<rparr>"
  show "lmo_call True (Ar_get (LUdata 0) (Some 7) Ud_ok) ?s1 = Returns [LUdata 1] ?s2"
    by (simp add: lmo_L_get_def check_archive_def lmo_lookup_entry_def ar_deref_def demo_entry_def lmo_push_entry_def)
  show "lmo_call True (Ar_close (LUdata 0)) ?s2 = Returns [] demo_lmo_state"
    by (simp add: lmo_L_gc_def check_archive_def ar_deref_def lmo_close_def demo_lmo_state_def demo_lmo_proc_def)
qed simp_all

theorem lmo_lua_objects_witness:
  "lmo_run True (lmo_lua_init demo_lmo_proc) demo_lmo_state \<and> lp_fds (ll_proc demo_lmo_state) = 3 + open_objs demo_lmo_state \<and>
   lmo_L_gc (LUdata 0) demo_lmo_state \<noteq> Undefined \<and> lmo_L_get Ud_ok (LUdata 0) (Some 7) demo_lmo_state = Undefined \<and>
   lmo_L_entry_len (LUdata 1) demo_lmo_state = Undefined \<and> lmo_L_entry_tostring (LUdata 1) demo_lmo_state = Undefined"
proof -
  have "ar_closed demo_lmo_state (LUdata 0)" "en_dead demo_lmo_state (LUdata 1)"
    by (auto simp: demo_lmo_state_def ar_closed_def en_dead_def check_archive_def check_entry_def)
  with demo_lmo_run lmo_lua_objects [OF demo_lmo_run, of "LUdata 0" Ud_ok 7 "[]"] lmo_lua_objects [OF demo_lmo_run, of "LUdata 1" Ud_ok 7 "[]"]
  show ?thesis by (simp add: demo_lmo_proc_def demo_lmo_state_def)
qed

text \<open>An error raised for want of memory loses the archive: its descriptor stays open, and no object closes it.\<close>

lemma lmo_L_open_leaks:
  "\<exists>st. lmo_call True (Lmo_open (demo_file_env demo_lmo_file) Ud_raises) (lmo_lua_init demo_lmo_proc) = Raises ''not enough memory'' st \<and>
     lp_fds (ll_proc st) = 4 \<and> ll_objs st = []"
  using demo_lmo_open by (simp add: lmo_L_open_def lmo_lua_init_def demo_lmo_proc_def)

end
