(* ===== verification/Luci_Template.thy ===== *)
theory Luci_Template
  imports Uh_Codec
begin

text \<open>
  The template parser (\<^verbatim>\<open>template_parser.c\<close>): a reader that turns a page with embedded code into Lua
  source, one chunk per call, and its use by \<^verbatim>\<open>template_L_parse\<close> (\<^verbatim>\<open>template_lualib.c\<close>). The two
  buffers of the parser are lists of their size, accesses outside them raise a flag; the file is a
  list of what \<^verbatim>\<open>read()\<close> delivers. The loop of a call may run forever, which is the value \<^const>\<open>None\<close>.
\<close>

section \<open>The parser\<close>

datatype tp_state = T_STATE_TEXT_INIT | T_STATE_TEXT_NEXT | T_STATE_CODE_INIT | T_STATE_CODE_NEXT | T_STATE_SKIP

datatype tp_type = T_TYPE_TEXT | T_TYPE_COMMENT | T_TYPE_EXPR | T_TYPE_INCLUDE | T_TYPE_I18N | T_TYPE_I18N_RAW | T_TYPE_CODE

text \<open>What a descriptor delivers: pieces of data and errors; nothing or an empty piece is the end of the file.\<close>

datatype rd = Rd string | Rd_error

record template_parser =
  tp_fd :: "rd list"
  tp_bufsize :: nat
  tp_outsize :: nat
  tp_state :: tp_state
  tp_eof :: bool
  tp_skipws :: bool
  tp_type :: tp_type
  tp_buf :: string
  tp_out :: string
  tp_fault :: bool

definition T_READBUFSZ :: nat where "T_READBUFSZ = 1024"

definition T_OUTBUFSZ :: nat where "T_OUTBUFSZ = T_READBUFSZ * 3"

definition T_TOK_START :: string where "T_TOK_START = ''<%''"

definition T_TOK_END :: string where "T_TOK_END = ''%>''"

text \<open>Leading and trailing code; \<^const>\<open>None\<close> is a null pointer.\<close>

definition dquote :: char where "dquote = CHR 0x22"

fun gen_code :: "tp_type \<Rightarrow> string option \<times> string option" where
  "gen_code T_TYPE_TEXT = (Some (''write('' @ [dquote]), Some (dquote # '')''))"
| "gen_code T_TYPE_COMMENT = (None, None)"
| "gen_code T_TYPE_EXPR = (Some ''write(tostring('', Some ('' or '' @ [dquote, dquote] @ ''))''))"
| "gen_code T_TYPE_INCLUDE = (Some (''include('' @ [dquote]), Some (dquote # '')''))"
| "gen_code T_TYPE_I18N = (Some (''write(pcdata(translate('' @ [dquote]), Some (dquote # '')))''))"
| "gen_code T_TYPE_I18N_RAW = (Some (''write(translate('' @ [dquote]), Some (dquote # ''))''))"
| "gen_code T_TYPE_CODE = (None, Some '' '')"

text \<open>The backward scans of \<open>stokscan\<close>: the last \<^verbatim>\<open><\<close> at \<open>off\<close> or behind, and the run of whitespace that
  ends at \<open>n\<close>.\<close>

fun tok_back :: "string \<Rightarrow> nat \<Rightarrow> nat \<Rightarrow> nat option" where
  "tok_back b off 0 = None"
| "tok_back b off (Suc i) =
    (if off \<le> i then (if b ! i = CHR ''<'' then Some i else tok_back b off i) else None)"

fun ws_back :: "string \<Rightarrow> nat \<Rightarrow> nat \<Rightarrow> nat" where
  "ws_back b off 0 = 0"
| "ws_back b off (Suc i) = (if off \<le> i \<and> isspace (b ! i) then Suc (ws_back b off i) else 0)"

definition stokscan :: "template_parser \<Rightarrow> nat \<Rightarrow> bool \<Rightarrow> nat" where
  "stokscan d off no_whitespace =
    (let (skip, n) = (case tok_back (tp_buf d) off (tp_bufsize d) of
           Some i \<Rightarrow> (tp_bufsize d - i, i) | None \<Rightarrow> (0, tp_bufsize d))
     in if no_whitespace then skip else skip + ws_back (tp_buf d) off n)"

definition etokscan :: "template_parser \<Rightarrow> nat" where
  "etokscan d =
    (let n = tp_bufsize d;
         s1 = (if 0 < n \<and> tp_buf d ! (n - 1) = CHR ''%'' then 1 else 0)
     in if s1 < n \<and> tp_buf d ! (n - s1 - 1) = CHR ''-'' then s1 + 1 else s1)"

text \<open>The loop of \<open>generate_expression\<close> over the raw code: \<open>start\<close> and \<open>ws\<close> are its flags.\<close>

definition is_i18n :: "tp_type \<Rightarrow> bool" where
  "is_i18n ty \<longleftrightarrow> ty = T_TYPE_I18N \<or> ty = T_TYPE_I18N_RAW"

fun gen_body :: "tp_type \<Rightarrow> bool \<Rightarrow> bool \<Rightarrow> string \<Rightarrow> string" where
  "gen_body ty start ws [] = []"
| "gen_body ty start ws (c # cs) =
    (if \<not> start \<and> isspace c \<and> (is_i18n ty \<or> ty = T_TYPE_INCLUDE) then gen_body ty start ws cs
     else if is_i18n ty
     then (if \<not> ws \<and> isspace c then CHR '' '' # gen_body ty True True cs
           else if \<not> isspace c
           then (if c = CHR 0x5C \<or> c = dquote then [CHR 0x5C, c] else [c]) @ gen_body ty True False cs
           else gen_body ty True ws cs)
     else if (ty = T_TYPE_TEXT \<or> ty = T_TYPE_INCLUDE) \<and> (c = CHR 0x5C \<or> c = dquote \<or> c = LF \<or> c = TAB)
     then [CHR 0x5C, if c = LF then CHR ''n'' else if c = TAB then CHR ''t'' else c] @ gen_body ty True ws cs
     else c # gen_body ty True ws cs)"

text \<open>The source for raw code, with leading code for \<open>gs\<close> and trailing code for \<open>ge\<close>.\<close>

definition gen_text :: "tp_type \<Rightarrow> bool \<Rightarrow> bool \<Rightarrow> string \<Rightarrow> string" where
  "gen_text ty gs ge raw =
    (let tmp = (if gs then (case fst (gen_code ty) of None \<Rightarrow> [] | Some s \<Rightarrow> s) else []) @ gen_body ty False False raw
     in (case (ge, snd (gen_code ty)) of
          (True, Some t) \<Rightarrow> (if is_i18n ty \<and> tmp \<noteq> [] \<and> last tmp = CHR '' '' then butlast tmp else tmp) @ t
        | _ \<Rightarrow> tmp))"

definition generate_expression :: "bool \<Rightarrow> bool \<Rightarrow> template_parser \<Rightarrow> string \<times> template_parser" where
  "generate_expression gs ge d =
    (let tmp = gen_text (tp_type d) gs ge (take (tp_outsize d) (tp_out d))
     in (tmp, d\<lparr>tp_outsize := length tmp, tp_out := tmp @ replicate (T_OUTBUFSZ - length tmp) NUL,
                tp_fault := tp_fault d \<or> T_OUTBUFSZ < length tmp\<rparr>))"

text \<open>\<open>bufmove\<close> and \<open>bufout\<close>; the source is an offset into the read buffer.\<close>

definition bufmove :: "nat \<Rightarrow> template_parser \<Rightarrow> template_parser" where
  "bufmove src d =
    (let n = tp_bufsize d; b = take n (drop src (tp_buf d)) @ drop n (tp_buf d)
     in d\<lparr>tp_buf := b[n := NUL], tp_fault := tp_fault d \<or> T_READBUFSZ \<le> n \<or> 0 < n \<and> T_READBUFSZ < src + n\<rparr>)"

definition bufout :: "nat \<Rightarrow> int \<Rightarrow> template_parser \<Rightarrow> template_parser" where
  "bufout src len d =
    (if 0 \<le> len
     then d\<lparr>tp_out := take (nat len) (drop src (tp_buf d)) @ replicate (T_OUTBUFSZ - nat len) NUL, tp_outsize := nat len,
            tp_fault := tp_fault d \<or> T_READBUFSZ < src + nat len\<rparr>
     else d\<lparr>tp_outsize := 0\<rparr>)"

text \<open>Filling the buffer; \<^const>\<open>None\<close> is a read error.\<close>

definition tp_fill :: "template_parser \<Rightarrow> template_parser option" where
  "tp_fill d =
    (if tp_eof d \<or> T_READBUFSZ \<le> tp_bufsize d then Some d
     else (let n = T_READBUFSZ - tp_bufsize d in
       case tp_fd d of
         [] \<Rightarrow> Some (d\<lparr>tp_eof := True\<rparr>)
       | Rd_error # r \<Rightarrow> None
       | Rd s # r \<Rightarrow>
           if s = [] then Some (d\<lparr>tp_fd := r, tp_eof := True\<rparr>)
           else Some (d\<lparr>tp_fd := (if length s \<le> n then r else Rd (drop n s) # r),
             tp_buf := take (tp_bufsize d) (tp_buf d) @ take n s @ drop (tp_bufsize d + length (take n s)) (tp_buf d),
             tp_bufsize := tp_bufsize d + length (take n s)\<rparr>)))"

fun strip_ws :: "string \<Rightarrow> nat \<Rightarrow> nat \<Rightarrow> nat" where
  "strip_ws b off 0 = 0"
| "strip_ws b off (Suc n) = (if 0 < n \<and> isspace (b ! (off + n)) then strip_ws b off n else Suc n)"

text \<open>Plain text in front of an opening token found at \<open>m\<close> bytes behind \<open>off\<close>.\<close>

definition tp_text_match :: "nat \<Rightarrow> nat \<Rightarrow> template_parser \<Rightarrow> template_parser" where
  "tp_text_match off m d =
    (let d1 = d\<lparr>tp_bufsize := tp_bufsize d - (m + length T_TOK_START + off)\<rparr>; mt = off + m + length T_TOK_START;
         (d2, mt2, n) = (if char_at (tp_buf d) mt = CHR ''-''
           then (d1\<lparr>tp_bufsize := tp_bufsize d1 - 1\<rparr>, mt + 1, strip_ws (tp_buf d) off m) else (d1, mt, m))
     in (bufmove mt2 (bufout off (int n) d2))\<lparr>tp_state := T_STATE_CODE_INIT\<rparr>)"

text \<open>Plain text with no opening token in the buffer.\<close>

definition tp_text_plain :: "nat \<Rightarrow> template_parser \<Rightarrow> template_parser" where
  "tp_text_plain off d =
    (let v = stokscan d off False; v1 = stokscan d off True; bs = tp_bufsize d;
         (n, vague) = (if v < bs then (int bs - int v - int off, v)
           else if v1 < bs then (int bs - int v1 - int off, v1)
           else (int v1 - int off, 0))
     in bufmove (nat (int off + n)) ((bufout off n d)\<lparr>tp_state := T_STATE_TEXT_NEXT, tp_bufsize := vague\<rparr>))"

definition tp_text :: "template_parser \<Rightarrow> nat \<times> template_parser" where
  "tp_text d0 =
    (let d = d0\<lparr>tp_type := T_TYPE_TEXT, tp_skipws := False\<rparr>;
         off = (if tp_skipws d0 then length (takeWhile isspace (take (tp_bufsize d0) (tp_buf d0))) else 0)
     in (off, case strfind (drop off (tp_buf d)) (int (tp_bufsize d) - int off - 1) T_TOK_START of
          Some m \<Rightarrow> tp_text_match off m d
        | None \<Rightarrow> tp_text_plain off d))"

text \<open>The type of a code block: the offset behind its marker, whether it is a comment, and the type.\<close>

definition tp_code_type :: "template_parser \<Rightarrow> nat \<times> bool \<times> template_parser" where
  "tp_code_type d =
    (let off = (if tp_buf d ! 0 = CHR ''-'' then 1 else 0); c = tp_buf d ! off in
     if c = CHR ''#'' then (off + 1, True, d\<lparr>tp_type := T_TYPE_COMMENT\<rparr>)
     else if c = CHR ''='' then (off + 1, False, d\<lparr>tp_type := T_TYPE_EXPR\<rparr>)
     else if c = CHR ''+'' then (off + 1, False, d\<lparr>tp_type := T_TYPE_INCLUDE\<rparr>)
     else if c = CHR '':'' then (off + 1, False, d\<lparr>tp_type := T_TYPE_I18N\<rparr>)
     else if c = CHR ''_'' then (off + 1, False, d\<lparr>tp_type := T_TYPE_I18N_RAW\<rparr>)
     else (off, False, d\<lparr>tp_type := T_TYPE_CODE\<rparr>))"

text \<open>A piece of a code block; the result says whether leading and trailing code are to be added.\<close>

definition tp_code :: "nat \<Rightarrow> template_parser \<Rightarrow> bool \<times> bool \<times> template_parser" where
  "tp_code off d =
    (let gs = (tp_state d = T_STATE_CODE_INIT) in
     case strfind (drop off (tp_buf d)) (int (tp_bufsize d) - int off) T_TOK_END of
       Some m \<Rightarrow>
         (let (n, skip) = (if 0 < off + m \<and> tp_buf d ! (off + m - 1) = CHR ''-'' then (int m - 1, True)
                           else (int m, tp_skipws d));
              d1 = (bufout off n (d\<lparr>tp_skipws := skip\<rparr>))\<lparr>tp_state := T_STATE_TEXT_INIT,
                tp_bufsize := tp_bufsize d - (m + length T_TOK_END + off)\<rparr>
          in (gs, True, bufmove (off + m + length T_TOK_END) d1))
     | None \<Rightarrow>
         (let vague = etokscan d; n = int (tp_bufsize d) - int off - int vague;
              d1 = (bufout off n d)\<lparr>tp_state := T_STATE_CODE_NEXT, tp_bufsize := vague\<rparr>
          in (gs, False, bufmove (nat (n + int off)) d1)))"

text \<open>One pass through the loop: it goes on with the parser and the locals \<open>off\<close> and \<open>ignore\<close>, or returns a
  chunk.\<close>

datatype tp_next = Continue template_parser nat bool | Return string template_parser

definition tp_iter :: "template_parser \<Rightarrow> nat \<Rightarrow> bool \<Rightarrow> tp_next" where
  "tp_iter d off ignore =
    (if tp_state d = T_STATE_TEXT_INIT \<or> tp_state d = T_STATE_TEXT_NEXT
     then (let (off1, d1) = tp_text d in
       if tp_outsize d1 = 0 then Continue d1 off1 False
       else (case generate_expression True True d1 of (s, d2) \<Rightarrow> Return s d2))
     else (let (off1, ign1, d1) = (if tp_state d = T_STATE_CODE_NEXT then (off, ignore, d)
             else (case tp_code_type d of (o1, comment, d1) \<Rightarrow>
               (o1, ignore \<or> tp_state d = T_STATE_SKIP \<or> comment, d1)));
           (gs, ge, d2) = tp_code off1 d1
       in if ign1 \<or> (tp_outsize d2 = 0 \<and> \<not> gs \<and> \<not> ge) then Continue d2 off1 ign1
          else (case generate_expression gs ge d2 of (s, d3) \<Rightarrow> Return s d3)))"

text \<open>The loop; a null pointer is returned as \<^const>\<open>None\<close> inside the result.\<close>

partial_function (option) tp_loop :: "template_parser \<Rightarrow> nat \<Rightarrow> bool \<Rightarrow> (string option \<times> template_parser) option" where
  "tp_loop d off ignore =
    (if \<not> tp_eof d \<or> 0 < tp_bufsize d
     then (case tp_fill d of
         None \<Rightarrow> Some (None, d)
       | Some d1 \<Rightarrow> (case tp_iter d1 off ignore of
           Continue d2 off2 ign2 \<Rightarrow> tp_loop d2 off2 ign2
         | Return s d2 \<Rightarrow> Some (Some s, d2)))
     else Some (None, d))"

declare tp_loop.simps [code]

definition template_reader :: "template_parser \<Rightarrow> (string option \<times> template_parser) option" where
  "template_reader d = tp_loop d 0 False"

text \<open>
  The interpreter calls the reader until it returns a null pointer or an empty chunk; the program is
  the concatenation of the chunks before. \<open>n\<close> bounds the number of calls.
\<close>

fun lua_chunks :: "nat \<Rightarrow> template_parser \<Rightarrow> (string list \<times> template_parser) option" where
  "lua_chunks 0 d = None"
| "lua_chunks (Suc n) d = (case template_reader d of
     None \<Rightarrow> None
   | Some (None, d1) \<Rightarrow> Some ([], d1)
   | Some (Some s, d1) \<Rightarrow> if s = [] then Some ([], d1)
       else (case lua_chunks n d1 of None \<Rightarrow> None | Some (ss, d2) \<Rightarrow> Some (s # ss, d2)))"

text \<open>The parser \<^verbatim>\<open>template_L_parse\<close> starts with; the buffers on the stack hold arbitrary bytes.\<close>

definition template_L_parser :: "rd list \<Rightarrow> string \<Rightarrow> string \<Rightarrow> nat \<Rightarrow> template_parser" where
  "template_L_parser fd b out n = \<lparr>tp_fd = fd, tp_bufsize = 0, tp_outsize = n, tp_state = T_STATE_TEXT_NEXT, tp_eof = False,
     tp_skipws = False, tp_type = T_TYPE_TEXT, tp_buf = b, tp_out = out, tp_fault = False\<rparr>"

section \<open>The buffers are never left\<close>

definition tp_ok :: "template_parser \<Rightarrow> bool" where
  "tp_ok d \<longleftrightarrow> length (tp_buf d) = T_READBUFSZ \<and> length (tp_out d) = T_OUTBUFSZ \<and> tp_bufsize d \<le> T_READBUFSZ \<and> \<not> tp_fault d"

text \<open>
  Every pass hands out a piece of the read buffer and moves the rest to its front; the passes differ
  in the offset and length of the piece, the next state, and the length and offset of the rest.
\<close>

definition tp_emit :: "nat \<Rightarrow> int \<Rightarrow> tp_state \<Rightarrow> nat \<Rightarrow> nat \<Rightarrow> template_parser \<Rightarrow> template_parser" where
  "tp_emit off len st n src d = bufmove src ((bufout off len d)\<lparr>tp_state := st, tp_bufsize := n\<rparr>)"

definition tp_raw :: "template_parser \<Rightarrow> string" where
  "tp_raw d = take (tp_outsize d) (tp_out d)"

lemma tp_emit_frame:
  "tp_bufsize (tp_emit off len st n src d) = n" "tp_state (tp_emit off len st n src d) = st"
  "tp_outsize (tp_emit off len st n src d) = nat len"
  "tp_fd (tp_emit off len st n src d) = tp_fd d" "tp_eof (tp_emit off len st n src d) = tp_eof d"
  "tp_skipws (tp_emit off len st n src d) = tp_skipws d" "tp_type (tp_emit off len st n src d) = tp_type d"
  by (simp_all add: tp_emit_def bufmove_def bufout_def Let_def)

lemma tp_emit_bufs:
  assumes "tp_ok d" and "0 \<le> len \<longrightarrow> off + nat len \<le> T_READBUFSZ" and "n < T_READBUFSZ" and "src + n \<le> T_READBUFSZ"
  shows "tp_ok (tp_emit off len st n src d)" "tp_raw (tp_emit off len st n src d) = take (nat len) (drop off (tp_buf d))"
    "take n (tp_buf (tp_emit off len st n src d)) = take n (drop src (tp_buf d))"
  using assms by (auto simp: tp_emit_def tp_raw_def bufmove_def bufout_def Let_def tp_ok_def T_OUTBUFSZ_def min_def)

lemma tok_back_Some: "tok_back b off n = Some i \<Longrightarrow> off \<le> i \<and> i < n \<and> b ! i = CHR ''<'' \<and> (\<forall>j. i < j \<and> j < n \<longrightarrow> b ! j \<noteq> CHR ''<'')"
  by (induction n) (auto split: if_splits simp: less_Suc_eq)

lemma tok_back_None: "tok_back b off n = None \<Longrightarrow> off \<le> j \<Longrightarrow> j < n \<Longrightarrow> b ! j \<noteq> CHR ''<''"
  by (induction n) (auto split: if_splits simp: less_Suc_eq)

lemma ws_back_le: "ws_back b off n \<le> n - off"
  by (induction n) (auto simp: Suc_diff_le)

lemma stokscan_le: "off \<le> tp_bufsize d \<Longrightarrow> stokscan d off nows + off \<le> tp_bufsize d"
proof -
  assume off: "off \<le> tp_bufsize d"
  show ?thesis
  proof (cases "tok_back (tp_buf d) off (tp_bufsize d)")
    case None
    then show ?thesis using off ws_back_le [of "tp_buf d" off "tp_bufsize d"] by (auto simp: stokscan_def)
  next
    case (Some i)
    with tok_back_Some [OF Some] off ws_back_le [of "tp_buf d" off i] show ?thesis by (auto simp: stokscan_def)
  qed
qed

lemma stokscan_back:
  "tok_back (tp_buf d) off (tp_bufsize d) = Some i \<Longrightarrow> tp_bufsize d - i \<le> stokscan d off nows \<and> stokscan d off True = tp_bufsize d - i"
  by (simp add: stokscan_def)

lemma etokscan_le: "etokscan d \<le> tp_bufsize d \<and> etokscan d \<le> 2"
  by (simp add: etokscan_def Let_def)

lemma strip_ws_le: "strip_ws b off n \<le> n"
  by (induction n) auto

lemma strfind_bound:
  assumes "strfind h i t = Some m" and "nat i \<le> length h" and "t \<noteq> []"
  shows "m + length t \<le> nat i"
proof -
  have "occurs_at (take (nat i) h) t m" using strfind_at_spec [OF assms(2,3), of 0] assms(1) by (simp add: strfind_def)
  then show ?thesis using assms(2,3) by (auto simp: occurs_at_def prefix_drop_iff)
qed

text \<open>The number of bytes the parts of the generated source need.\<close>

lemma length_if: "(P \<Longrightarrow> length a \<le> n) \<Longrightarrow> (\<not> P \<Longrightarrow> length b \<le> n) \<Longrightarrow> length (if P then a else b) \<le> n"
  by simp

lemma length_gen_body: "length (gen_body ty st ws raw) \<le> 2 * length raw"
proof (induction raw arbitrary: st ws)
  case (Cons c raw)
  have ih: "length (gen_body ty st' ws' raw) \<le> 2 * length raw" for st' ws' by (rule Cons)
  have "length (a @ gen_body ty st' ws' raw) \<le> 2 * length (c # raw)" if "length a \<le> 2" for a st' ws'
    using add_mono [OF that ih [of st' ws']] by simp
  then show ?case unfolding gen_body.simps by (intro length_if) (simp_all add: ih le_SucI)
qed simp

lemma length_gen_text: "length (gen_text ty gs ge raw) \<le> 2 * length raw + 40"
  using length_gen_body [of ty False False raw]
  by (cases ty) (auto simp: gen_text_def Let_def split: bool.split)

lemma generate_expression_ok:
  assumes "tp_ok d" and "tp_outsize d \<le> T_READBUFSZ"
  shows "tp_ok (snd (generate_expression gs ge d))" "length (fst (generate_expression gs ge d)) \<le> T_OUTBUFSZ"
proof -
  have "length (take (tp_outsize d) (tp_out d)) \<le> T_READBUFSZ" using assms(2) by simp
  then have "length (gen_text (tp_type d) gs ge (take (tp_outsize d) (tp_out d))) \<le> T_OUTBUFSZ"
    using length_gen_text [of "tp_type d" gs ge "take (tp_outsize d) (tp_out d)"]
    by (simp add: T_OUTBUFSZ_def T_READBUFSZ_def del: length_take)
  then show "tp_ok (snd (generate_expression gs ge d))" "length (fst (generate_expression gs ge d)) \<le> T_OUTBUFSZ"
    using assms(1) by (simp_all add: generate_expression_def Let_def tp_ok_def)
qed

lemma tp_fill_ok: "tp_ok d \<Longrightarrow> tp_fill d = Some d1 \<Longrightarrow> tp_ok d1"
  by (auto simp: tp_fill_def tp_ok_def Let_def split: if_splits list.splits rd.splits)

definition piece_ok :: "template_parser \<Rightarrow> bool" where
  "piece_ok d \<longleftrightarrow> tp_ok d \<and> tp_outsize d \<le> T_READBUFSZ"

lemma tp_emit_ok:
  assumes "tp_ok d" and "0 \<le> len \<longrightarrow> off + nat len \<le> T_READBUFSZ" and "n < T_READBUFSZ" and "src + n \<le> T_READBUFSZ"
  shows "piece_ok (tp_emit off len st n src d)"
  using assms(2) tp_emit_bufs(1) [OF assms] by (cases "0 \<le> len") (simp_all add: piece_ok_def tp_emit_frame)

lemma strfind_start:
  assumes "tp_ok d" and "strfind (drop off (tp_buf d)) (int (tp_bufsize d) - int off - 1) T_TOK_START = Some m"
  shows "off + m + 2 < tp_bufsize d"
proof -
  have "nat (int (tp_bufsize d) - int off - 1) \<le> length (drop off (tp_buf d))" using assms(1) by (auto simp: tp_ok_def)
  then have "m + 2 \<le> nat (int (tp_bufsize d) - int off - 1)" using strfind_bound [OF assms(2)] by (simp add: T_TOK_START_def)
  then show ?thesis by linarith
qed

lemma strfind_end:
  assumes "tp_ok d" and "strfind (drop off (tp_buf d)) (int (tp_bufsize d) - int off) T_TOK_END = Some m"
  shows "off + m + 2 \<le> tp_bufsize d"
proof -
  have "nat (int (tp_bufsize d) - int off) \<le> length (drop off (tp_buf d))" using assms(1) by (auto simp: tp_ok_def)
  then have "m + 2 \<le> nat (int (tp_bufsize d) - int off)" using strfind_bound [OF assms(2)] by (simp add: T_TOK_END_def)
  then show ?thesis by linarith
qed

lemma tp_text_match_eq:
  "tp_text_match off m d = (if char_at (tp_buf d) (off + m + 2) = CHR ''-''
     then tp_emit off (int (strip_ws (tp_buf d) off m)) T_STATE_CODE_INIT (tp_bufsize d - (off + m + 3)) (off + m + 3) d
     else tp_emit off (int m) T_STATE_CODE_INIT (tp_bufsize d - (off + m + 2)) (off + m + 2) d)"
  by (simp add: tp_text_match_def tp_emit_def bufmove_def bufout_def Let_def T_TOK_START_def add.commute numeral_3_eq_3)

lemma tp_text_match_ok:
  assumes "tp_ok d" and "off + m + 2 < tp_bufsize d"
  shows "piece_ok (tp_text_match off m d)"
  using assms(2) strip_ws_le [of "tp_buf d" off m] assms(1)
  by (auto simp: tp_text_match_eq tp_ok_def intro!: tp_emit_ok [OF assms(1)])

text \<open>How much of a text without a token is given out: the rest, \<open>vague\<close> bytes, may be the start of a token.\<close>

definition plain_split :: "template_parser \<Rightarrow> nat \<Rightarrow> nat" where
  "plain_split d off =
    (if stokscan d off False < tp_bufsize d then stokscan d off False
     else if stokscan d off True < tp_bufsize d then stokscan d off True else 0)"

lemma tp_text_plain_eq:
  assumes "off \<le> tp_bufsize d"
  shows "plain_split d off + off \<le> tp_bufsize d" "tp_text_plain off d = tp_emit off
    (int (tp_bufsize d - plain_split d off - off)) T_STATE_TEXT_NEXT (plain_split d off) (tp_bufsize d - plain_split d off) d"
proof -
  have le: "stokscan d off b + off \<le> tp_bufsize d" for b by (rule stokscan_le [OF assms])
  show "plain_split d off + off \<le> tp_bufsize d" using le assms by (simp add: plain_split_def)
  have a: "int (tp_bufsize d) - int v - int off = int (tp_bufsize d - v - off)"
    "nat (int off + int (tp_bufsize d - v - off)) = tp_bufsize d - v" if "v + off \<le> tp_bufsize d" for v
    using that by (simp_all add: of_nat_diff)
  have vague: "tp_text_plain off d = tp_emit off (int (tp_bufsize d - v - off)) T_STATE_TEXT_NEXT v (tp_bufsize d - v) d"
    if "(if stokscan d off False < tp_bufsize d then (int (tp_bufsize d) - int (stokscan d off False) - int off, stokscan d off False)
      else if stokscan d off True < tp_bufsize d then (int (tp_bufsize d) - int (stokscan d off True) - int off, stokscan d off True)
      else (int (stokscan d off True) - int off, 0)) = (int (tp_bufsize d) - int v - int off, v)" and "v + off \<le> tp_bufsize d" for v
    unfolding tp_text_plain_def tp_emit_def Let_def that(1) prod.case a [OF that(2)] ..
  have "stokscan d off True = tp_bufsize d" if "\<not> stokscan d off True < tp_bufsize d" using le [of True] that by simp
  then show "tp_text_plain off d = tp_emit off
    (int (tp_bufsize d - plain_split d off - off)) T_STATE_TEXT_NEXT (plain_split d off) (tp_bufsize d - plain_split d off) d"
    using le assms by (intro vague) (simp_all add: plain_split_def)
qed

lemma plain_split_less: "tp_bufsize d \<le> T_READBUFSZ \<Longrightarrow> plain_split d off < T_READBUFSZ"
  by (simp add: plain_split_def T_READBUFSZ_def)

lemma tp_text_plain_ok:
  assumes "tp_ok d" and "off \<le> tp_bufsize d"
  shows "piece_ok (tp_text_plain off d)"
proof -
  note v = tp_text_plain_eq [OF assms(2)] and less = plain_split_less [of d off]
  from assms(1) v(1) less show ?thesis
    unfolding v(2) by (intro tp_emit_ok) (auto simp: tp_ok_def simp del: of_nat_diff)
qed

lemma takeWhile_take_le: "length (takeWhile P (take n b)) \<le> n"
  by (metis length_take length_takeWhile_le min.boundedE)

lemma tp_text_ok:
  assumes "tp_ok d"
  shows "piece_ok (snd (tp_text d))"
proof -
  let ?d = "d\<lparr>tp_type := T_TYPE_TEXT, tp_skipws := False\<rparr>"
  define off where "off = (if tp_skipws d then length (takeWhile isspace (take (tp_bufsize d) (tp_buf d))) else 0)"
  have ok: "tp_ok ?d" using assms by (simp add: tp_ok_def)
  have off: "off \<le> tp_bufsize ?d" using takeWhile_take_le [of isspace "tp_bufsize d" "tp_buf d"] by (simp add: off_def)
  show ?thesis
  proof (cases "strfind (drop off (tp_buf ?d)) (int (tp_bufsize ?d) - int off - 1) T_TOK_START")
    case None
    with tp_text_plain_ok [OF ok off] show ?thesis by (simp add: tp_text_def Let_def off_def [symmetric])
  next
    case (Some m)
    with tp_text_match_ok [OF ok strfind_start [OF ok Some]] show ?thesis by (simp add: tp_text_def Let_def off_def [symmetric])
  qed
qed

lemma tp_code_type_ok: "tp_ok d \<Longrightarrow> tp_ok (snd (snd (tp_code_type d)))"
  by (simp add: tp_code_type_def Let_def tp_ok_def)

lemma tp_code_None:
  assumes "strfind (drop off (tp_buf d)) (int (tp_bufsize d) - int off) T_TOK_END = None"
  shows "tp_code off d = (tp_state d = T_STATE_CODE_INIT, False, tp_emit off (int (tp_bufsize d - etokscan d) - int off)
    T_STATE_CODE_NEXT (etokscan d) (tp_bufsize d - etokscan d) d)"
proof -
  have v: "etokscan d \<le> tp_bufsize d" using etokscan_le [of d] by simp
  then have "int (tp_bufsize d) - int off - int (etokscan d) = int (tp_bufsize d - etokscan d) - int off"
    and "nat (int (tp_bufsize d - etokscan d) - int off + int off) = tp_bufsize d - etokscan d" by simp_all
  then show ?thesis unfolding tp_code_def assms option.case Let_def tp_emit_def by (simp only:)
qed

lemma tp_code_Some:
  assumes "strfind (drop off (tp_buf d)) (int (tp_bufsize d) - int off) T_TOK_END = Some m"
  shows "tp_code off d = (tp_state d = T_STATE_CODE_INIT, True,
    if 0 < off + m \<and> tp_buf d ! (off + m - 1) = CHR ''-''
    then tp_emit off (int m - 1) T_STATE_TEXT_INIT (tp_bufsize d - (off + m + 2)) (off + m + 2) (d\<lparr>tp_skipws := True\<rparr>)
    else tp_emit off (int m) T_STATE_TEXT_INIT (tp_bufsize d - (off + m + 2)) (off + m + 2) d)"
  using assms by (simp add: tp_code_def Let_def tp_emit_def T_TOK_END_def add.commute)

lemma tp_code_ok:
  assumes "tp_ok d"
  shows "piece_ok (snd (snd (tp_code off d)))"
proof (cases "strfind (drop off (tp_buf d)) (int (tp_bufsize d) - int off) T_TOK_END")
  case None
  then show ?thesis using assms etokscan_le [of d]
    by (auto simp: tp_code_None tp_ok_def T_READBUFSZ_def intro!: tp_emit_ok)
next
  case (Some m)
  note b = strfind_end [OF assms Some]
  have "tp_ok (d\<lparr>tp_skipws := True\<rparr>)" using assms by (simp add: tp_ok_def)
  with b assms show ?thesis
    by (auto simp: tp_code_Some [OF Some] tp_ok_def T_READBUFSZ_def intro!: tp_emit_ok)
qed

lemma generate_piece:
  assumes "piece_ok d"
  shows "case generate_expression gs ge d of (s, d') \<Rightarrow> tp_ok d' \<and> length s \<le> T_OUTBUFSZ"
  using assms generate_expression_ok [of d gs ge] by (simp add: piece_ok_def case_prod_beta)

definition next_ok :: "tp_next \<Rightarrow> bool" where
  "next_ok r \<longleftrightarrow> (case r of Continue d off ign \<Rightarrow> tp_ok d | Return s d \<Rightarrow> tp_ok d \<and> length s \<le> T_OUTBUFSZ)"

lemma next_okI:
  assumes "piece_ok d"
  shows "next_ok (Continue d off ign)" "next_ok (case generate_expression gs ge d of (s, d2) \<Rightarrow> Return s d2)"
  using assms generate_piece [OF assms, of gs ge] by (simp_all add: next_ok_def piece_ok_def case_prod_beta)

lemma tp_iter_ok:
  assumes "tp_ok d"
  shows "next_ok (tp_iter d off ign)"
proof (cases "tp_state d = T_STATE_TEXT_INIT \<or> tp_state d = T_STATE_TEXT_NEXT")
  case True
  from tp_text_ok [OF assms] True show ?thesis
    by (simp add: tp_iter_def case_prod_beta Let_def next_okI [unfolded case_prod_beta])
next
  case False
  define x where "x = (if tp_state d = T_STATE_CODE_NEXT then (off, ign, d)
    else (case tp_code_type d of (o1, comment, d1) \<Rightarrow> (o1, ign \<or> tp_state d = T_STATE_SKIP \<or> comment, d1)))"
  obtain off1 ign1 d1 where x: "x = (off1, ign1, d1)" by (cases x)
  have "tp_ok (snd (snd x))" using assms tp_code_type_ok [OF assms] by (simp add: x_def case_prod_beta)
  then have "tp_ok d1" by (simp add: x)
  moreover obtain gs ge d2 where c: "tp_code off1 d1 = (gs, ge, d2)" by (cases "tp_code off1 d1")
  ultimately have "piece_ok d2" using tp_code_ok [of d1 off1] by simp
  then show ?thesis
    unfolding tp_iter_def if_not_P [OF False] x_def [symmetric] x Let_def prod.case c by (simp add: next_okI)
qed

lemma tp_loop_ok: "tp_loop d off ign = Some r \<Longrightarrow> tp_ok d \<Longrightarrow> tp_ok (snd r) \<and> (\<forall>s. fst r = Some s \<longrightarrow> length s \<le> T_OUTBUFSZ)"
proof (induction rule: tp_loop.raw_induct [rotated 1, consumes 1])
  case (1 rec d off ign r)
  show ?case
  proof (cases "\<not> tp_eof d \<or> 0 < tp_bufsize d")
    case True
    show ?thesis
    proof (cases "tp_fill d")
      case None
      with 1 True show ?thesis by auto
    next
      case (Some d1)
      note n = tp_iter_ok [OF tp_fill_ok [OF "1.prems"(1) Some], of off ign]
      with 1 True Some show ?thesis by (cases "tp_iter d1 off ign") (auto simp: next_ok_def)
    qed
  next
    case False
    with 1 show ?thesis by auto
  qed
qed

text \<open>
  C40: The parser never touches memory outside its read buffer of 1024 and its output buffer of 3072 bytes,
  whatever the file contains and however \<^verbatim>\<open>read()\<close> delivers it: every pass of the loop keeps both buffers
  intact, also in a call that does not end, and what a call returns fits the output buffer.
\<close>
theorem template_reader_safe:
  assumes "tp_ok d"
  shows "(\<forall>d1 off ign. tp_fill d = Some d1 \<longrightarrow> (case tp_iter d1 off ign of
      Continue d2 off2 ign2 \<Rightarrow> tp_ok d2 | Return s d2 \<Rightarrow> tp_ok d2 \<and> length s \<le> T_OUTBUFSZ)) \<and>
    (\<forall>r d'. template_reader d = Some (r, d') \<longrightarrow> tp_ok d' \<and> (\<forall>s. r = Some s \<longrightarrow> length s \<le> T_OUTBUFSZ))"
proof (intro conjI allI impI)
  fix d1 off ign
  assume "tp_fill d = Some d1"
  from tp_iter_ok [OF tp_fill_ok [OF assms this], of off ign]
  show "case tp_iter d1 off ign of Continue d2 off2 ign2 \<Rightarrow> tp_ok d2 | Return s d2 \<Rightarrow> tp_ok d2 \<and> length s \<le> T_OUTBUFSZ"
    unfolding next_ok_def .
next
  fix r d'
  assume "template_reader d = Some (r, d')"
  from tp_loop_ok [OF this [unfolded template_reader_def] assms]
  show "tp_ok d'" and "\<And>s. r = Some s \<Longrightarrow> length s \<le> T_OUTBUFSZ" by auto
qed

section \<open>The rest of the file\<close>

definition unread :: "template_parser \<Rightarrow> string" where
  "unread d = (case tp_fd d of [Rd s] \<Rightarrow> s | _ \<Rightarrow> [])"

definition pending :: "template_parser \<Rightarrow> string" where
  "pending d = take (tp_bufsize d) (tp_buf d) @ unread d"

text \<open>A parser that reads a regular file: the rest of it is delivered as far as it fits.\<close>

definition file_parser :: "template_parser \<Rightarrow> bool" where
  "file_parser d \<longleftrightarrow> tp_ok d \<and> (tp_fd d = [] \<or> (\<exists>s. tp_fd d = [Rd s])) \<and> (tp_eof d \<longrightarrow> unread d = [])"

definition filled :: "template_parser \<Rightarrow> bool" where
  "filled d \<longleftrightarrow> file_parser d \<and> (tp_bufsize d = T_READBUFSZ \<or> unread d = [])"

lemma tp_fill_file:
  assumes "file_parser d"
  shows "\<exists>d1. tp_fill d = Some d1 \<and> filled d1 \<and> pending d1 = pending d \<and> tp_state d1 = tp_state d \<and> tp_skipws d1 = tp_skipws d \<and>
    (pending d = [] \<longrightarrow> tp_eof d1)"
proof (cases "tp_eof d \<or> T_READBUFSZ \<le> tp_bufsize d")
  case True
  with assms show ?thesis by (auto simp: tp_fill_def filled_def file_parser_def tp_ok_def pending_def T_READBUFSZ_def)
next
  case False
  then have less: "tp_bufsize d < T_READBUFSZ" "\<not> tp_eof d" by simp_all
  show ?thesis
  proof (cases "unread d = []")
    case True
    with assms less show ?thesis
      by (auto simp: tp_fill_def filled_def file_parser_def tp_ok_def pending_def unread_def Let_def)
  next
    case ne: False
    with assms obtain u where u: "tp_fd d = [Rd u]" "u \<noteq> []" by (auto simp: file_parser_def unread_def)
    show ?thesis
    proof (cases "length u \<le> T_READBUFSZ - tp_bufsize d")
      case True
      with assms less u show ?thesis
        by (auto simp: tp_fill_def filled_def file_parser_def tp_ok_def pending_def unread_def Let_def)
    next
      case False
      then have "length (take (T_READBUFSZ - tp_bufsize d) u) = T_READBUFSZ - tp_bufsize d" by simp
      with False assms less u show ?thesis
        by (auto simp: tp_fill_def filled_def file_parser_def tp_ok_def pending_def unread_def Let_def)
    qed
  qed
qed

lemma pending_nth: "tp_ok d \<Longrightarrow> i < tp_bufsize d \<Longrightarrow> pending d ! i = tp_buf d ! i \<and> i < length (pending d)"
  by (auto simp: pending_def tp_ok_def nth_append)

lemma filled_length: "filled d \<Longrightarrow> tp_bufsize d \<le> length (pending d) \<and>
  (length (pending d) = tp_bufsize d \<or> tp_bufsize d = T_READBUFSZ)"
  by (auto simp: filled_def file_parser_def tp_ok_def pending_def)

lemma filled_pos: "filled d \<Longrightarrow> pending d \<noteq> [] \<Longrightarrow> 0 < tp_bufsize d"
  by (cases "tp_bufsize d") (auto simp: filled_def pending_def T_READBUFSZ_def)

text \<open>Handing out a piece cuts it out of the rest of the file and leaves what is behind \<open>src\<close>.\<close>

lemma tp_emit_pending:
  assumes "file_parser d" and "0 \<le> len \<longrightarrow> off + nat len \<le> tp_bufsize d" and "n < T_READBUFSZ" and "src + n = tp_bufsize d"
  shows "file_parser (tp_emit off len st n src d)" "pending (tp_emit off len st n src d) = drop src (pending d)"
    "tp_raw (tp_emit off len st n src d) = take (nat len) (drop off (pending d))"
proof -
  have ok: "tp_ok d" "tp_bufsize d \<le> T_READBUFSZ" "length (tp_buf d) = T_READBUFSZ" using assms(1) by (simp_all add: file_parser_def tp_ok_def)
  have "0 \<le> len \<longrightarrow> off + nat len \<le> T_READBUFSZ" "src + n \<le> T_READBUFSZ" using assms(2,4) ok(2) by auto
  note b = tp_emit_bufs [OF ok(1) this(1) assms(3) this(2)]
  have u: "unread (tp_emit off len st n src d) = unread d" by (simp add: unread_def tp_emit_frame)
  show "file_parser (tp_emit off len st n src d)" using b(1) assms(1) by (simp add: file_parser_def tp_emit_frame u)
  have "take n (drop src (tp_buf d)) = drop src (take (tp_bufsize d) (tp_buf d))" using assms(4) by (simp add: drop_take) (metis diff_add_inverse)
  moreover have "src \<le> length (take (tp_bufsize d) (tp_buf d))" using assms(4) ok by simp
  ultimately show "pending (tp_emit off len st n src d) = drop src (pending d)"
    by (simp add: pending_def tp_emit_frame b(3) u)
  show "tp_raw (tp_emit off len st n src d) = take (nat len) (drop off (pending d))"
  proof (cases "0 < nat len")
    case True
    with assms(2) have le: "off + nat len \<le> tp_bufsize d" by simp
    then have "take (nat len) (drop off (pending d)) = take (nat len) (drop off (take (tp_bufsize d) (tp_buf d)))"
      using ok(2,3) by (simp add: pending_def)
    also have "\<dots> = take (nat len) (drop off (tp_buf d))" using le by (simp add: drop_take min_def)
    finally show ?thesis using b(2) by simp
  next
    case False
    then show ?thesis using b(2) by simp
  qed
qed

section \<open>Tokens in the rest of the file\<close>

definition tok2 :: "char \<Rightarrow> char \<Rightarrow> string \<Rightarrow> nat \<Rightarrow> bool" where
  "tok2 a b R j \<longleftrightarrow> Suc j < length R \<and> R ! j = a \<and> R ! Suc j = b"

lemma occurs_at_2: "occurs_at h [a, b] j \<longleftrightarrow> tok2 a b h j"
  by (auto simp: occurs_at_def prefix_drop_iff tok2_def less_Suc_eq)

lemma strfind_tok2:
  assumes "nat i \<le> length h"
  shows "case strfind h i [a, b] of
      Some m \<Rightarrow> tok2 a b (take (nat i) h) m \<and> (\<forall>j<m. \<not> tok2 a b (take (nat i) h) j)
    | None \<Rightarrow> (\<forall>j. \<not> tok2 a b (take (nat i) h) j)"
  using strfind_at_spec [OF assms, of "[a, b]" 0] by (simp add: strfind_def occurs_at_2 split: option.splits)

lemma tok2_take: "tok2 a b (take n R) j \<longleftrightarrow> tok2 a b R j \<and> Suc j < n"
  by (auto simp: tok2_def)

lemma tok2_drop: "off \<le> length R \<Longrightarrow> tok2 a b (drop off R) j \<longleftrightarrow> tok2 a b R (off + j)"
  by (auto simp: tok2_def)

text \<open>The searches of the parser, in terms of the rest of the file: the first token at \<open>off\<close> or behind that
  ends within the first \<open>n\<close> bytes.\<close>

lemma strfind_pending:
  assumes "tp_ok d" and "n \<le> tp_bufsize d" and "off \<le> tp_bufsize d"
  shows "case strfind (drop off (tp_buf d)) (int n - int off) [a, b] of
      Some m \<Rightarrow> tok2 a b (pending d) (off + m) \<and> off + m + 2 \<le> n \<and> (\<forall>j. off \<le> j \<and> j < off + m \<longrightarrow> \<not> tok2 a b (pending d) j)
    | None \<Rightarrow> (\<forall>j. off \<le> j \<and> j + 2 \<le> n \<longrightarrow> \<not> tok2 a b (pending d) j)"
proof -
  let ?h = "drop off (tp_buf d)" and ?i = "int n - int off"
  have ok: "tp_bufsize d \<le> T_READBUFSZ" "length (tp_buf d) = T_READBUFSZ" using assms(1) by (simp_all add: tp_ok_def)
  have len: "nat ?i \<le> length ?h" using assms(2) ok by auto
  have n: "nat ?i = n - off" by simp
  have tok: "tok2 a b (take (nat ?i) ?h) j \<longleftrightarrow> tok2 a b (pending d) (off + j) \<and> off + j + 2 \<le> n" for j
  proof -
    have "tok2 a b (take (nat ?i) ?h) j \<longleftrightarrow> tok2 a b (take n (tp_buf d)) (off + j)"
      unfolding n tok2_take using assms(2,3) ok by (auto simp: tok2_drop)
    also have "take n (tp_buf d) = take n (pending d)" using assms(2) ok by (simp add: pending_def min_def)
    finally show ?thesis by (auto simp: tok2_take)
  qed
  show ?thesis
  proof (cases "strfind ?h ?i [a, b]")
    case None
    have "\<not> tok2 a b (pending d) j" if "off \<le> j" "j + 2 \<le> n" for j
      using strfind_tok2 [OF len, of a b] None that tok [of "j - off"] by simp
    with None show ?thesis by simp
  next
    case (Some m)
    have "\<not> tok2 a b (pending d) j" if "off \<le> j" "j < off + m" for j
      using strfind_tok2 [OF len, of a b] Some that tok [of "j - off"] tok [of m] by auto
    with strfind_tok2 [OF len, of a b] Some tok [of m] show ?thesis by simp
  qed
qed

section \<open>Text\<close>

definition no_tok :: "char \<Rightarrow> char \<Rightarrow> string \<Rightarrow> bool" where
  "no_tok a b s \<longleftrightarrow> (\<forall>j. \<not> tok2 a b s j)"

lemma no_tok_Nil: "no_tok a b []"
  by (simp add: no_tok_def tok2_def)

lemma no_tok_single: "no_tok a b [x]"
  by (simp add: no_tok_def tok2_def)

lemma no_tok_Cons: "no_tok a b (x # y # s) \<longleftrightarrow> \<not> (x = a \<and> y = b) \<and> no_tok a b (y # s)"
proof -
  have t: "tok2 a b (x # y # s) 0 \<longleftrightarrow> x = a \<and> y = b" "\<And>i. tok2 a b (x # y # s) (Suc i) \<longleftrightarrow> tok2 a b (y # s) i"
    by (simp_all add: tok2_def)
  have "(\<forall>j. P j) \<longleftrightarrow> P 0 \<and> (\<forall>i. P (Suc i))" for P :: "nat \<Rightarrow> bool" using nat.exhaust by metis
  from this [of "\<lambda>j. \<not> tok2 a b (x # y # s) j"] show ?thesis unfolding no_tok_def t .
qed

lemmas no_tok_simps = no_tok_Nil no_tok_single no_tok_Cons

lemma no_tok_suffix: "no_tok a b (s @ t) \<Longrightarrow> no_tok a b t"
  unfolding no_tok_def
proof (intro allI notI)
  fix j
  assume none: "\<forall>j. \<not> tok2 a b (s @ t) j" and "tok2 a b t j"
  then have "tok2 a b (s @ t) (length s + j)" by (auto simp: tok2_def nth_append)
  with none show False by simp
qed

text \<open>What may stand behind a text: the end of the file, or an opening token and something behind it.\<close>

definition text_rest :: "string \<Rightarrow> bool" where
  "text_rest rest \<longleftrightarrow> rest = [] \<or> (\<exists>c r. rest = T_TOK_START @ c # r)"

lemma tok2_text:
  assumes "no_tok CHR ''<'' CHR ''%'' t" and "text_rest rest" and "tok2 CHR ''<'' CHR ''%'' (t @ rest) j"
  shows "length t \<le> j \<and> rest \<noteq> []"
proof -
  have "\<not> Suc j < length t" using assms(1,3) by (auto simp: no_tok_def tok2_def nth_append)
  moreover have "Suc j \<noteq> length t"
    using assms(2,3) by (auto simp: text_rest_def tok2_def nth_append T_TOK_START_def)
  ultimately show ?thesis using assms(3) by (auto simp: tok2_def)
qed

lemma tok2_at_text: "text_rest rest \<Longrightarrow> rest \<noteq> [] \<Longrightarrow> tok2 CHR ''<'' CHR ''%'' (t @ rest) (length t)"
  by (auto simp: text_rest_def tok2_def nth_append T_TOK_START_def)

lemma strip_ws_space: "strip_ws b off n \<le> i \<Longrightarrow> i < n \<Longrightarrow> isspace (b ! (off + i))"
  by (induction n) (auto split: if_splits simp: less_Suc_eq)

text \<open>The whitespace skipped at the front.\<close>

definition skip_len :: "template_parser \<Rightarrow> nat" where
  "skip_len d = (if tp_skipws d then length (takeWhile isspace (take (tp_bufsize d) (tp_buf d))) else 0)"

lemma skip_len_spec:
  assumes "tp_ok d" and "pending d = t @ rest" and "text_rest rest"
  shows "skip_len d \<le> tp_bufsize d" "skip_len d \<le> length t" "list_all isspace (take (skip_len d) t)"
    "0 < skip_len d \<Longrightarrow> tp_skipws d"
proof -
  let ?b = "take (tp_bufsize d) (tp_buf d)"
  show le: "skip_len d \<le> tp_bufsize d" by (simp add: skip_len_def takeWhile_take_le)
  show "0 < skip_len d \<Longrightarrow> tp_skipws d" by (simp add: skip_len_def split: if_splits)
  have ws: "isspace (pending d ! i)" if "i < skip_len d" for i
  proof -
    have i: "i < length (takeWhile isspace ?b)" using that by (simp add: skip_len_def split: if_splits)
    from nth_mem [OF i] have "isspace (takeWhile isspace ?b ! i)" by (auto dest: set_takeWhileD)
    then have "isspace (?b ! i)" using takeWhile_nth [OF i] by simp
    moreover have "i < tp_bufsize d" using that le by simp
    ultimately show ?thesis using pending_nth [OF assms(1)] by simp
  qed
  show len: "skip_len d \<le> length t"
  proof (rule ccontr)
    assume c: "\<not> skip_len d \<le> length t"
    show False
    proof (cases "rest = []")
      case True
      have "tp_bufsize d \<le> length (pending d)" using assms(1) by (auto simp: pending_def tp_ok_def)
      with c le assms(2) True show False by simp
    next
      case False
      with assms(2,3) have "pending d ! length t = CHR ''<''" by (auto simp: text_rest_def T_TOK_START_def nth_append)
      with ws [of "length t"] c show False by (simp add: isspace_def)
    qed
  qed
  show "list_all isspace (take (skip_len d) t)"
    using ws len assms(2) by (simp add: list_all_length nth_append)
qed

lemma plain_split_text:
  assumes "filled d" and "pending d = t @ rest" and "text_rest rest" and "off \<le> tp_bufsize d" and "off \<le> length t"
    and none: "\<And>j. off \<le> j \<Longrightarrow> j + 2 \<le> tp_bufsize d - 1 \<Longrightarrow> \<not> tok2 CHR ''<'' CHR ''%'' (pending d) j"
  shows "tp_bufsize d - plain_split d off \<le> length t"
proof (cases "tp_bufsize d \<le> length t")
  case False
  let ?n = "tp_bufsize d" and ?i = "length t"
  have ok: "tp_ok d" using assms(1) by (simp add: filled_def file_parser_def)
  have fl: "?n \<le> length (pending d)" "length (pending d) = ?n \<or> ?n = T_READBUFSZ" using filled_length [OF assms(1)] by auto
  then have ne: "rest \<noteq> []" using False assms(2) by auto
  then obtain c r where r: "rest = T_TOK_START @ c # r" using assms(3) by (auto simp: text_rest_def)
  have tok: "tok2 CHR ''<'' CHR ''%'' (pending d) ?i" unfolding assms(2) by (rule tok2_at_text [OF assms(3) ne])
  then have near: "?n \<le> ?i + 2" using none [of ?i] assms(5) by linarith
  have last: "tok_back (tp_buf d) off ?n = Some ?i"
  proof -
    have b: "tp_buf d ! ?i = CHR ''<''" using tok pending_nth [OF ok, of ?i] False by (simp add: tok2_def)
    have "j = ?i" if "?i \<le> j" "j < ?n" "tp_buf d ! j = CHR ''<''" for j
      using that near tok pending_nth [OF ok, of j] by (cases "j = Suc ?i") (auto simp: tok2_def)
    moreover obtain j where j: "tok_back (tp_buf d) off ?n = Some j"
      using tok_back_None [of "tp_buf d" off ?n ?i] b assms(5) False by (cases "tok_back (tp_buf d) off ?n") auto
    ultimately show ?thesis using tok_back_Some [OF j] b False by (metis not_le not_le_imp_less nat_le_linear le_less)
  qed
  note v = stokscan_back [OF last]
  show ?thesis
  proof (cases "stokscan d off False < ?n \<or> stokscan d off True < ?n")
    case True
    with v [of False] v [of True] show ?thesis by (auto simp: plain_split_def)
  next
    case F: False
    then have "\<not> ?n - ?i < ?n" using v [of True] by simp
    then have "?i = 0" using False by linarith
    then have "length (pending d) = Suc (Suc (Suc (length r)))" by (simp add: assms(2) r T_TOK_START_def)
    with fl(2) near \<open>?i = 0\<close> show ?thesis by (auto simp: T_READBUFSZ_def)
  qed
qed simp

text \<open>One pass over text hands out a part of it, or all of it with the token behind.\<close>

definition text_piece :: "template_parser \<Rightarrow> string \<Rightarrow> string \<Rightarrow> template_parser \<Rightarrow> bool" where
  "text_piece d t rest d1 \<longleftrightarrow> (\<exists>w1 t2. t = w1 @ tp_raw d1 @ t2 \<and> list_all isspace w1 \<and> (w1 \<noteq> [] \<longrightarrow> tp_skipws d) \<and>
     pending d1 = t2 @ rest \<and> tp_state d1 = T_STATE_TEXT_NEXT \<and> (pending d \<noteq> [] \<longrightarrow> length t2 < length t))"

definition text_end :: "template_parser \<Rightarrow> string \<Rightarrow> string \<Rightarrow> template_parser \<Rightarrow> bool" where
  "text_end d t rest d1 \<longleftrightarrow> (\<exists>w1 w2 c r. t = w1 @ tp_raw d1 @ w2 \<and> list_all isspace w1 \<and> (w1 \<noteq> [] \<longrightarrow> tp_skipws d) \<and>
     list_all isspace w2 \<and> rest = T_TOK_START @ c # r \<and> (w2 \<noteq> [] \<longrightarrow> c = CHR ''-'') \<and>
     pending d1 = (if c = CHR ''-'' then r else c # r) \<and> tp_state d1 = T_STATE_CODE_INIT)"

lemma tp_text_plain_step:
  assumes "filled d" and "pending d = t @ rest" and "text_rest rest" and "off \<le> tp_bufsize d" and "off \<le> length t"
    and "list_all isspace (take off t)" and "0 < off \<longrightarrow> tp_skipws d0" and "pending d0 = pending d"
    and none: "\<And>j. off \<le> j \<Longrightarrow> j + 2 \<le> tp_bufsize d - 1 \<Longrightarrow> \<not> tok2 CHR ''<'' CHR ''%'' (pending d) j"
  shows "file_parser (tp_text_plain off d) \<and> text_piece d0 t rest (tp_text_plain off d)"
proof -
  let ?n = "tp_bufsize d" and ?v = "plain_split d off" and ?d1 = "tp_text_plain off d"
  have fp: "file_parser d" and bs: "?n \<le> T_READBUFSZ" using assms(1) by (simp_all add: filled_def file_parser_def tp_ok_def)
  note eq = tp_text_plain_eq [OF assms(4)]
  have le: "?n - ?v \<le> length t" by (rule plain_split_text [OF assms(1-5) none])
  have less: "?v < T_READBUFSZ" by (rule plain_split_less [OF bs])
  have pos: "0 < ?n - ?v" if "pending d \<noteq> []"
  proof -
    have "0 < ?n" by (rule filled_pos [OF assms(1) that])
    then show ?thesis by (simp add: plain_split_def)
  qed
  note e = tp_emit_pending [OF fp, of "int (?n - ?v - off)" off ?v "?n - ?v" T_STATE_TEXT_NEXT, folded eq(2)]
  have e1: "file_parser ?d1" and e2: "pending ?d1 = drop (?n - ?v) (pending d)"
    and e3: "tp_raw ?d1 = take (?n - ?v - off) (drop off (pending d))"
    using e eq(1) less by (simp_all del: of_nat_diff)
  have t2: "pending ?d1 = drop (?n - ?v) t @ rest" using e2 le by (simp add: assms(2))
  have "tp_raw ?d1 = take (?n - ?v - off) (drop off t)" using e3 le assms(5) by (simp add: assms(2))
  moreover have "t = take off t @ take (?n - ?v - off) (drop off t) @ drop (?n - ?v) t"
  proof -
    have "drop (?n - ?v) t = drop (?n - ?v - off) (drop off t)" using eq(1) by simp
    then show ?thesis by (metis append_take_drop_id)
  qed
  ultimately have "t = take off t @ tp_raw ?d1 @ drop (?n - ?v) t" by simp
  moreover have "tp_state ?d1 = T_STATE_TEXT_NEXT" by (simp add: eq(2) tp_emit_frame)
  moreover have "length (drop (?n - ?v) t) < length t" if "pending d0 \<noteq> []" using pos that le assms(8) by simp
  ultimately have "text_piece d0 t rest ?d1"
    unfolding text_piece_def using t2 assms(6,7) by (intro exI [of _ "take off t"] exI [of _ "drop (?n - ?v) t"]) auto
  with e1 show ?thesis ..
qed

lemma tp_text_match_step:
  assumes "filled d" and "pending d = t @ rest" and "no_tok CHR ''<'' CHR ''%'' t" and "text_rest rest" and "off \<le> length t"
    and "list_all isspace (take off t)" and "0 < off \<longrightarrow> tp_skipws d0"
    and m: "tok2 CHR ''<'' CHR ''%'' (pending d) (off + m)" "off + m + 2 < tp_bufsize d"
    and first: "\<And>j. off \<le> j \<Longrightarrow> j < off + m \<Longrightarrow> \<not> tok2 CHR ''<'' CHR ''%'' (pending d) j"
  shows "file_parser (tp_text_match off m d) \<and> text_end d0 t rest (tp_text_match off m d)"
proof -
  let ?d1 = "tp_text_match off m d"
  have fp: "file_parser d" and ok: "tp_ok d" and bs: "tp_bufsize d \<le> T_READBUFSZ"
    using assms(1) by (simp_all add: filled_def file_parser_def tp_ok_def)
  have ne: "length t \<le> off + m" "rest \<noteq> []" using tok2_text [OF assms(3,4)] m(1) assms(2) by auto
  have "tok2 CHR ''<'' CHR ''%'' (pending d) (length t)" unfolding assms(2) by (rule tok2_at_text [OF assms(4) ne(2)])
  with first [of "length t"] ne(1) assms(5) have t: "length t = off + m" by (cases "length t < off + m") auto
  obtain c r where r: "rest = T_TOK_START @ c # r" using assms(4) ne(2) by (auto simp: text_rest_def)
  have "pending d ! (off + m + 2) = c" unfolding assms(2) r by (simp add: nth_append t T_TOK_START_def)
  then have c: "char_at (tp_buf d) (off + m + 2) = c" using pending_nth [OF ok m(2)] ok m(2) bs by (simp add: tp_ok_def)
  have drops: "drop (off + m + 2) (pending d) = c # r" "drop (off + m + 3) (pending d) = r"
    unfolding assms(2) r by (simp_all add: t T_TOK_START_def numeral_3_eq_3)
  have raw: "take n (drop off (pending d)) = take n (drop off t)" if "n \<le> m" for n using that t by (simp add: assms(2))
  show ?thesis
  proof (cases "c = CHR ''-''")
    case True
    define n where "n = strip_ws (tp_buf d) off m"
    have n: "n \<le> m" by (simp add: n_def strip_ws_le)
    have d1: "?d1 = tp_emit off (int n) T_STATE_CODE_INIT (tp_bufsize d - (off + m + 3)) (off + m + 3) d"
      using c True by (simp add: tp_text_match_eq n_def)
    have e: "file_parser ?d1" "pending ?d1 = r" "tp_raw ?d1 = take n (drop off t)"
      unfolding d1 using tp_emit_pending [OF fp, of "int n" off "tp_bufsize d - (off + m + 3)" "off + m + 3" T_STATE_CODE_INIT]
        m(2) n bs drops(2) raw [OF n] by simp_all
    have ws: "list_all isspace (drop n (drop off t))"
    proof -
      have sp: "isspace (t ! (off + i))" if "n \<le> i" "i < m" for i
      proof -
        have "tp_buf d ! (off + i) = pending d ! (off + i)" using pending_nth [OF ok, of "off + i"] that m(2) by simp
        also have "\<dots> = t ! (off + i)" using that t by (simp add: assms(2) nth_append)
        finally show ?thesis using strip_ws_space [of "tp_buf d" off m i] that by (simp add: n_def)
      qed
      have "isspace (drop n (drop off t) ! i)" if "i < m - n" for i using sp [of "n + i"] that t by (simp add: ac_simps)
      then show ?thesis using t by (simp add: list_all_length del: nth_drop)
    qed
    have "t = take off t @ tp_raw ?d1 @ drop n (drop off t)" unfolding e(3) by (metis append_take_drop_id)
    moreover have "tp_state ?d1 = T_STATE_CODE_INIT" by (simp add: d1 tp_emit_frame)
    ultimately have "text_end d0 t rest ?d1"
      unfolding text_end_def using True r e(2) ws assms(6,7)
      by (intro exI [of _ "take off t"] exI [of _ "drop n (drop off t)"] exI [of _ c] exI [of _ r]) auto
    with e(1) show ?thesis ..
  next
    case False
    have d1: "?d1 = tp_emit off (int m) T_STATE_CODE_INIT (tp_bufsize d - (off + m + 2)) (off + m + 2) d"
      using c False by (simp add: tp_text_match_eq)
    have e: "file_parser ?d1" "pending ?d1 = c # r" "tp_raw ?d1 = drop off t"
      unfolding d1 using tp_emit_pending [OF fp, of "int m" off "tp_bufsize d - (off + m + 2)" "off + m + 2" T_STATE_CODE_INIT]
        m(2) bs drops(1) raw [of m] t by simp_all
    have "t = take off t @ tp_raw ?d1 @ []" unfolding e(3) by simp
    moreover have "tp_state ?d1 = T_STATE_CODE_INIT" by (simp add: d1 tp_emit_frame)
    ultimately have "text_end d0 t rest ?d1"
      unfolding text_end_def using False r e(2) assms(6,7)
      by (intro exI [of _ "take off t"] exI [of _ "[]"] exI [of _ c] exI [of _ r]) auto
    with e(1) show ?thesis ..
  qed
qed

lemma tp_text_step:
  assumes "filled d" and "pending d = t @ rest" and "no_tok CHR ''<'' CHR ''%'' t" and "text_rest rest"
  shows "\<exists>d1. tp_text d = (skip_len d, d1) \<and> file_parser d1 \<and> (text_piece d t rest d1 \<or> text_end d t rest d1) \<and>
    tp_type d1 = T_TYPE_TEXT \<and> \<not> tp_skipws d1 \<and> tp_eof d1 = tp_eof d"
proof -
  let ?d = "d\<lparr>tp_type := T_TYPE_TEXT, tp_skipws := False\<rparr>" and ?off = "skip_len d"
  have p: "pending ?d = pending d" and fi: "filled ?d" and ok: "tp_ok ?d"
    using assms(1) by (simp_all add: pending_def unread_def filled_def file_parser_def tp_ok_def)
  have okd: "tp_ok d" using assms(1) by (simp add: filled_def file_parser_def)
  note off = skip_len_spec [OF okd assms(2,4)]
  have off': "?off \<le> tp_bufsize ?d" using off(1) by simp
  define n where "n = tp_bufsize d - 1"
  have tx: "tp_text d = (?off, case strfind (drop ?off (tp_buf ?d)) (int (tp_bufsize ?d) - int ?off - 1) T_TOK_START of
      Some m \<Rightarrow> tp_text_match ?off m ?d | None \<Rightarrow> tp_text_plain ?off ?d)"
    by (simp only: tp_text_def skip_len_def Let_def)
  show ?thesis
  proof (cases "strfind (drop ?off (tp_buf ?d)) (int (tp_bufsize ?d) - int ?off - 1) T_TOK_START")
    case None
    have none: "\<not> tok2 CHR ''<'' CHR ''%'' (pending ?d) j" if "?off \<le> j" "j + 2 \<le> tp_bufsize ?d - 1" for j
    proof -
      have i: "int (tp_bufsize ?d) - int ?off - 1 = int n - int ?off" using that(2) by (simp add: n_def)
      have "strfind (drop ?off (tp_buf ?d)) (int n - int ?off) [CHR ''<'', CHR ''%''] = None"
        using None unfolding i T_TOK_START_def .
      moreover have "n \<le> tp_bufsize ?d" by (simp add: n_def)
      note strfind_pending [OF ok this off', of "CHR ''<''" "CHR ''%''"]
      moreover have "j + 2 \<le> n" using that(2) by (simp add: n_def)
      ultimately show ?thesis using that(1) by (simp only: option.case) blast
    qed
    note st = tp_text_plain_step [OF fi, unfolded p, OF assms(2,4) off' off(2,3), of d]
    have "file_parser (tp_text_plain ?off ?d) \<and> text_piece d t rest (tp_text_plain ?off ?d)"
      using st off(4) none [unfolded p] by blast
    moreover have "tp_type (tp_text_plain ?off ?d) = T_TYPE_TEXT \<and> \<not> tp_skipws (tp_text_plain ?off ?d) \<and>
        tp_eof (tp_text_plain ?off ?d) = tp_eof d"
      by (simp add: tp_text_plain_eq(2) [OF off'] tp_emit_frame)
    ultimately show ?thesis unfolding tx None option.case by blast
  next
    case (Some m)
    note b = strfind_start [OF ok Some]
    have i: "int (tp_bufsize ?d) - int ?off - 1 = int n - int ?off" using b by (simp add: n_def)
    have sf: "strfind (drop ?off (tp_buf ?d)) (int n - int ?off) [CHR ''<'', CHR ''%''] = Some m"
      using Some unfolding i T_TOK_START_def .
    have "n \<le> tp_bufsize ?d" by (simp add: n_def)
    from strfind_pending [OF ok this off', of "CHR ''<''" "CHR ''%''", unfolded sf option.case p]
    have m: "tok2 CHR ''<'' CHR ''%'' (pending d) (?off + m)" "\<And>j. ?off \<le> j \<Longrightarrow> j < ?off + m \<Longrightarrow> \<not> tok2 CHR ''<'' CHR ''%'' (pending d) j"
      by blast+
    note st = tp_text_match_step [OF fi, unfolded p, OF assms(2-4) off(2,3), of d m]
    have "file_parser (tp_text_match ?off m ?d) \<and> text_end d t rest (tp_text_match ?off m ?d)"
      using st off(4) m b by blast
    moreover have "tp_type (tp_text_match ?off m ?d) = T_TYPE_TEXT \<and> \<not> tp_skipws (tp_text_match ?off m ?d) \<and>
        tp_eof (tp_text_match ?off m ?d) = tp_eof d"
      by (simp add: tp_text_match_eq tp_emit_frame)
    ultimately show ?thesis unfolding tx Some option.case by blast
  qed
qed

section \<open>Runs of the reader\<close>

text \<open>
  A configuration is the parser with the locals of the loop; a run goes through passes and collects the
  chunks that are returned, every call starting with fresh locals.
\<close>

inductive run :: "template_parser \<times> nat \<times> bool \<Rightarrow> string list \<Rightarrow> template_parser \<times> nat \<times> bool \<Rightarrow> bool" where
  run_refl: "run c [] c"
| run_continue: "\<not> tp_eof d \<or> 0 < tp_bufsize d \<Longrightarrow> tp_fill d = Some d1 \<Longrightarrow> tp_iter d1 off ign = Continue d2 off2 ign2 \<Longrightarrow>
    run (d2, off2, ign2) cs c \<Longrightarrow> run (d, off, ign) cs c"
| run_return: "\<not> tp_eof d \<or> 0 < tp_bufsize d \<Longrightarrow> tp_fill d = Some d1 \<Longrightarrow> tp_iter d1 off ign = Return s d2 \<Longrightarrow> s \<noteq> [] \<Longrightarrow>
    run (d2, 0, False) cs c \<Longrightarrow> run (d, off, ign) (s # cs) c"

lemma run_append: "run a cs b \<Longrightarrow> run b cs' c \<Longrightarrow> run a (cs @ cs') c"
  by (induction rule: run.induct) (auto intro: run.intros)

definition at_end :: "template_parser \<Rightarrow> bool" where
  "at_end d \<longleftrightarrow> tp_eof d \<and> tp_bufsize d = 0"

text \<open>A run to the end of the file is what the interpreter gets to see.\<close>

definition reads :: "string option \<times> template_parser \<Rightarrow> string list \<Rightarrow> template_parser \<Rightarrow> bool" where
  "reads r cs d' \<longleftrightarrow> (case r of (None, d1) \<Rightarrow> cs = [] \<and> d1 = d'
     | (Some s, d1) \<Rightarrow> s \<noteq> [] \<and> (\<exists>n cs1. cs = s # cs1 \<and> lua_chunks n d1 = Some (cs1, d')))"

lemma reads_chunks:
  assumes "template_reader d = Some r" and "reads r cs d'"
  shows "\<exists>n. lua_chunks n d = Some (cs, d')"
proof (cases r)
  case (Pair x d3)
  show ?thesis
  proof (cases x)
    case None
    with assms Pair have "lua_chunks (Suc 0) d = Some (cs, d')" by (simp add: reads_def)
    then show ?thesis ..
  next
    case (Some s')
    with assms Pair obtain n cs1 where "s' \<noteq> []" "cs = s' # cs1" "lua_chunks n d3 = Some (cs1, d')" by (auto simp: reads_def)
    with assms(1) Pair Some have "lua_chunks (Suc n) d = Some (cs, d')" by simp
    then show ?thesis ..
  qed
qed

lemma run_reads:
  assumes "run c cs c'" and "at_end (fst c')"
  shows "\<exists>r. tp_loop (fst c) (fst (snd c)) (snd (snd c)) = Some r \<and> reads r cs (fst c')"
  using assms
proof (induction rule: run.induct)
  case (run_refl c)
  then show ?case by (subst tp_loop.simps) (simp add: at_end_def reads_def)
next
  case (run_continue d d1 off ign d2 off2 ign2 cs c)
  then have "tp_loop d off ign = tp_loop d2 off2 ign2" by (subst tp_loop.simps) simp
  with run_continue show ?case by simp
next
  case (run_return d d1 off ign s d2 cs c)
  have loop: "tp_loop d off ign = Some (Some s, d2)" using run_return.hyps(1-3) by (subst tp_loop.simps) simp
  from run_return obtain r where "template_reader d2 = Some r" "reads r cs (fst c)" by (auto simp: template_reader_def)
  then have "\<exists>n. lua_chunks n d2 = Some (cs, fst c)" by (rule reads_chunks)
  with loop run_return.hyps(4) show ?case by (auto simp: reads_def)
qed

lemma run_lua_chunks:
  assumes "run (d, 0, False) cs (d', off', ign')" and "at_end d'"
  shows "\<exists>n. lua_chunks n d = Some (cs, d')"
  using run_reads [OF assms(1)] assms(2) reads_chunks [of d] by (auto simp: template_reader_def)

lemma generate_frame:
  assumes "generate_expression gs ge d = (s, d1)"
  shows "s = gen_text (tp_type d) gs ge (tp_raw d)" "pending d1 = pending d" "tp_state d1 = tp_state d" "tp_eof d1 = tp_eof d"
    "tp_skipws d1 = tp_skipws d" "tp_type d1 = tp_type d" "tp_bufsize d1 = tp_bufsize d" "unread d1 = unread d"
  using assms by (auto simp: generate_expression_def Let_def pending_def unread_def tp_raw_def)

lemma generated_file_parser:
  assumes "file_parser d" and "piece_ok d" and "generate_expression gs ge d = (s, d1)"
  shows "file_parser d1"
  using assms generate_piece [OF assms(2), of gs ge] generate_frame(4,8) [OF assms(3)]
  by (auto simp: file_parser_def generate_expression_def Let_def)

definition lua_write :: "string \<Rightarrow> string" where
  "lua_write p = gen_text T_TYPE_TEXT True True p"

lemma lua_write_not_Nil: "lua_write p \<noteq> []"
  by (simp add: lua_write_def gen_text_def is_i18n_def Let_def)

definition in_text :: "template_parser \<Rightarrow> bool" where
  "in_text d \<longleftrightarrow> file_parser d \<and> (tp_state d = T_STATE_TEXT_INIT \<or> tp_state d = T_STATE_TEXT_NEXT)"

lemma pending_goes_on: "file_parser d \<Longrightarrow> pending d \<noteq> [] \<Longrightarrow> \<not> tp_eof d \<or> 0 < tp_bufsize d"
  by (auto simp: file_parser_def pending_def)

lemma tp_raw_outsize: "tp_ok d \<Longrightarrow> tp_outsize d \<le> T_READBUFSZ \<Longrightarrow> tp_raw d = [] \<longleftrightarrow> tp_outsize d = 0"
  by (auto simp: tp_raw_def tp_ok_def T_OUTBUFSZ_def T_READBUFSZ_def)

text \<open>One pass over text as a run: the piece handed out is written unless it is empty.\<close>

lemma run_text_pass:
  assumes "in_text d" and "pending d = t @ rest" and "no_tok CHR ''<'' CHR ''%'' t" and "text_rest rest"
    and "\<not> tp_eof d \<or> 0 < tp_bufsize d"
  shows "\<exists>p d1 d2 off2. run (d, off, ign) (if p = [] then [] else [lua_write p]) (d2, off2, False) \<and> file_parser d2 \<and>
    tp_raw d1 = p \<and> (text_piece d t rest d1 \<or> text_end d t rest d1) \<and> pending d2 = pending d1 \<and> tp_state d2 = tp_state d1 \<and>
    \<not> tp_skipws d2 \<and> (pending d = [] \<longrightarrow> tp_eof d2)"
proof -
  have fp: "file_parser d" using assms(1) by (simp add: in_text_def)
  from tp_fill_file [OF fp] obtain d0 where d0: "tp_fill d = Some d0" "filled d0" "pending d0 = pending d" "tp_state d0 = tp_state d"
    "tp_skipws d0 = tp_skipws d" "pending d = [] \<longrightarrow> tp_eof d0" by blast
  from tp_text_step [OF d0(2)] d0(3) assms(2-4) obtain d1 where d1: "tp_text d0 = (skip_len d0, d1)" "file_parser d1"
    "text_piece d0 t rest d1 \<or> text_end d0 t rest d1" "tp_type d1 = T_TYPE_TEXT" "\<not> tp_skipws d1" "tp_eof d1 = tp_eof d0" by metis
  have d1': "text_piece d t rest d1 \<or> text_end d t rest d1" using d1(3) d0(3,5) by (simp add: text_piece_def text_end_def)
  have ok0: "tp_ok d0" using d0(2) by (simp add: filled_def file_parser_def)
  have pk: "piece_ok d1" using tp_text_ok [OF ok0] d1(1) by simp
  then have raw: "tp_raw d1 = [] \<longleftrightarrow> tp_outsize d1 = 0" by (simp add: piece_ok_def tp_raw_outsize)
  have st: "tp_state d0 = T_STATE_TEXT_INIT \<or> tp_state d0 = T_STATE_TEXT_NEXT" using assms(1) d0(4) by (simp add: in_text_def)
  show ?thesis
  proof (cases "tp_raw d1 = []")
    case True
    then have "tp_iter d0 off ign = Continue d1 (skip_len d0) False"
      unfolding tp_iter_def if_P [OF st] d1(1) Let_def prod.case using raw by simp
    then have "run (d, off, ign) [] (d1, skip_len d0, False)"
      using run_continue [OF assms(5) d0(1) _ run_refl] by simp
    then show ?thesis using True d1 d1' d0(6) by (intro exI [of _ "[]"] exI [of _ d1] exI [of _ "skip_len d0"]) simp
  next
    case False
    obtain s d2 where g: "generate_expression True True d1 = (s, d2)" by (cases "generate_expression True True d1")
    have s: "s = lua_write (tp_raw d1)" using generate_frame(1) [OF g] d1(4) by (simp add: lua_write_def)
    have "tp_iter d0 off ign = Return s d2"
      unfolding tp_iter_def if_P [OF st] d1(1) Let_def prod.case using raw False g by simp
    then have "run (d, off, ign) [s] (d2, 0, False)"
      using run_return [OF assms(5) d0(1) _ _ run_refl] s lua_write_not_Nil by simp
    moreover have "file_parser d2" by (rule generated_file_parser [OF d1(2) pk g])
    ultimately show ?thesis using False s d1 d1' d0(6) generate_frame [OF g]
      by (intro exI [of _ "tp_raw d1"] exI [of _ d1] exI [of _ d2] exI [of _ 0]) simp
  qed
qed

definition spaces :: "bool \<Rightarrow> string \<Rightarrow> bool" where
  "spaces trim w \<longleftrightarrow> list_all isspace w \<and> (w \<noteq> [] \<longrightarrow> trim)"

text \<open>Text in front of a token is written in pieces, less whitespace at its ends that was to be trimmed.\<close>

lemma run_text:
  assumes "in_text d" and "pending d = t @ T_TOK_START @ c # r" and "no_tok CHR ''<'' CHR ''%'' t"
  shows "\<exists>w1 ps w2 d' off'. t = w1 @ concat ps @ w2 \<and> [] \<notin> set ps \<and> spaces (tp_skipws d) w1 \<and> spaces (c = CHR ''-'') w2 \<and>
    run (d, off, ign) (map lua_write ps) (d', off', False) \<and> file_parser d' \<and> tp_state d' = T_STATE_CODE_INIT \<and> \<not> tp_skipws d' \<and>
    pending d' = (if c = CHR ''-'' then r else c # r)"
  using assms
proof (induction "length t" arbitrary: t d off ign rule: less_induct)
  case less
  let ?rest = "T_TOK_START @ c # r"
  have fp: "file_parser d" using less.prems(1) by (simp add: in_text_def)
  have rest: "text_rest ?rest" by (auto simp: text_rest_def)
  have ne: "pending d \<noteq> []" using less.prems(2) by (simp add: T_TOK_START_def)
  from run_text_pass [OF less.prems rest pending_goes_on [OF fp ne], of off ign]
  obtain p d1 d2 off2 where d2: "run (d, off, ign) (if p = [] then [] else [lua_write p]) (d2, off2, False)" "file_parser d2"
    "tp_raw d1 = p" "text_piece d t ?rest d1 \<or> text_end d t ?rest d1" "pending d2 = pending d1" "tp_state d2 = tp_state d1" "\<not> tp_skipws d2"
    by blast
  let ?ps = "if p = [] then [] else [p]"
  have ps: "(if p = [] then [] else [lua_write p]) = map lua_write ?ps" "concat ?ps = p" by simp_all
  from d2(4) show ?case
  proof
    assume "text_end d t ?rest d1"
    then obtain w1 w2 where w: "t = w1 @ p @ w2" "spaces (tp_skipws d) w1" "spaces (c = CHR ''-'') w2"
      "pending d1 = (if c = CHR ''-'' then r else c # r)" "tp_state d1 = T_STATE_CODE_INIT"
      unfolding text_end_def d2(3) spaces_def by (auto simp: T_TOK_START_def)
    then show ?thesis using d2 ps
      by (intro exI [of _ w1] exI [of _ ?ps] exI [of _ w2] exI [of _ d2] exI [of _ off2]) (simp del: concat.simps)
  next
    assume "text_piece d t ?rest d1"
    then obtain w1 t2 where w: "t = w1 @ p @ t2" "spaces (tp_skipws d) w1" "pending d1 = t2 @ ?rest"
      "tp_state d1 = T_STATE_TEXT_NEXT" "length t2 < length t"
      unfolding text_piece_def d2(3) spaces_def using ne by blast
    have "no_tok CHR ''<'' CHR ''%'' t2" using less.prems(3) no_tok_suffix [of _ _ "w1 @ p" t2] unfolding w(1) by simp
    moreover have "in_text d2" using d2(2,6) w(4) by (simp add: in_text_def)
    ultimately obtain w1' ps' w2 d' off' where d': "t2 = w1' @ concat ps' @ w2" "spaces (tp_skipws d2) w1'" "spaces (c = CHR ''-'') w2"
      "run (d2, off2, False) (map lua_write ps') (d', off', False)" "file_parser d'" "tp_state d' = T_STATE_CODE_INIT" "\<not> tp_skipws d'"
      "pending d' = (if c = CHR ''-'' then r else c # r)" "[] \<notin> set ps'"
      using less.hyps [OF w(5), of d2 off2 False] d2(5) w(3) by auto
    from d'(2) d2(7) have "w1' = []" by (simp add: spaces_def)
    then have "t = w1 @ concat (?ps @ ps') @ w2" "[] \<notin> set (?ps @ ps')" using w(1) d'(1,9) by simp_all
    moreover have "run (d, off, ign) (map lua_write (?ps @ ps')) (d', off', False)"
      using run_append [OF d2(1) d'(4)] ps(1) by simp
    ultimately show ?thesis using w(2) d'(3,5-8) by blast
  qed
qed

text \<open>Text at the end of the file.\<close>

lemma run_end:
  assumes "in_text d" and "pending d = []"
  shows "\<exists>d' off' ign'. run (d, off, ign) [] (d', off', ign') \<and> at_end d'"
proof (cases "at_end d")
  case True
  then show ?thesis using run_refl by blast
next
  case False
  have bs: "tp_bufsize d = 0" using assms by (cases "tp_bufsize d") (auto simp: in_text_def file_parser_def pending_def tp_ok_def T_READBUFSZ_def)
  have go: "\<not> tp_eof d \<or> 0 < tp_bufsize d" using False bs by (simp add: at_end_def)
  have "no_tok CHR ''<'' CHR ''%'' []" "text_rest []" by (simp_all add: no_tok_def tok2_def text_rest_def)
  from run_text_pass [OF assms(1) _ this go, of off ign] assms(2)
  obtain p d1 d2 off2 where d2: "run (d, off, ign) (if p = [] then [] else [lua_write p]) (d2, off2, False)"
    "tp_raw d1 = p" "text_piece d [] [] d1 \<or> text_end d [] [] d1" "pending d2 = pending d1" "tp_eof d2" "file_parser d2" by auto
  then have "p = []" "pending d2 = []" by (auto simp: text_piece_def text_end_def T_TOK_START_def)
  then have "tp_bufsize d2 = 0" using d2(6)
    by (cases "tp_bufsize d2") (auto simp: file_parser_def pending_def tp_ok_def T_READBUFSZ_def)
  with d2 \<open>p = []\<close> show ?thesis by (auto simp: at_end_def)
qed

lemma run_text_end:
  assumes "in_text d" and "pending d = t" and "no_tok CHR ''<'' CHR ''%'' t"
  shows "\<exists>w1 ps d' off' ign'. t = w1 @ concat ps \<and> [] \<notin> set ps \<and> spaces (tp_skipws d) w1 \<and>
    run (d, off, ign) (map lua_write ps) (d', off', ign') \<and> at_end d'"
  using assms
proof (induction "length t" arbitrary: t d off ign rule: less_induct)
  case less
  show ?case
  proof (cases "t = []")
    case True
    with run_end [OF less.prems(1)] less.prems(2) obtain d' off' ign' where "run (d, off, ign) [] (d', off', ign')" "at_end d'" by blast
    then show ?thesis using True by (intro exI [of _ "[]"] exI [of _ d'] exI [of _ off'] exI [of _ ign']) (simp add: spaces_def)
  next
    case False
    have fp: "file_parser d" using less.prems(1) by (simp add: in_text_def)
    have ne: "pending d \<noteq> []" using False less.prems(2) by simp
    have rest: "text_rest []" by (simp add: text_rest_def)
    have t: "pending d = t @ []" using less.prems(2) by simp
    from run_text_pass [OF less.prems(1) t less.prems(3) rest pending_goes_on [OF fp ne], of off ign]
    obtain p d1 d2 off2 where d2: "run (d, off, ign) (if p = [] then [] else [lua_write p]) (d2, off2, False)" "file_parser d2"
      "tp_raw d1 = p" "text_piece d t [] d1 \<or> text_end d t [] d1" "pending d2 = pending d1" "tp_state d2 = tp_state d1" "\<not> tp_skipws d2"
      by blast
    have "\<not> text_end d t [] d1" by (simp add: text_end_def T_TOK_START_def)
    with d2(4) have "text_piece d t [] d1" by blast
    then obtain w1 t2 where w: "t = w1 @ p @ t2" "spaces (tp_skipws d) w1" "pending d1 = t2"
      "tp_state d1 = T_STATE_TEXT_NEXT" "length t2 < length t"
      unfolding text_piece_def d2(3) spaces_def append_Nil2 using ne by blast
    let ?ps = "if p = [] then [] else [p]"
    have nt: "no_tok CHR ''<'' CHR ''%'' t2" using less.prems(3) no_tok_suffix [of _ _ "w1 @ p" t2] unfolding w(1) by simp
    have "in_text d2" using d2(2,6) w(4) by (simp add: in_text_def)
    from less.hyps [OF w(5) this _ nt, of off2 False] d2(5) w(3) obtain w1' ps' d' off' ign' where
      d': "t2 = w1' @ concat ps'" "spaces (tp_skipws d2) w1'" "run (d2, off2, False) (map lua_write ps') (d', off', ign')" "at_end d'"
        "[] \<notin> set ps'" by auto
    from d'(2) d2(7) have "w1' = []" by (simp add: spaces_def)
    then have "t = w1 @ concat (?ps @ ps')" "[] \<notin> set (?ps @ ps')" using w(1) d'(1,5) by simp_all
    moreover have "run (d, off, ign) (map lua_write (?ps @ ps')) (d', off', ign')"
      using run_append [OF d2(1) d'(3)] by (cases "p = []") simp_all
    ultimately show ?thesis using w(2) d'(4) by blast
  qed
qed

section \<open>Code\<close>

text \<open>The end of a code block: an optional trimming mark and the closing token.\<close>

definition trim_mark :: "bool \<Rightarrow> string" where
  "trim_mark b = (if b then ''-'' else [])"

lemma tok2_code:
  assumes "length mk = off" and "no_tok CHR ''%'' CHR ''>'' c" and "off \<le> j"
    and "j < off + length (c @ trim_mark b)" and "R = mk @ c @ trim_mark b @ T_TOK_END @ rest"
  shows "\<not> tok2 CHR ''%'' CHR ''>'' R j"
proof
  assume t: "tok2 CHR ''%'' CHR ''>'' R j"
  define i where "i = j - off"
  have "tok2 CHR ''%'' CHR ''>'' (drop off R) i" using t assms(3) by (subst tok2_drop) (simp_all add: i_def tok2_def)
  then have t: "tok2 CHR ''%'' CHR ''>'' (c @ trim_mark b @ T_TOK_END @ rest) i" using assms(1,5) by simp
  have "i < length (c @ trim_mark b)" using assms(3,4) by (simp add: i_def)
  then have "i < length c + (if b then 1 else 0)" by (simp add: trim_mark_def split: if_splits)
  then consider "Suc i < length c" | "Suc i = length c" | "i = length c" "b" by (cases b) (simp_all, linarith+)
  then show False
  proof cases
    case 1
    then have "tok2 CHR ''%'' CHR ''>'' c i" using t by (simp add: tok2_def nth_append)
    with assms(2) show False by (simp add: no_tok_def)
  next
    case 2
    then have "(c @ trim_mark b @ T_TOK_END @ rest) ! Suc i = (if b then CHR ''-'' else CHR ''%'')"
      by (simp add: nth_append trim_mark_def T_TOK_END_def)
    with t show False by (simp add: tok2_def split: if_splits)
  next
    case 3
    with t show False by (simp add: tok2_def nth_append trim_mark_def)
  qed
qed

lemma tok2_code_end: "length mk = off \<Longrightarrow> tok2 CHR ''%'' CHR ''>'' (mk @ c @ trim_mark b @ T_TOK_END @ rest) (off + length (c @ trim_mark b))"
  by (simp add: tok2_def nth_append T_TOK_END_def)

lemma nth_last_append: "xs \<noteq> [] \<Longrightarrow> (xs @ ys) ! (length xs - 1) = last xs"
  by (simp add: nth_append last_conv_nth)

text \<open>The closing token is found if it lies in the buffer, and then the code is handed out without the trimming mark.\<close>

lemma tp_code_found:
  assumes "filled d" and "pending d = mk @ c @ trim_mark b @ T_TOK_END @ rest" and "length mk = off"
    and "no_tok CHR ''%'' CHR ''>'' c" and "mk @ c \<noteq> [] \<longrightarrow> last (mk @ c) \<noteq> CHR ''-''"
    and "off + length (c @ trim_mark b) + 2 \<le> tp_bufsize d"
  shows "\<exists>d1. tp_code off d = (tp_state d = T_STATE_CODE_INIT, True, d1) \<and> file_parser d1 \<and> tp_raw d1 = c \<and> pending d1 = rest \<and>
    tp_state d1 = T_STATE_TEXT_INIT \<and> tp_type d1 = tp_type d \<and> tp_skipws d1 = (b \<or> tp_skipws d)"
proof -
  let ?P = "length (c @ trim_mark b)" and ?n = "tp_bufsize d"
  have fp: "file_parser d" and ok: "tp_ok d" and bs: "?n \<le> T_READBUFSZ" using assms(1) by (simp_all add: filled_def file_parser_def tp_ok_def)
  have off: "off \<le> ?n" using assms(6) by simp
  note sp = strfind_pending [OF ok order_refl off, of "CHR ''%''" "CHR ''>''", folded T_TOK_END_def]
  have tok: "tok2 CHR ''%'' CHR ''>'' (pending d) (off + ?P)" unfolding assms(2) by (rule tok2_code_end [OF assms(3)])
  have before: "\<not> tok2 CHR ''%'' CHR ''>'' (pending d) j" if "off \<le> j" "j < off + ?P" for j
    using tok2_code [OF assms(3,4) that assms(2)] .
  obtain m where m: "strfind (drop off (tp_buf d)) (int ?n - int off) T_TOK_END = Some m"
    using sp tok assms(6) by (cases "strfind (drop off (tp_buf d)) (int ?n - int off) T_TOK_END") auto
  with sp have "tok2 CHR ''%'' CHR ''>'' (pending d) (off + m)" "\<not> off + ?P < off + m"
    using tok by auto
  with before [of "off + m"] have mP: "m = ?P" by (cases "m < ?P") auto
  have prev: "0 < off + m \<and> tp_buf d ! (off + m - 1) = CHR ''-'' \<longleftrightarrow> b"
  proof (cases "off + m = 0")
    case False
    have "tp_buf d ! (off + m - 1) = pending d ! (off + m - 1)"
      using pending_nth [OF ok, of "off + m - 1"] assms(6) mP False by simp
    also have "pending d = (mk @ c @ trim_mark b) @ T_TOK_END @ rest" by (simp add: assms(2))
    also have "\<dots> ! (off + m - 1) = last (mk @ c @ trim_mark b)"
    proof -
      have len: "off + m = length (mk @ c @ trim_mark b)" using mP assms(3) by simp
      then have "mk @ c @ trim_mark b \<noteq> []" using False by auto
      then show ?thesis unfolding len by (rule nth_last_append)
    qed
    finally show ?thesis using assms(5) False mP assms(3) by (auto simp: trim_mark_def)
  qed (use mP in \<open>simp add: trim_mark_def split: if_splits\<close>)
  have raw: "take (length c) (drop off (pending d)) = c" "drop (off + m + 2) (pending d) = rest"
    using assms(3) mP by (simp_all add: assms(2) T_TOK_END_def)
  show ?thesis
  proof (cases b)
    case True
    let ?d1 = "tp_emit off (int m - 1) T_STATE_TEXT_INIT (?n - (off + m + 2)) (off + m + 2) (d\<lparr>tp_skipws := True\<rparr>)"
    have n: "int m - 1 = int (length c)" using mP True by (simp add: trim_mark_def)
    have fp': "file_parser (d\<lparr>tp_skipws := True\<rparr>)" "pending (d\<lparr>tp_skipws := True\<rparr>) = pending d"
      using fp by (simp_all add: file_parser_def tp_ok_def unread_def pending_def)
    have "file_parser ?d1 \<and> tp_raw ?d1 = c \<and> pending ?d1 = rest"
      unfolding n using tp_emit_pending [OF fp'(1), of "int (length c)" off "?n - (off + m + 2)" "off + m + 2" T_STATE_TEXT_INIT]
        assms(6) mP bs raw fp'(2) by (simp add: T_READBUFSZ_def)
    moreover have "tp_code off d = (tp_state d = T_STATE_CODE_INIT, True, ?d1)"
      unfolding tp_code_Some [OF m] prev using True by simp
    ultimately show ?thesis using True by (intro exI [of _ ?d1]) (simp add: tp_emit_frame)
  next
    case False
    let ?d1 = "tp_emit off (int m) T_STATE_TEXT_INIT (?n - (off + m + 2)) (off + m + 2) d"
    have n: "m = length c" using mP False by (simp add: trim_mark_def)
    have "file_parser ?d1 \<and> tp_raw ?d1 = c \<and> pending ?d1 = rest"
      using tp_emit_pending [OF fp, of "int m" off "?n - (off + m + 2)" "off + m + 2" T_STATE_TEXT_INIT]
        assms(6) mP bs raw n by (simp add: T_READBUFSZ_def)
    moreover have "tp_code off d = (tp_state d = T_STATE_CODE_INIT, True, ?d1)"
      unfolding tp_code_Some [OF m] prev using False by simp
    ultimately show ?thesis using False by (intro exI [of _ ?d1]) (simp add: tp_emit_frame)
  qed
qed

lemma etokscan_ge:
  assumes "1 \<le> tp_bufsize d" and "tp_buf d ! (tp_bufsize d - 1) = CHR ''%'' \<or> tp_buf d ! (tp_bufsize d - 1) = CHR ''-''"
  shows "1 \<le> etokscan d"
  using assms by (auto simp: etokscan_def Let_def)

lemma etokscan_2:
  assumes "2 \<le> tp_bufsize d" and "tp_buf d ! (tp_bufsize d - 1) = CHR ''%''" and "tp_buf d ! (tp_bufsize d - 2) = CHR ''-''"
  shows "etokscan d = 2"
  using assms by (simp add: etokscan_def Let_def numeral_2_eq_2)

text \<open>Otherwise a part of the code is handed out that holds no byte of the mark and the token.\<close>

lemma tp_code_part:
  assumes "filled d" and "pending d = mk @ c @ trim_mark b @ T_TOK_END @ rest" and "length mk = off" and "off \<le> 1"
    and "no_tok CHR ''%'' CHR ''>'' c" and "tp_bufsize d < off + length (c @ trim_mark b) + 2"
  shows "\<exists>d1 c1 c2. tp_code off d = (tp_state d = T_STATE_CODE_INIT, False, d1) \<and> file_parser d1 \<and> c = c1 @ c2 \<and> c1 \<noteq> [] \<and>
    tp_raw d1 = c1 \<and> pending d1 = c2 @ trim_mark b @ T_TOK_END @ rest \<and>
    tp_state d1 = T_STATE_CODE_NEXT \<and> tp_type d1 = tp_type d \<and> tp_skipws d1 = tp_skipws d"
proof -
  let ?P = "off + length (c @ trim_mark b)" and ?n = "tp_bufsize d" and ?v = "etokscan d"
  have fp: "file_parser d" and ok: "tp_ok d" using assms(1) by (simp_all add: filled_def file_parser_def)
  have len: "length (pending d) = ?P + 2 + length rest" by (simp add: assms(2,3) T_TOK_END_def)
  then have n: "?n = T_READBUFSZ" using filled_length [OF assms(1)] assms(6) by auto
  then have off: "off \<le> ?n" using assms(4) by (simp add: T_READBUFSZ_def)
  note sp = strfind_pending [OF ok order_refl off, of "CHR ''%''" "CHR ''>''", folded T_TOK_END_def]
  have before: "\<not> tok2 CHR ''%'' CHR ''>'' (pending d) j" if "off \<le> j" "j < ?P" for j
    using tok2_code [OF assms(3,5) that assms(2)] .
  have none: "strfind (drop off (tp_buf d)) (int ?n - int off) T_TOK_END = None"
  proof (cases "strfind (drop off (tp_buf d)) (int ?n - int off) T_TOK_END")
    case (Some m)
    with sp have "tok2 CHR ''%'' CHR ''>'' (pending d) (off + m)" "off + m + 2 \<le> ?n" by simp_all
    with before [of "off + m"] assms(6) show ?thesis by simp
  qed
  have buf: "tp_buf d ! (off + length c + i) = (trim_mark b @ T_TOK_END @ rest) ! i" if "off + length c + i < ?n" for i
    using pending_nth [OF ok that] assms(3) by (simp add: assms(2) nth_append)
  have v: "?v \<le> 2" using etokscan_le [of d] by simp
  have le: "?n - ?v \<le> off + length c"
  proof -
    have tm: "?P = off + length c + (if b then 1 else 0)" by (simp add: trim_mark_def)
    consider "?n \<le> off + length c" | "?n = off + length c + 1" | "?n = off + length c + 2" "b"
      using assms(6) tm by (cases b) (simp_all, linarith+)
    then show ?thesis
    proof cases
      case 2
      then have "tp_buf d ! (?n - 1) = (if b then CHR ''-'' else CHR ''%'')"
        using buf [of 0] by (simp add: trim_mark_def T_TOK_END_def)
      then have "1 \<le> ?v" using etokscan_ge [of d] n by (simp add: T_READBUFSZ_def split: if_splits)
      with 2 show ?thesis by simp
    next
      case 3
      have "tp_buf d ! (?n - 1) = CHR ''%''" "tp_buf d ! (?n - 2) = CHR ''-''"
        using 3 buf [of 1] buf [of 0] by (simp_all add: trim_mark_def T_TOK_END_def)
      then have "?v = 2" using etokscan_2 [of d] n by (simp add: T_READBUFSZ_def)
      with 3 show ?thesis by simp
    qed simp
  qed
  let ?k = "?n - ?v - off" and ?d1 = "tp_emit off (int (?n - ?v) - int off) T_STATE_CODE_NEXT ?v (?n - ?v) d"
  have k: "int (?n - ?v) - int off = int ?k" "0 < ?k" "?k \<le> length c" "?n - ?v = off + ?k"
    using v n assms(4) le by (simp_all add: T_READBUFSZ_def)
  have e: "file_parser ?d1" "tp_raw ?d1 = take ?k (drop off (pending d))" "pending ?d1 = drop (off + ?k) (pending d)"
    unfolding k(1) using tp_emit_pending [OF fp, of "int ?k" off ?v "?n - ?v" T_STATE_CODE_NEXT] v n k(2,4) by (simp_all add: T_READBUFSZ_def)
  have "tp_raw ?d1 = take ?k c" "pending ?d1 = drop ?k c @ trim_mark b @ T_TOK_END @ rest"
    using e(2,3) k(3) assms(3) by (simp_all add: assms(2))
  moreover have "c = take ?k c @ drop ?k c" "take ?k c \<noteq> []" using k(2,3) by auto
  ultimately show ?thesis using tp_code_None [OF none] e(1) tp_emit_frame
    by (intro exI [of _ ?d1] exI [of _ "take ?k c"] exI [of _ "drop ?k c"]) simp
qed

section \<open>Templates\<close>

text \<open>A template is a sequence of texts and tags; a tag has marks for trimming the text before and behind it.\<close>

datatype seg = Text string | Tag bool tp_type string bool

fun marker :: "tp_type \<Rightarrow> string" where
  "marker T_TYPE_COMMENT = ''#''"
| "marker T_TYPE_EXPR = ''=''"
| "marker T_TYPE_INCLUDE = ''+''"
| "marker T_TYPE_I18N = '':''"
| "marker T_TYPE_I18N_RAW = ''_''"
| "marker _ = []"

definition tag_body :: "tp_type \<Rightarrow> string \<Rightarrow> bool \<Rightarrow> string" where
  "tag_body ty c b = marker ty @ c @ trim_mark b @ T_TOK_END"

fun seg_text :: "seg \<Rightarrow> string" where
  "seg_text (Text t) = t"
| "seg_text (Tag a ty c b) = T_TOK_START @ trim_mark a @ tag_body ty c b"

definition template_text :: "seg list \<Rightarrow> string" where
  "template_text segs = concat (map seg_text segs)"

definition long_type :: "tp_type \<Rightarrow> bool" where
  "long_type ty \<longleftrightarrow> ty = T_TYPE_CODE \<or> ty = T_TYPE_EXPR"

definition tag_ok :: "tp_type \<Rightarrow> string \<Rightarrow> bool \<Rightarrow> bool" where
  "tag_ok ty c b \<longleftrightarrow> ty \<noteq> T_TYPE_TEXT \<and> no_tok CHR ''%'' CHR ''>'' c \<and> (c \<noteq> [] \<longrightarrow> last c \<noteq> CHR ''-'') \<and>
     (ty = T_TYPE_CODE \<longrightarrow> hd (c @ trim_mark b @ ''%'') \<notin> set ''-#=+:_'') \<and> (long_type ty \<or> length c \<le> 1000)"

definition tag_source :: "tp_type \<Rightarrow> string \<Rightarrow> string" where
  "tag_source ty c = (if ty = T_TYPE_COMMENT then [] else gen_text ty True True c)"

lemma tp_code_type_marker:
  assumes "filled d" and "pending d = tag_body ty c b @ rest" and "tag_ok ty c b"
  shows "tp_code_type d = (length (marker ty), ty = T_TYPE_COMMENT, d\<lparr>tp_type := ty\<rparr>)"
proof -
  have ok: "tp_ok d" using assms(1) by (simp add: filled_def file_parser_def)
  have "pending d \<noteq> []" by (simp add: assms(2) tag_body_def T_TOK_END_def)
  from filled_pos [OF assms(1) this] have "tp_buf d ! 0 = pending d ! 0" using pending_nth [OF ok, of 0] by simp
  also have "pending d ! 0 = hd (marker ty @ c @ trim_mark b @ ''%'')"
    by (simp add: assms(2) tag_body_def T_TOK_END_def nth_append hd_append hd_conv_nth)
  finally have b0: "tp_buf d ! 0 = hd (marker ty @ c @ trim_mark b @ ''%'')" .
  show ?thesis using assms(3) b0 by (cases ty) (auto simp: tp_code_type_def Let_def tag_ok_def)
qed

lemma gen_body_id: "long_type ty \<Longrightarrow> gen_body ty st ws raw = raw"
  by (induction raw arbitrary: st ws) (simp_all add: long_type_def is_i18n_def, auto)

definition code_prefix :: "tp_type \<Rightarrow> string" where
  "code_prefix ty = (case fst (gen_code ty) of None \<Rightarrow> [] | Some s \<Rightarrow> s)"

definition code_suffix :: "tp_type \<Rightarrow> string" where
  "code_suffix ty = (case snd (gen_code ty) of None \<Rightarrow> [] | Some s \<Rightarrow> s)"

lemma gen_text_long:
  assumes "long_type ty"
  shows "gen_text ty gs ge raw = (if gs then code_prefix ty else []) @ raw @ (if ge then code_suffix ty else [])"
  using gen_body_id [OF assms] assms
  by (auto simp: gen_text_def code_prefix_def code_suffix_def long_type_def is_i18n_def Let_def)

lemma gen_text_not_Nil: "ty \<noteq> T_TYPE_COMMENT \<Longrightarrow> gen_text ty True True raw \<noteq> []"
  by (cases ty) (simp_all add: gen_text_def is_i18n_def Let_def)

lemma tp_iter_code:
  assumes "tp_state d \<noteq> T_STATE_TEXT_INIT" "tp_state d \<noteq> T_STATE_TEXT_NEXT"
    and "(if tp_state d = T_STATE_CODE_NEXT then (off, ign, d)
      else (case tp_code_type d of (o1, comment, d1) \<Rightarrow> (o1, ign \<or> tp_state d = T_STATE_SKIP \<or> comment, d1))) = (off1, ign1, d1)"
    and "tp_code off1 d1 = (gs, ge, d2)"
  shows "tp_iter d off ign = (if ign1 \<or> (tp_outsize d2 = 0 \<and> \<not> gs \<and> \<not> ge) then Continue d2 off1 ign1
    else (case generate_expression gs ge d2 of (s, d3) \<Rightarrow> Return s d3))"
  using assms by (simp only: tp_iter_def) (simp add: Let_def)

text \<open>A pass over code that returns a chunk.\<close>

lemma run_code_return:
  assumes "file_parser d" and "pending d \<noteq> []" and "tp_fill d = Some d0" and "tp_ok d1" and "tp_code off1 d1 = (gs, ge, d2)"
    and "file_parser d2" and "tp_outsize d2 \<noteq> 0 \<or> gs \<or> ge" and "gen_text (tp_type d2) gs ge (tp_raw d2) \<noteq> []"
    and "tp_iter d0 off ign = (if False \<or> (tp_outsize d2 = 0 \<and> \<not> gs \<and> \<not> ge) then Continue d2 off1 False
      else (case generate_expression gs ge d2 of (s, d3) \<Rightarrow> Return s d3))"
  shows "\<exists>d3. run (d, off, ign) [gen_text (tp_type d2) gs ge (tp_raw d2)] (d3, 0, False) \<and> file_parser d3 \<and>
    pending d3 = pending d2 \<and> tp_state d3 = tp_state d2 \<and> tp_skipws d3 = tp_skipws d2 \<and> tp_type d3 = tp_type d2"
proof -
  obtain s d3 where g: "generate_expression gs ge d2 = (s, d3)" by (cases "generate_expression gs ge d2")
  have it: "tp_iter d0 off ign = Return s d3" using assms(7,9) g by auto
  have s: "s = gen_text (tp_type d2) gs ge (tp_raw d2)" by (rule generate_frame(1) [OF g])
  have "piece_ok d2" using tp_code_ok [OF assms(4), of off1] assms(5) by simp
  then have "file_parser d3" by (rule generated_file_parser [OF assms(6) _ g])
  moreover have "run (d, off, ign) [s] (d3, 0, False)"
    using run_return [OF pending_goes_on [OF assms(1,2)] assms(3) it _ run_refl] assms(8) s by simp
  ultimately show ?thesis using s generate_frame [OF g] by blast
qed

text \<open>The rest of a long code block.\<close>

lemma run_code_next:
  assumes "file_parser d" and "tp_state d = T_STATE_CODE_NEXT" and "long_type (tp_type d)" and "\<not> tp_skipws d"
    and "pending d = c @ trim_mark b @ T_TOK_END @ rest" and "no_tok CHR ''%'' CHR ''>'' c" and "c \<noteq> [] \<longrightarrow> last c \<noteq> CHR ''-''"
  shows "\<exists>cs d'. run (d, 0, False) cs (d', 0, False) \<and> concat cs = c @ code_suffix (tp_type d) \<and> in_text d' \<and>
    pending d' = rest \<and> tp_skipws d' = b"
  using assms
proof (induction "length c" arbitrary: c d rule: less_induct)
  case less
  have ne: "pending d \<noteq> []" by (simp add: less.prems(5) T_TOK_END_def)
  from tp_fill_file [OF less.prems(1)] obtain d0 where d0: "tp_fill d = Some d0" "filled d0" "pending d0 = pending d"
    "tp_state d0 = tp_state d" "tp_skipws d0 = tp_skipws d" by blast
  have ty: "tp_type d0 = tp_type d" using d0(1) by (auto simp: tp_fill_def Let_def split: if_splits list.splits rd.splits)
  have ok0: "tp_ok d0" using d0(2) by (simp add: filled_def file_parser_def)
  have p0: "pending d0 = [] @ c @ trim_mark b @ T_TOK_END @ rest" using d0(3) less.prems(5) by simp
  have it: "tp_iter d0 0 False = (if False \<or> (tp_outsize d2 = 0 \<and> \<not> gs \<and> \<not> ge) then Continue d2 0 False
      else (case generate_expression gs ge d2 of (s, d3) \<Rightarrow> Return s d3))" if "tp_code 0 d0 = (gs, ge, d2)" for gs ge d2
    by (rule tp_iter_code [OF _ _ _ that]) (simp_all add: d0(4) less.prems(2))
  show ?case
  proof (cases "length (c @ trim_mark b) + 2 \<le> tp_bufsize d0")
    case True
    from tp_code_found [OF d0(2) p0 _ less.prems(6)] True less.prems(7) obtain d2 where
      d2: "tp_code 0 d0 = (tp_state d0 = T_STATE_CODE_INIT, True, d2)" "file_parser d2" "tp_raw d2 = c" "pending d2 = rest"
        "tp_state d2 = T_STATE_TEXT_INIT" "tp_type d2 = tp_type d0" "tp_skipws d2 = (b \<or> tp_skipws d0)" by auto
    have code: "tp_code 0 d0 = (False, True, d2)" using d2(1) d0(4) less.prems(2) by simp
    have gt: "gen_text (tp_type d2) False True (tp_raw d2) = c @ code_suffix (tp_type d)"
      using gen_text_long [OF less.prems(3)] d2(3,6) ty by simp
    have "gen_text (tp_type d2) False True (tp_raw d2) \<noteq> []"
      using gt less.prems(3) by (auto simp: code_suffix_def long_type_def)
    from run_code_return [OF less.prems(1) ne d0(1) ok0 code d2(2) _ this it [OF code]] obtain d3 where
      "run (d, 0, False) [c @ code_suffix (tp_type d)] (d3, 0, False)" "file_parser d3" "pending d3 = rest"
      "tp_state d3 = T_STATE_TEXT_INIT" "tp_skipws d3 = b" using gt d2 d0(5) less.prems(4) by auto
    then show ?thesis by (intro exI [of _ "[c @ code_suffix (tp_type d)]"] exI [of _ d3]) (simp add: in_text_def)
  next
    case False
    then have part: "tp_bufsize d0 < 0 + length (c @ trim_mark b) + 2" by simp
    from tp_code_part [OF d0(2) p0 _ _ less.prems(6) part] obtain d2 c1 c2 where
      d2: "tp_code 0 d0 = (tp_state d0 = T_STATE_CODE_INIT, False, d2)" "file_parser d2" "c = c1 @ c2" "c1 \<noteq> []" "tp_raw d2 = c1"
        "pending d2 = c2 @ trim_mark b @ T_TOK_END @ rest" "tp_state d2 = T_STATE_CODE_NEXT" "tp_type d2 = tp_type d0" "tp_skipws d2 = tp_skipws d0"
      by auto
    have code: "tp_code 0 d0 = (False, False, d2)" using d2(1) d0(4) less.prems(2) by simp
    have gt: "gen_text (tp_type d2) False False (tp_raw d2) = c1" using gen_text_long [OF less.prems(3)] d2(5,8) ty by simp
    have out: "tp_outsize d2 \<noteq> 0" using d2(4,5) by (auto simp: tp_raw_def)
    from run_code_return [OF less.prems(1) ne d0(1) ok0 code d2(2) _ _ it [OF code]] gt d2(4) out obtain d3 where
      d3: "run (d, 0, False) [c1] (d3, 0, False)" "file_parser d3" "pending d3 = pending d2" "tp_state d3 = T_STATE_CODE_NEXT"
      "\<not> tp_skipws d3" "tp_type d3 = tp_type d" using d2 d0(5) ty less.prems(4) by auto
    have nt: "no_tok CHR ''%'' CHR ''>'' c2" using less.prems(6) no_tok_suffix [of _ _ c1 c2] by (simp add: d2(3))
    have "length c2 < length c" "c2 \<noteq> [] \<longrightarrow> last c2 \<noteq> CHR ''-''" using d2(3,4) less.prems(7) by auto
    from less.hyps [OF this(1) d3(2,4) _ d3(5) _ nt this(2)] d3(3,6) d2(6) less.prems(3) obtain cs d' where
      "run (d3, 0, False) cs (d', 0, False)" "concat cs = c2 @ code_suffix (tp_type d)" "in_text d'" "pending d' = rest" "tp_skipws d' = b"
      by auto
    moreover from run_append [OF d3(1) this(1)] have "run (d, 0, False) (c1 # cs) (d', 0, False)" by simp
    ultimately show ?thesis using d2(3) by (intro exI [of _ "c1 # cs"] exI [of _ d']) simp
  qed
qed

text \<open>A tag is turned into its source, in one chunk or several; a comment into nothing.\<close>

lemma run_tag:
  assumes "file_parser d" and "tp_state d = T_STATE_CODE_INIT" and "\<not> tp_skipws d" and "tag_ok ty c b"
    and "pending d = tag_body ty c b @ rest"
  shows "\<exists>cs d' off' ign'. run (d, off, False) cs (d', off', ign') \<and> concat cs = tag_source ty c \<and> in_text d' \<and>
    pending d' = rest \<and> tp_skipws d' = b"
proof -
  let ?mk = "marker ty" and ?off = "length (marker ty)"
  have ne: "pending d \<noteq> []" by (simp add: assms(5) tag_body_def T_TOK_END_def)
  from tp_fill_file [OF assms(1)] obtain d0 where d0: "tp_fill d = Some d0" "filled d0" "pending d0 = pending d"
    "tp_state d0 = tp_state d" "tp_skipws d0 = tp_skipws d" by blast
  have p0: "pending d0 = tag_body ty c b @ rest" using d0(3) assms(5) by simp
  note cty = tp_code_type_marker [OF d0(2) p0 assms(4)]
  define d1 where "d1 = d0\<lparr>tp_type := ty\<rparr>"
  have d1: "filled d1" "tp_ok d1" "pending d1 = ?mk @ c @ trim_mark b @ T_TOK_END @ rest" "tp_state d1 = T_STATE_CODE_INIT"
    "tp_type d1 = ty" "\<not> tp_skipws d1" "tp_bufsize d1 = tp_bufsize d0"
    using d0 p0 assms(2,3) by (simp_all add: d1_def filled_def file_parser_def tp_ok_def pending_def unread_def tag_body_def)
  have tag: "no_tok CHR ''%'' CHR ''>'' c" "c \<noteq> [] \<longrightarrow> last c \<noteq> CHR ''-''" "long_type ty \<or> length c \<le> 1000"
    using assms(4) by (simp_all add: tag_ok_def)
  have mk: "?off \<le> 1" "?mk \<noteq> [] \<longrightarrow> last ?mk \<noteq> CHR ''-''" by (cases ty; simp)+
  have it: "tp_iter d0 off False = (if ty = T_TYPE_COMMENT \<or> (tp_outsize d2 = 0 \<and> \<not> gs \<and> \<not> ge) then Continue d2 ?off (ty = T_TYPE_COMMENT)
      else (case generate_expression gs ge d2 of (s, d3) \<Rightarrow> Return s d3))" if "tp_code ?off d1 = (gs, ge, d2)" for gs ge d2
    by (rule tp_iter_code [OF _ _ _ that]) (simp_all add: d0(4) assms(2) cty d1_def)
  show ?thesis
  proof (cases "?off + length (c @ trim_mark b) + 2 \<le> tp_bufsize d1")
    case True
    have "?mk @ c \<noteq> [] \<longrightarrow> last (?mk @ c) \<noteq> CHR ''-''" using mk(2) tag(2) by (simp add: last_append)
    from tp_code_found [OF d1(1,3) refl tag(1) this True] obtain d2 where
      d2: "tp_code ?off d1 = (True, True, d2)" "file_parser d2" "tp_raw d2 = c" "pending d2 = rest"
        "tp_state d2 = T_STATE_TEXT_INIT" "tp_type d2 = ty" "tp_skipws d2 = b" using d1(4-6) by auto
    show ?thesis
    proof (cases "ty = T_TYPE_COMMENT")
      case com: True
      then have "tp_iter d0 off False = Continue d2 ?off True" using it [OF d2(1)] by simp
      then have "run (d, off, False) [] (d2, ?off, True)"
        using run_continue [OF pending_goes_on [OF assms(1) ne] d0(1) _ run_refl] by simp
      then show ?thesis using d2 com
        by (intro exI [of _ "[]"] exI [of _ d2] exI [of _ ?off] exI [of _ True]) (simp add: tag_source_def in_text_def)
    next
      case False
      have gt: "gen_text (tp_type d2) True True (tp_raw d2) = tag_source ty c" using False d2(3,6) by (simp add: tag_source_def)
      have "gen_text (tp_type d2) True True (tp_raw d2) \<noteq> []" using gen_text_not_Nil False d2(6) by simp
      from run_code_return [OF assms(1) ne d0(1) d1(2) d2(1,2) _ this, of off False] it [OF d2(1)] False obtain d3 where
        "run (d, off, False) [tag_source ty c] (d3, 0, False)" "file_parser d3" "pending d3 = rest"
        "tp_state d3 = T_STATE_TEXT_INIT" "tp_skipws d3 = b" using gt d2 by auto
      then show ?thesis by (intro exI [of _ "[tag_source ty c]"] exI [of _ d3] exI [of _ 0] exI [of _ False]) (simp add: in_text_def)
    qed
  next
    case False
    then have part: "tp_bufsize d1 < ?off + length (c @ trim_mark b) + 2" by simp
    have "?off + length (c @ trim_mark b) + 2 \<le> length (pending d1)" by (simp add: d1(3) T_TOK_END_def)
    then have "tp_bufsize d1 = T_READBUFSZ" using filled_length [OF d1(1)] False by auto
    then have long: "long_type ty" using tag(3) False mk(1) by (auto simp: T_READBUFSZ_def trim_mark_def split: if_splits)
    then have nc: "ty \<noteq> T_TYPE_COMMENT" by (auto simp: long_type_def)
    from tp_code_part [OF d1(1,3) refl mk(1) tag(1) part] obtain d2 c1 c2 where
      d2: "tp_code ?off d1 = (True, False, d2)" "file_parser d2" "c = c1 @ c2" "c1 \<noteq> []" "tp_raw d2 = c1"
        "pending d2 = c2 @ trim_mark b @ T_TOK_END @ rest" "tp_state d2 = T_STATE_CODE_NEXT" "tp_type d2 = ty" "\<not> tp_skipws d2"
      using d1(4-6) by auto
    have gt: "gen_text (tp_type d2) True False (tp_raw d2) = code_prefix ty @ c1" using gen_text_long [OF long] d2(5,8) by simp
    from run_code_return [OF assms(1) ne d0(1) d1(2) d2(1,2), of off False] it [OF d2(1)] nc gt d2(4) obtain d3 where
      d3: "run (d, off, False) [code_prefix ty @ c1] (d3, 0, False)" "file_parser d3" "pending d3 = pending d2"
      "tp_state d3 = T_STATE_CODE_NEXT" "\<not> tp_skipws d3" "tp_type d3 = ty" using d2 by auto
    have nt: "no_tok CHR ''%'' CHR ''>'' c2" using tag(1) no_tok_suffix [of _ _ c1 c2] by (simp add: d2(3))
    have "c2 \<noteq> [] \<longrightarrow> last c2 \<noteq> CHR ''-''" using d2(3) tag(2) by auto
    moreover have "pending d3 = c2 @ trim_mark b @ T_TOK_END @ rest" "long_type (tp_type d3)" using d3(3,6) d2(6) long by simp_all
    ultimately obtain cs d' where
      cs: "run (d3, 0, False) cs (d', 0, False)" "concat cs = c2 @ code_suffix ty" "in_text d'" "pending d' = rest" "tp_skipws d' = b"
      using run_code_next [OF d3(2,4) _ d3(5) _ nt] d3(6) by metis
    have "concat ((code_prefix ty @ c1) # cs) = tag_source ty c"
      using cs(2) d2(3) nc gen_text_long [OF long] by (simp add: tag_source_def)
    moreover from run_append [OF d3(1) cs(1)] have "run (d, off, False) ((code_prefix ty @ c1) # cs) (d', 0, False)" by simp
    ultimately show ?thesis using cs(3-5) by blast
  qed
qed

lemma run_text_tag:
  assumes "in_text d" and "pending d = t @ seg_text (Tag a ty c b) @ rest" and "no_tok CHR ''<'' CHR ''%'' t" and "tag_ok ty c b"
  shows "\<exists>w1 ps w2 cs d' off' ign'. t = w1 @ concat ps @ w2 \<and> [] \<notin> set ps \<and> spaces (tp_skipws d) w1 \<and> spaces a w2 \<and>
    run (d, off, ign) (map lua_write ps @ cs) (d', off', ign') \<and> concat cs = tag_source ty c \<and> in_text d' \<and>
    pending d' = rest \<and> tp_skipws d' = b"
proof -
  define body where "body = tag_body ty c b @ rest"
  have "hd (tag_body ty c b) \<noteq> CHR ''-''" using assms(4)
    by (cases ty) (auto simp: tag_body_def tag_ok_def T_TOK_END_def hd_append)
  moreover have "tag_body ty c b \<noteq> []" by (simp add: tag_body_def T_TOK_END_def)
  ultimately have body: "body \<noteq> []" "hd body \<noteq> CHR ''-''" by (simp_all add: body_def)
  obtain x r where xr: "trim_mark a @ body = x # r" "x = CHR ''-'' \<longleftrightarrow> a" "(if x = CHR ''-'' then r else x # r) = body"
    using body by (cases a; cases body) (auto simp: trim_mark_def)
  have "pending d = t @ T_TOK_START @ x # r" using assms(2) xr(1) by (simp add: body_def)
  from run_text [OF assms(1) this assms(3), of off ign] xr(2,3) obtain w1 ps w2 d1 off1 where
    d1: "t = w1 @ concat ps @ w2" "[] \<notin> set ps" "spaces (tp_skipws d) w1" "spaces a w2"
      "run (d, off, ign) (map lua_write ps) (d1, off1, False)" "file_parser d1" "tp_state d1 = T_STATE_CODE_INIT" "\<not> tp_skipws d1"
      "pending d1 = body" by auto
  from run_tag [OF d1(6-8) assms(4), of rest off1] d1(9) body_def obtain cs d' off' ign' where
    "run (d1, off1, False) cs (d', off', ign')" "concat cs = tag_source ty c" "in_text d'" "pending d' = rest" "tp_skipws d' = b" by auto
  with run_append [OF d1(5) this(1)] d1(1-4) show ?thesis by blast
qed

fun template_ok :: "seg list \<Rightarrow> bool" where
  "template_ok [] = True"
| "template_ok (Text t # ss) = (no_tok CHR ''<'' CHR ''%'' t \<and> (case ss of Text t' # r \<Rightarrow> False | _ \<Rightarrow> True) \<and> template_ok ss)"
| "template_ok (Tag a ty c b # ss) = (tag_ok ty c b \<and> template_ok ss)"

definition next_trims :: "seg list \<Rightarrow> bool" where
  "next_trims ss = (case ss of Tag a ty c b # r \<Rightarrow> a | _ \<Rightarrow> False)"

text \<open>
  The Lua programs a template stands for: every tag is its source, every text is written in one or more
  pieces, less whitespace next to a tag with a trimming mark.
\<close>

inductive renders :: "bool \<Rightarrow> seg list \<Rightarrow> string \<Rightarrow> bool" where
  renders_Nil: "renders trim [] []"
| renders_Text: "t = w1 @ concat ps @ w2 \<Longrightarrow> [] \<notin> set ps \<Longrightarrow> spaces trim w1 \<Longrightarrow> spaces (next_trims ss) w2 \<Longrightarrow>
    renders False ss out \<Longrightarrow> renders trim (Text t # ss) (concat (map lua_write ps) @ out)"
| renders_Tag: "renders b ss out \<Longrightarrow> renders trim (Tag a ty c b # ss) (tag_source ty c @ out)"

lemma concat_Nil: "concat ps = [] \<Longrightarrow> [] \<notin> set ps \<Longrightarrow> ps = []"
  by (cases ps) auto

text \<open>Text, a tag and a template behind it.\<close>

lemma run_tag_template:
  assumes "in_text d" and "pending d = t @ seg_text (Tag a ty c b) @ template_text r" and "no_tok CHR ''<'' CHR ''%'' t" and "tag_ok ty c b"
    and rest: "\<And>d1 off1 ign1. in_text d1 \<Longrightarrow> pending d1 = template_text r \<Longrightarrow>
      \<exists>cs d' off' ign'. run (d1, off1, ign1) cs (d', off', ign') \<and> at_end d' \<and> renders (tp_skipws d1) r (concat cs)"
  shows "\<exists>w1 ps w2 cs d' off' ign' out. t = w1 @ concat ps @ w2 \<and> [] \<notin> set ps \<and> spaces (tp_skipws d) w1 \<and> spaces a w2 \<and>
    run (d, off, ign) cs (d', off', ign') \<and> at_end d' \<and> concat cs = concat (map lua_write ps) @ tag_source ty c @ out \<and> renders b r out"
proof -
  from run_text_tag [OF assms(1-4), of off ign] obtain w1 ps w2 cs d1 off1 ign1 where
    d1: "t = w1 @ concat ps @ w2" "[] \<notin> set ps" "spaces (tp_skipws d) w1" "spaces a w2"
      "run (d, off, ign) (map lua_write ps @ cs) (d1, off1, ign1)" "concat cs = tag_source ty c" "in_text d1"
      "pending d1 = template_text r" "tp_skipws d1 = b" by blast
  from rest [OF d1(7,8), of off1 ign1] d1(9) obtain cs2 d' off' ign' where
    d': "run (d1, off1, ign1) cs2 (d', off', ign')" "at_end d'" "renders b r (concat cs2)" by auto
  have "concat ((map lua_write ps @ cs) @ cs2) = concat (map lua_write ps) @ tag_source ty c @ concat cs2" using d1(6) by simp
  with run_append [OF d1(5) d'(1)] d1(1-4) d'(2,3) show ?thesis by blast
qed

lemma run_template:
  assumes "template_ok ss" and "in_text d" and "pending d = template_text ss"
  shows "\<exists>cs d' off' ign'. run (d, off, ign) cs (d', off', ign') \<and> at_end d' \<and> renders (tp_skipws d) ss (concat cs)"
  using assms
proof (induction "length ss" arbitrary: ss d off ign rule: less_induct)
  case less
  note rest = less.hyps
  consider "ss = []" | t where "ss = [Text t]" | t a ty c b r where "ss = Text t # Tag a ty c b # r" | a ty c b r where "ss = Tag a ty c b # r"
    using less.prems(1) by (cases ss rule: template_ok.cases) (auto split: list.splits seg.splits)
  then show ?case
  proof cases
    case 1
    then have "pending d = []" using less.prems(3) by (simp add: template_text_def)
    from run_end [OF less.prems(2) this, of off ign] obtain d' off' ign' where "run (d, off, ign) [] (d', off', ign')" "at_end d'" by blast
    with 1 show ?thesis by (intro exI [of _ "[]"] exI [of _ d'] exI [of _ off'] exI [of _ ign']) (simp add: renders_Nil)
  next
    case 2
    with less.prems have "pending d = t" "no_tok CHR ''<'' CHR ''%'' t" by (simp_all add: template_text_def)
    from run_text_end [OF less.prems(2) this, of off ign] obtain w1 ps d' off' ign' where
      w: "t = w1 @ concat ps" "[] \<notin> set ps" "spaces (tp_skipws d) w1" "run (d, off, ign) (map lua_write ps) (d', off', ign')" "at_end d'" by blast
    have "renders (tp_skipws d) (Text t # []) (concat (map lua_write ps) @ [])"
      by (rule renders_Text [of t w1 ps "[]"]) (use w in \<open>simp_all add: spaces_def renders_Nil\<close>)
    with w(4,5) 2 show ?thesis by (intro exI [of _ "map lua_write ps"] exI [of _ d'] exI [of _ off'] exI [of _ ign']) simp
  next
    case 3
    have ok: "no_tok CHR ''<'' CHR ''%'' t" "tag_ok ty c b" "template_ok r" using less.prems(1) 3 by simp_all
    have p: "pending d = t @ seg_text (Tag a ty c b) @ template_text r" using less.prems(3) 3 by (simp add: template_text_def)
    have len: "length r < length ss" using 3 by simp
    from run_tag_template [OF less.prems(2) p ok(1,2) rest [OF len ok(3)], of off ign]
    obtain w1 ps w2 cs d' off' ign' out where
      w: "t = w1 @ concat ps @ w2" "[] \<notin> set ps" "spaces (tp_skipws d) w1" "spaces a w2"
        "run (d, off, ign) cs (d', off', ign')" "at_end d'" "concat cs = concat (map lua_write ps) @ tag_source ty c @ out" "renders b r out"
      by blast
    have "renders (tp_skipws d) (Text t # Tag a ty c b # r) (concat (map lua_write ps) @ tag_source ty c @ out)"
      using w(1-4) by (intro renders_Text [of t w1 ps w2] renders_Tag w(8)) (simp_all add: next_trims_def)
    with w(5-7) 3 show ?thesis by (intro exI [of _ cs] exI [of _ d'] exI [of _ off'] exI [of _ ign']) simp
  next
    case 4
    have ok: "no_tok CHR ''<'' CHR ''%'' []" "tag_ok ty c b" "template_ok r" using less.prems(1) 4 by (simp_all add: no_tok_def tok2_def)
    have p: "pending d = [] @ seg_text (Tag a ty c b) @ template_text r" using less.prems(3) 4 by (simp add: template_text_def)
    have len: "length r < length ss" using 4 by simp
    from run_tag_template [OF less.prems(2) p ok(1,2) rest [OF len ok(3)], of off ign]
    obtain ps w1 w2 cs d' off' ign' out where w: "[] = w1 @ concat ps @ w2" "[] \<notin> set ps"
        "run (d, off, ign) cs (d', off', ign')" "at_end d'" "concat cs = concat (map lua_write ps) @ tag_source ty c @ out" "renders b r out"
      by blast
    from w(1,2) have "ps = []" by (cases ps) auto
    then have "renders (tp_skipws d) (Tag a ty c b # r) (concat cs)" using w(5) renders_Tag [OF w(6)] by simp
    with w(3,4) 4 show ?thesis by (intro exI [of _ cs] exI [of _ d'] exI [of _ off'] exI [of _ ign']) simp
  qed
qed

text \<open>
  A short string literal as the reference manual of Lua 5.1 describes it (section 2.1), read behind
  its opening quote: the string and what follows the closing quote, or \<^const>\<open>None\<close> if the literal
  is not finished, has a line end that is not escaped, or a decimal escape above 255.
\<close>

fun lua_decimal :: "nat \<Rightarrow> nat \<Rightarrow> string \<Rightarrow> nat \<times> string" where
  "lua_decimal 0 v s = (v, s)"
| "lua_decimal (Suc n) v [] = (v, [])"
| "lua_decimal (Suc n) v (c # s) = (if isdigit c then lua_decimal n (10 * v + (byte c - 48)) s else (v, c # s))"

definition lua_escape :: "char \<Rightarrow> char" where
  "lua_escape c = (if c = CHR ''a'' then CHR 0x07 else if c = CHR ''b'' then CHR 0x08 else if c = CHR ''f'' then CHR 0x0C
     else if c = CHR ''n'' then LF else if c = CHR ''r'' then CR else if c = CHR ''t'' then TAB
     else if c = CHR ''v'' then CHR 0x0B else c)"

lemma lua_decimal_length: "length (snd (lua_decimal n v s)) \<le> length s"
  by (induction n v s rule: lua_decimal.induct) (auto simp: le_SucI)

lemma lua_decimal_rest:
  assumes "(v, r') = lua_decimal 3 0 (e # r)" and "isdigit e"
  shows "length r' < Suc (Suc (length r))"
proof -
  have "lua_decimal 3 0 (e # r) = lua_decimal 2 (byte e - 48) r" using assms(2) by (simp add: numeral_eq_Suc)
  then have "r' = snd (lua_decimal 2 (byte e - 48) r)" using assms(1) by (metis snd_conv)
  then show ?thesis using lua_decimal_length [of 2 "byte e - 48" r] by simp
qed

function lua_string :: "string \<Rightarrow> (string \<times> string) option" where
  "lua_string [] = None"
| "lua_string (c # s) =
    (if c = dquote then Some ([], s)
     else if c = LF \<or> c = CR then None
     else if c = CHR 0x5C
     then (case s of
         [] \<Rightarrow> None
       | e # r \<Rightarrow>
           if isdigit e
           then (case lua_decimal 3 0 (e # r) of (v, r') \<Rightarrow>
               if 255 < v then None else map_option (map_prod ((#) (char_of v)) id) (lua_string r'))
           else if e = LF \<or> e = CR
           then map_option (map_prod ((#) LF) id)
               (lua_string (case r of x # r1 \<Rightarrow> if (x = LF \<or> x = CR) \<and> x \<noteq> e then r1 else r | [] \<Rightarrow> r))
           else map_option (map_prod ((#) (lua_escape e)) id) (lua_string r))
     else map_option (map_prod ((#) c) id) (lua_string s))"
  by pat_completeness auto
termination
  by (relation "measure length") (auto split: list.split dest: lua_decimal_rest)

lemma lua_write_reads:
  "lua_write p = ''write('' @ dquote # gen_body T_TYPE_TEXT False False p @ dquote # '')'' \<and>
    lua_string (gen_body T_TYPE_TEXT st ws p @ dquote # r) = (if CR \<in> set p then None else Some (p, r))"
proof
  show "lua_write p = ''write('' @ dquote # gen_body T_TYPE_TEXT False False p @ dquote # '')''"
    by (simp add: lua_write_def gen_text_def is_i18n_def Let_def)
  show "lua_string (gen_body T_TYPE_TEXT st ws p @ dquote # r) = (if CR \<in> set p then None else Some (p, r))"
  proof (induction p arbitrary: st ws)
    case (Cons c p)
    have plain: "lua_string (x # s) = map_option (map_prod ((#) x) id) (lua_string s)"
      if "x \<noteq> dquote" "x \<noteq> LF" "x \<noteq> CR" "x \<noteq> CHR 0x5C" for x s using that by simp
    have esc: "lua_string (CHR 0x5C # e # s) = map_option (map_prod ((#) (lua_escape e)) id) (lua_string s)"
      if "e \<in> {CHR 0x5C, dquote, CHR ''n'', CHR ''t''}" for e s
      using that by (auto simp: dquote_def isdigit_def)
    show ?case
    proof (cases "c = CR")
      case True
      then show ?thesis by (simp add: is_i18n_def dquote_def)
    next
      case False
      have "lua_string (gen_body T_TYPE_TEXT st ws (c # p) @ dquote # r) =
          map_option (map_prod ((#) c) id) (lua_string (gen_body T_TYPE_TEXT True ws p @ dquote # r))"
      proof (cases "c = CHR 0x5C \<or> c = dquote \<or> c = LF \<or> c = TAB")
        case True
        let ?e = "if c = LF then CHR ''n'' else if c = TAB then CHR ''t'' else c"
        have "?e \<in> {CHR 0x5C, dquote, CHR ''n'', CHR ''t''}" "lua_escape ?e = c"
          using True by (auto simp: lua_escape_def dquote_def)
        with True esc [of ?e] show ?thesis by (simp only: gen_body.simps is_i18n_def) simp
      next
        case plain_c: False
        with \<open>c \<noteq> CR\<close> show ?thesis using plain [of c] by (simp add: is_i18n_def del: lua_string.simps)
      qed
      with Cons False show ?thesis by (simp del: gen_body.simps lua_string.simps)
    qed
  qed simp
qed

lemma template_chunks:
  assumes "template_ok ss" and "length b = T_READBUFSZ" and "length out = T_OUTBUFSZ"
  shows "\<exists>n cs d'. lua_chunks n (template_L_parser [Rd (template_text ss)] b out k) = Some (cs, d') \<and> at_end d' \<and>
    renders False ss (concat cs)"
proof -
  let ?d = "template_L_parser [Rd (template_text ss)] b out k"
  have "in_text ?d" "pending ?d = template_text ss" "\<not> tp_skipws ?d"
    using assms(2,3) by (simp_all add: in_text_def file_parser_def tp_ok_def template_L_parser_def pending_def unread_def)
  then obtain cs d' off' ign' where r: "run (?d, 0, False) cs (d', off', ign')" "at_end d'" "renders False ss (concat cs)"
    using run_template [OF assms(1), of ?d 0 False] by auto
  from run_lua_chunks [OF r(1,2)] obtain n where "lua_chunks n ?d = Some (cs, d')" ..
  with r(2,3) show ?thesis by blast
qed


definition demo_template :: "seg list" where
  "demo_template = [Text ''<p>Hello '', Tag True T_TYPE_EXPR ''name'' False, Tag False T_TYPE_COMMENT '' x '' True, Text '' !</p>'']"


theorem template_reader_safe_witness:
  "case template_L_parser [Rd ''<%''] (replicate T_READBUFSZ NUL) (replicate T_OUTBUFSZ NUL) 0 of d \<Rightarrow>
     tp_ok d \<and> (case tp_fill d of
         None \<Rightarrow> False
       | Some d1 \<Rightarrow> (case tp_iter d1 0 False of
           Continue d2 off2 ign2 \<Rightarrow> tp_ok d2 | Return s d2 \<Rightarrow> tp_ok d2 \<and> length s \<le> T_OUTBUFSZ))"
proof -
  define d where "d = template_L_parser [Rd ''<%''] (replicate T_READBUFSZ NUL) (replicate T_OUTBUFSZ NUL) 0"
  have ok: "tp_ok d" by (simp add: d_def tp_ok_def template_L_parser_def)
  obtain d1 where "tp_fill d = Some d1"
    by (simp add: d_def template_L_parser_def tp_fill_def T_READBUFSZ_def Let_def)
  with template_reader_safe [OF ok] ok show ?thesis unfolding d_def [symmetric] by simp
qed

section \<open>A call that does not end\<close>

text \<open>
  Behind the end of the file a code block without its closing token is kept in the buffer while it looks like
  the start of that token, and the loop goes on forever.
\<close>

definition stuck :: "template_parser \<Rightarrow> bool" where
  "stuck d \<longleftrightarrow> tp_state d = T_STATE_CODE_NEXT \<and> tp_eof d \<and> tp_ok d \<and> take (tp_bufsize d) (tp_buf d) = ''%''"

lemma stuck_iter:
  assumes "stuck d"
  shows "\<exists>d1. tp_fill d = Some d \<and> tp_iter d 0 False = Continue d1 0 False \<and> stuck d1 \<and> 0 < tp_bufsize d"
proof -
  have ok: "tp_ok d" "tp_state d = T_STATE_CODE_NEXT" "tp_eof d" and t: "take (tp_bufsize d) (tp_buf d) = ''%''"
    using assms by (simp_all add: stuck_def)
  have n: "tp_bufsize d = 1" using t ok(1) by (metis length_take length_Cons list.size(3) min_absorb2 One_nat_def tp_ok_def)
  then have b: "tp_buf d ! 0 = CHR ''%''" using t by (metis nth_Cons_0 nth_take zero_less_one)
  have none: "strfind (drop 0 (tp_buf d)) (int (tp_bufsize d) - int 0) T_TOK_END = None"
    using strfind_end [OF ok(1), of 0] n by (cases "strfind (drop 0 (tp_buf d)) (int (tp_bufsize d) - int 0) T_TOK_END") auto
  have v: "etokscan d = 1" using n b by (simp add: etokscan_def)
  define d1 where "d1 = tp_emit 0 0 T_STATE_CODE_NEXT 1 0 d"
  have code: "tp_code 0 d = (False, False, d1)" using tp_code_None [OF none] n v ok(2) by (simp add: d1_def)
  have "stuck d1"
    using tp_emit_bufs [OF ok(1), of 0 0 1 0 T_STATE_CODE_NEXT] t n ok(3)
    by (simp add: d1_def stuck_def tp_emit_frame T_READBUFSZ_def)
  moreover have "tp_outsize d1 = 0" by (simp add: d1_def tp_emit_frame)
  then have "tp_iter d 0 False = Continue d1 0 False"
    using tp_iter_code [OF _ _ _ code, of d 0 False False] ok(2) by simp
  ultimately show ?thesis using ok(3) n by (simp add: tp_fill_def)
qed

lemma stuck_forever: "stuck d \<Longrightarrow> template_reader d = None"
proof -
  have "tp_loop d off ign = Some r \<Longrightarrow> off = 0 \<Longrightarrow> ign = False \<Longrightarrow> stuck d \<Longrightarrow> False" for off ign r
  proof (induction rule: tp_loop.raw_induct [rotated 1, consumes 1])
    case (1 rec d off ign r)
    from stuck_iter [OF "1.prems"(3)] obtain d1 where
      "tp_fill d = Some d" "tp_iter d 0 False = Continue d1 0 False" "stuck d1" "0 < tp_bufsize d" by blast
    with 1 show ?case by simp
  qed
  then show "stuck d \<Longrightarrow> template_reader d = None" by (cases "template_reader d") (auto simp: template_reader_def)
qed

end
