(* ===== verification/Luci_Utf8.thy ===== *)
theory Luci_Utf8
  imports OSan_Prelude
begin

text \<open>
  Cleaning strings for templates (LuCI, \<^verbatim>\<open>template_utils.c\<close>): the growing output buffer, the UTF-8
  tests, and the two sanitizers. A pointer into the source string is the string of the bytes from
  there to its end, so that \<^verbatim>\<open>l - o\<close> is its length. The allocator is a parameter that says whether
  a block is available and what it holds; a write outside a block is recorded as a fault.

  The locale \<open>text_sink\<close> states what the sanitizers rely on of the buffer: whatever is put into it
  is appended to its text, up to a capacity. The buffer implements it; its sizes are unsigned
  integers of 32 bits, which bound the capacity.
\<close>

section \<open>The buffer\<close>

record template_buffer =
  tb_data :: string
  tb_dptr :: nat
  tb_size :: nat
  tb_fill :: nat
  tb_fault :: bool

text \<open>The block \<^verbatim>\<open>malloc(1024)\<close> returns, and the bytes \<^verbatim>\<open>realloc()\<close> adds for a new size.\<close>

record heap =
  hp_new :: "string option"
  hp_more :: "nat \<Rightarrow> string option"

definition poke :: "nat \<Rightarrow> char \<Rightarrow> template_buffer \<Rightarrow> template_buffer" where
  "poke i c b = (if i < length (tb_data b) then b\<lparr>tb_data := (tb_data b)[i := c]\<rparr> else b\<lparr>tb_fault := True\<rparr>)"

fun pokes :: "nat \<Rightarrow> string \<Rightarrow> template_buffer \<Rightarrow> template_buffer" where
  "pokes i [] b = b"
| "pokes i (c # cs) b = pokes (Suc i) cs (poke i c b)"

definition buf_init :: "heap \<Rightarrow> template_buffer option" where
  "buf_init hp = map_option (\<lambda>d. poke 0 NUL \<lparr>tb_data = d, tb_dptr = 0, tb_size = 1024, tb_fill = 0, tb_fault = False\<rparr>)
     (hp_new hp)"

text \<open>
  The sizes are multiples of 1024 of 32 bits, so a sum that does not fit is 0. Then \<^verbatim>\<open>realloc()\<close> gives
  the block back while the buffer still points to it.
\<close>

definition buf_grow :: "heap \<Rightarrow> template_buffer \<Rightarrow> bool \<times> template_buffer" where
  "buf_grow hp b =
     (if 2 ^ 32 \<le> tb_size b + 1024 then (False, b\<lparr>tb_fault := True\<rparr>)
      else case hp_more hp (tb_size b + 1024) of
          None \<Rightarrow> (False, b)
        | Some d \<Rightarrow> (True, b\<lparr>tb_data := tb_data b @ d, tb_size := tb_size b + 1024\<rparr>))"

abbreviation u32_sum :: "nat \<Rightarrow> nat" where
  "u32_sum n \<equiv> n mod 2 ^ 32"

definition buf_putchar :: "heap \<Rightarrow> char \<Rightarrow> template_buffer \<Rightarrow> bool \<times> template_buffer" where
  "buf_putchar hp c b =
     (case (if u32_sum (tb_fill b + 1) \<ge> tb_size b then buf_grow hp b else (True, b)) of
        (False, b1) \<Rightarrow> (False, b1)
      | (True, b1) \<Rightarrow> (True, (poke (tb_dptr b1 + 1) NUL (poke (tb_dptr b1) c b1))
                      \<lparr>tb_fill := u32_sum (tb_fill b1 + 1), tb_dptr := tb_dptr b1 + 1\<rparr>))"

function buf_room :: "heap \<Rightarrow> nat \<Rightarrow> template_buffer \<Rightarrow> bool \<times> template_buffer" where
  "buf_room hp len b =
     (if u32_sum (tb_fill b + len + 1) \<ge> tb_size b
      then case buf_grow hp b of (False, b1) \<Rightarrow> (False, b1) | (True, b1) \<Rightarrow> buf_room hp len b1
      else (True, b))"
  by pat_completeness auto
termination
  by (relation "measure (\<lambda>(hp, len, b). u32_sum (tb_fill b + len + 1) + 1 - tb_size b)")
    (auto simp: buf_grow_def split: if_splits option.splits)

declare buf_room.simps [simp del]

definition buf_append :: "heap \<Rightarrow> string \<Rightarrow> template_buffer \<Rightarrow> nat \<times> template_buffer" where
  "buf_append hp s b = (case buf_room hp (length s) b of
      (False, b1) \<Rightarrow> (0, b1)
    | (True, b1) \<Rightarrow> (length s, (poke (tb_dptr b1 + length s) NUL (pokes (tb_dptr b1) s b1))
                    \<lparr>tb_fill := u32_sum (tb_fill b1 + length s), tb_dptr := tb_dptr b1 + length s\<rparr>))"

text \<open>The data as the caller reads it: up to the first terminator.\<close>

definition buf_destroy :: "template_buffer \<Rightarrow> string" where
  "buf_destroy b = cstr (tb_data b)"

section \<open>UTF-8 sequences\<close>

definition mb_num_chars :: "char \<Rightarrow> nat" where
  "mb_num_chars c =
     (if and (byte c) 0xE0 = (0xC0 :: nat) then 2
      else if and (byte c) 0xF0 = (0xE0 :: nat) then 3
      else if and (byte c) 0xF8 = (0xF0 :: nat) then 4
      else if and (byte c) 0xFC = (0xF8 :: nat) then 5
      else if and (byte c) 0xFE = (0xFC :: nat) then 6
      else 1)"

definition mb_is_cont :: "char \<Rightarrow> bool" where
  "mb_is_cont c \<longleftrightarrow> 0x80 \<le> byte c \<and> byte c \<le> (0xBF :: nat)"

abbreviation shr :: "char \<Rightarrow> nat \<Rightarrow> nat" where
  "shr c k \<equiv> drop_bit k (byte c)"

definition mb_is_shortest :: "string \<Rightarrow> nat \<Rightarrow> bool" where
  "mb_is_shortest s n =
     (if n = 2 then \<not> (shr (char_at s 0) 1 = 0x60 \<and> shr (char_at s 1) 6 = 2)
      else if n = 3 then \<not> (byte (char_at s 0) = (0xE0 :: nat) \<and> shr (char_at s 1) 5 = 4 \<and> shr (char_at s 2) 6 = 2)
      else if n = 4 then \<not> (byte (char_at s 0) = (0xF0 :: nat) \<and> shr (char_at s 1) 4 = 8 \<and> shr (char_at s 2) 6 = 2 \<and>
        shr (char_at s 3) 6 = 2)
      else if n = 5 then \<not> (byte (char_at s 0) = (0xF8 :: nat) \<and> shr (char_at s 1) 3 = 0x10 \<and> shr (char_at s 2) 6 = 2 \<and>
        shr (char_at s 3) 6 = 2 \<and> shr (char_at s 4) 6 = 2)
      else if n = 6 then \<not> (byte (char_at s 0) = (0xF8 :: nat) \<and> shr (char_at s 1) 2 = 0x20 \<and> shr (char_at s 2) 6 = 2 \<and>
        shr (char_at s 3) 6 = 2 \<and> shr (char_at s 4) 6 = 2 \<and> shr (char_at s 5) 6 = 2)
      else True)"

definition mb_is_surrogate :: "string \<Rightarrow> nat \<Rightarrow> bool" where
  "mb_is_surrogate s n \<longleftrightarrow> n = 3 \<and> byte (char_at s 0) = (0xED :: nat) \<and> 0xA0 \<le> byte (char_at s 1) \<and>
     byte (char_at s 1) \<le> (0xBF :: nat)"

definition mb_is_illegal :: "string \<Rightarrow> nat \<Rightarrow> bool" where
  "mb_is_illegal s n \<longleftrightarrow> n = 3 \<and> byte (char_at s 0) = (0xEF :: nat) \<and> byte (char_at s 1) = (0xBF :: nat) \<and>
     0xBE \<le> byte (char_at s 2) \<and> byte (char_at s 2) \<le> (0xBF :: nat)"

text \<open>The loop that counts continuation bytes; it goes one beyond the expected number.\<close>

function mb_count :: "string \<Rightarrow> nat \<Rightarrow> nat \<Rightarrow> nat" where
  "mb_count s n v = (if v \<le> n \<and> v < length s \<and> mb_is_cont (s ! v) then mb_count s n (v + 1) else v)"
  by pat_completeness auto
termination
  by (relation "measure (\<lambda>(s, n, v). n + 1 - v)") auto

declare mb_count.simps [simp del]

text \<open>The number of bytes used, 0 when there is no memory, and the buffer.\<close>

definition validate_utf8 :: "heap \<Rightarrow> string \<Rightarrow> template_buffer \<Rightarrow> nat \<times> template_buffer" where
  "validate_utf8 hp s b =
     (let c = char_at s 0; n = mb_num_chars c; used = (\<lambda>k r. (if fst r then k else 0, snd r))
      in if 1 \<le> byte c \<and> byte c \<le> (0x7F :: nat) then used 1 (buf_putchar hp c b)
         else if n > 1
         then let v = mb_count s n 1
              in if n = 5 \<or> n = 6 then used v (buf_putchar hp (CHR ''?'') b)
                 else if v = n \<and> mb_is_shortest s n \<and> \<not> mb_is_surrogate s n \<and> \<not> mb_is_illegal s n
                 then (case buf_append hp (take n s) b of (k, b1) \<Rightarrow> (if k = 0 then 0 else v, b1))
                 else used v (buf_putchar hp (CHR ''?'') b)
         else used 1 (buf_putchar hp (CHR ''?'') b))"

section \<open>The sanitizers\<close>

function sanitize_utf8_loop :: "heap \<Rightarrow> string \<Rightarrow> template_buffer \<Rightarrow> template_buffer" where
  "sanitize_utf8_loop hp s b =
     (if s = [] then b
      else if 1 \<le> byte (hd s) \<and> byte (hd s) \<le> (0x7F :: nat)
      then case buf_putchar hp (hd s) b of
          (True, b1) \<Rightarrow> sanitize_utf8_loop hp (tl s) b1
        | (False, b1) \<Rightarrow> b1
      else case validate_utf8 hp s b of
          (v, b1) \<Rightarrow> if v = 0 then b1 else sanitize_utf8_loop hp (drop v s) b1)"
  by pat_completeness auto
termination
  by (relation "measure (\<lambda>(hp, s, b). length s)") auto

declare sanitize_utf8_loop.simps [simp del]

definition sanitize_utf8 :: "heap \<Rightarrow> string \<Rightarrow> string option" where
  "sanitize_utf8 hp s = map_option (\<lambda>b. buf_destroy (sanitize_utf8_loop hp s b)) (buf_init hp)"

definition xml_invalid :: "char \<Rightarrow> bool" where
  "xml_invalid c \<longleftrightarrow> byte c \<le> (8 :: nat) \<or> (0x0B \<le> byte c \<and> byte c \<le> (0x0C :: nat)) \<or>
     (0x0E \<le> byte c \<and> byte c \<le> (0x1F :: nat)) \<or> byte c = (0x7F :: nat)"

definition xml_special :: "char \<Rightarrow> bool" where
  "xml_special c \<longleftrightarrow> byte c \<in> {0x26 :: nat, 0x27, 0x22, 0x3C, 0x3E}"

definition xml_escape :: "char \<Rightarrow> string" where
  "xml_escape c = take 7 (''&#'' @ fmt_dec (byte c) @ '';'')"

function sanitize_pcdata_loop :: "heap \<Rightarrow> string \<Rightarrow> template_buffer \<Rightarrow> template_buffer" where
  "sanitize_pcdata_loop hp s b =
     (if s = [] then b
      else if xml_invalid (hd s) then sanitize_pcdata_loop hp (tl s) b
      else if xml_special (hd s)
      then case buf_append hp (xml_escape (hd s)) b of
          (k, b1) \<Rightarrow> if k = 0 then b1 else sanitize_pcdata_loop hp (tl s) b1
      else if byte (hd s) \<le> (0x7F :: nat) then sanitize_pcdata_loop hp (tl s) (snd (buf_putchar hp (hd s) b))
      else case validate_utf8 hp s b of
          (v, b1) \<Rightarrow> if v = 0 then b1 else sanitize_pcdata_loop hp (drop v s) b1)"
  by pat_completeness auto
termination
  by (relation "measure (\<lambda>(hp, s, b). length s)") auto

declare sanitize_pcdata_loop.simps [simp del]

definition sanitize_pcdata :: "heap \<Rightarrow> string \<Rightarrow> string option" where
  "sanitize_pcdata hp s = map_option (\<lambda>b. buf_destroy (sanitize_pcdata_loop hp s b)) (buf_init hp)"

section \<open>The buffer as a text\<close>

definition heap_ok :: "heap \<Rightarrow> bool" where
  "heap_ok hp \<longleftrightarrow> (\<exists>d. hp_new hp = Some d \<and> length d = 1024) \<and> (\<forall>n. \<exists>d. hp_more hp n = Some d \<and> length d = 1024)"

definition buf_text :: "template_buffer \<Rightarrow> string" where
  "buf_text b = take (tb_fill b) (tb_data b)"

definition buf_inv :: "template_buffer \<Rightarrow> bool" where
  "buf_inv b \<longleftrightarrow> length (tb_data b) = tb_size b \<and> tb_dptr b = tb_fill b \<and> tb_fill b < tb_size b \<and>
     tb_data b ! tb_fill b = NUL \<and> \<not> tb_fault b"

text \<open>What a buffer can hold: with the terminator it stays below the largest size, less than 4 GiB.\<close>

definition buf_max :: nat where
  "buf_max = 2 ^ 32 - 2048"

locale text_sink =
  fixes cap :: nat and ok :: "'b \<Rightarrow> bool" and text_of :: "'b \<Rightarrow> string"
    and put :: "char \<Rightarrow> 'b \<Rightarrow> bool \<times> 'b" and app :: "string \<Rightarrow> 'b \<Rightarrow> nat \<times> 'b"
  assumes put_ok: "ok b \<Longrightarrow> length (text_of b) + 1 \<le> cap \<Longrightarrow>
      fst (put c b) \<and> ok (snd (put c b)) \<and> text_of (snd (put c b)) = text_of b @ [c]"
    and app_ok: "ok b \<Longrightarrow> length (text_of b) + length s \<le> cap \<Longrightarrow>
      fst (app s b) = length s \<and> ok (snd (app s b)) \<and> text_of (snd (app s b)) = text_of b @ s"
begin

lemma putE:
  assumes "ok b" and "length (text_of b) + 1 \<le> cap"
  obtains b' where "put c b = (True, b')" and "ok b'" and "text_of b' = text_of b @ [c]"
  using put_ok [OF assms, of c] by (cases "put c b") auto

lemma appE:
  assumes "ok b" and "length (text_of b) + length s \<le> cap"
  obtains b' where "app s b = (length s, b')" and "ok b'" and "text_of b' = text_of b @ s"
  using app_ok [OF assms] by (cases "app s b") auto

end

lemma pokes_write:
  "i + length cs \<le> length (tb_data b) \<Longrightarrow> pokes i cs b =
     b\<lparr>tb_data := take i (tb_data b) @ cs @ drop (i + length cs) (tb_data b)\<rparr>"
proof (induction cs arbitrary: i b)
  case (Cons c cs)
  then have "pokes i (c # cs) b = b\<lparr>tb_data := take (Suc i) ((tb_data b)[i := c]) @ cs @ drop (Suc i + length cs) ((tb_data b)[i := c])\<rparr>"
    by (simp add: poke_def)
  also have "take (Suc i) ((tb_data b)[i := c]) = take i (tb_data b) @ [c]"
    using Cons.prems by (simp add: take_Suc_conv_app_nth)
  finally show ?case by simp
qed simp

lemma buf_text_length: "buf_inv b \<Longrightarrow> length (buf_text b) = tb_fill b"
  by (simp add: buf_inv_def buf_text_def)

lemma buf_grow_ok:
  assumes "heap_ok hp" and "buf_inv b" and "tb_size b + 1024 < 2 ^ 32"
  obtains b1 where "buf_grow hp b = (True, b1)" and "buf_inv b1" and "buf_text b1 = buf_text b" and "tb_fill b1 = tb_fill b"
    and "tb_size b1 = tb_size b + 1024"
proof -
  from assms(1) obtain d where d: "hp_more hp (tb_size b + 1024) = Some d" "length d = 1024" unfolding heap_ok_def by metis
  let ?b1 = "b\<lparr>tb_data := tb_data b @ d, tb_size := tb_size b + 1024\<rparr>"
  have "buf_inv ?b1" "buf_text ?b1 = buf_text b" using assms(2) d by (auto simp: buf_inv_def buf_text_def nth_append)
  with d assms(3) show ?thesis using that [of ?b1] by (simp add: buf_grow_def)
qed

lemma u32_sum_id: "n \<le> buf_max + 1 \<Longrightarrow> u32_sum n = n"
  by (simp add: buf_max_def)

lemma buf_room_ok:
  "heap_ok hp \<Longrightarrow> buf_inv b \<Longrightarrow> tb_fill b + len \<le> buf_max \<Longrightarrow> \<exists>b1. buf_room hp len b = (True, b1) \<and> buf_inv b1 \<and>
     buf_text b1 = buf_text b \<and> tb_fill b1 = tb_fill b \<and> tb_fill b1 + len + 1 < tb_size b1"
proof (induction hp len b rule: buf_room.induct)
  case (1 hp len b)
  have s: "u32_sum (tb_fill b + len + 1) = tb_fill b + len + 1" using 1(4) by (intro u32_sum_id) simp
  show ?case
  proof (cases "u32_sum (tb_fill b + len + 1) \<ge> tb_size b")
    case True
    then have "tb_size b + 1024 < 2 ^ 32" using 1(4) unfolding s by (simp add: buf_max_def)
    from buf_grow_ok [OF 1(2,3) this] obtain b1 where b1: "buf_grow hp b = (True, b1)" "buf_inv b1" "buf_text b1 = buf_text b"
      "tb_fill b1 = tb_fill b" .
    from 1(1) [OF True b1(1) [symmetric] refl 1(2) b1(2)] 1(4) b1(4)
    have "\<exists>b2. buf_room hp len b1 = (True, b2) \<and> buf_inv b2 \<and> buf_text b2 = buf_text b1 \<and> tb_fill b2 = tb_fill b1 \<and>
      tb_fill b2 + len + 1 < tb_size b2" by simp
    with True b1 show ?thesis by (subst buf_room.simps) simp
  next
    case False
    with 1(3) s show ?thesis by (subst buf_room.simps) simp
  qed
qed

text \<open>Writing at the end of a buffer with room for the bytes and a terminator.\<close>

lemma buf_write:
  assumes "buf_inv b" and "tb_fill b + length s < tb_size b" and "tb_fill b + length s \<le> buf_max"
  defines "b' \<equiv> (poke (tb_dptr b + length s) NUL (pokes (tb_dptr b) s b))
    \<lparr>tb_fill := u32_sum (tb_fill b + length s), tb_dptr := tb_dptr b + length s\<rparr>"
  shows "buf_inv b' \<and> buf_text b' = buf_text b @ s"
proof -
  have l: "tb_dptr b = tb_fill b" "length (tb_data b) = tb_size b" using assms(1) by (simp_all add: buf_inv_def)
  have p: "pokes (tb_dptr b) s b = b\<lparr>tb_data := take (tb_fill b) (tb_data b) @ s @ drop (tb_fill b + length s) (tb_data b)\<rparr>"
    using pokes_write [of "tb_dptr b" s b] l assms(2) by simp
  have "b' = b\<lparr>tb_data := take (tb_fill b) (tb_data b) @ s @ (drop (tb_fill b + length s) (tb_data b))[0 := NUL],
      tb_fill := tb_fill b + length s, tb_dptr := tb_fill b + length s\<rparr>"
    unfolding b'_def p using l assms(2) u32_sum_id [of "tb_fill b + length s"] assms(3) by (simp add: poke_def list_update_append)
  with l assms(1,2) show ?thesis by (auto simp: buf_inv_def buf_text_def nth_append)
qed

interpretation tb: text_sink buf_max "\<lambda>b. heap_ok hp \<and> buf_inv b" buf_text "buf_putchar hp" "buf_append hp" for hp
proof
  fix b :: template_buffer and c :: char
  assume ok: "heap_ok hp \<and> buf_inv b" and "length (buf_text b) + 1 \<le> buf_max"
  then have room: "tb_fill b + 1 \<le> buf_max" using buf_text_length by simp
  then have s: "u32_sum (tb_fill b + 1) = tb_fill b + 1" by (intro u32_sum_id) simp
  obtain b1 where b1: "(if u32_sum (tb_fill b + 1) \<ge> tb_size b then buf_grow hp b else (True, b)) = (True, b1)" "buf_inv b1"
    "buf_text b1 = buf_text b" "tb_fill b1 + length [c] < tb_size b1" "tb_fill b1 = tb_fill b"
  proof (cases "u32_sum (tb_fill b + 1) \<ge> tb_size b")
    case True
    then have "heap_ok hp" "buf_inv b" "tb_size b + 1024 < 2 ^ 32" using ok room unfolding s by (simp_all add: buf_max_def)
    from buf_grow_ok [OF this] obtain b1 where g: "buf_grow hp b = (True, b1)" "buf_inv b1" "buf_text b1 = buf_text b"
      "tb_fill b1 = tb_fill b" "tb_size b1 = tb_size b + 1024" .
    from ok have "tb_fill b < tb_size b" by (simp add: buf_inv_def)
    with g True show ?thesis using that [of b1] by simp
  next
    case False
    with ok s show ?thesis using that [of b] by simp
  qed
  from buf_write [OF b1(2,4)] b1(1,3,5) ok room
  show "fst (buf_putchar hp c b) \<and> (heap_ok hp \<and> buf_inv (snd (buf_putchar hp c b))) \<and> buf_text (snd (buf_putchar hp c b)) = buf_text b @ [c]"
    unfolding buf_putchar_def b1(1) by simp
next
  fix b :: template_buffer and s :: string
  assume ok: "heap_ok hp \<and> buf_inv b" and "length (buf_text b) + length s \<le> buf_max"
  then have room: "tb_fill b + length s \<le> buf_max" using buf_text_length by simp
  from ok buf_room_ok [OF _ _ room, of hp] obtain b2 where b2: "buf_room hp (length s) b = (True, b2)" "buf_inv b2"
    "buf_text b2 = buf_text b" "tb_fill b2 + length s < tb_size b2" "tb_fill b2 = tb_fill b" by auto
  from buf_write [OF b2(2,4)] b2(1,3,5) ok room
  show "fst (buf_append hp s b) = length s \<and> (heap_ok hp \<and> buf_inv (snd (buf_append hp s b))) \<and>
      buf_text (snd (buf_append hp s b)) = buf_text b @ s"
    by (simp add: buf_append_def)
qed

lemma buf_destroy_text: "buf_inv b \<Longrightarrow> NUL \<notin> set (buf_text b) \<Longrightarrow> buf_destroy b = buf_text b"
proof -
  assume i: "buf_inv b" and n: "NUL \<notin> set (buf_text b)"
  then have "tb_data b = buf_text b @ NUL # drop (Suc (tb_fill b)) (tb_data b)"
    unfolding buf_text_def buf_inv_def by (metis id_take_nth_drop)
  with n show ?thesis unfolding buf_destroy_def by (metis cstr_append_NUL)
qed

lemma buf_init_ok: "heap_ok hp \<Longrightarrow> \<exists>b. buf_init hp = Some b \<and> buf_inv b \<and> buf_text b = []"
proof -
  assume "heap_ok hp"
  then obtain d where d: "hp_new hp = Some d" "length d = 1024" by (auto simp: heap_ok_def)
  then have "d \<noteq> []" by auto
  with d show ?thesis by (simp add: buf_init_def buf_inv_def buf_text_def poke_def)
qed

section \<open>What the sanitizers compute\<close>

text \<open>One step of the validation: the bytes put out and the number of bytes used.\<close>

definition utf8_step :: "string \<Rightarrow> string \<times> nat" where
  "utf8_step s =
     (let c = char_at s 0; n = mb_num_chars c
      in if 1 \<le> byte c \<and> byte c \<le> (0x7F :: nat) then ([c], 1)
         else if n > 1
         then let v = mb_count s n 1
              in if n \<noteq> 5 \<and> n \<noteq> 6 \<and> v = n \<and> mb_is_shortest s n \<and> \<not> mb_is_surrogate s n \<and> \<not> mb_is_illegal s n
                 then (take n s, v) else (''?'', v)
         else (''?'', 1))"

lemma mb_count_ge: "v \<le> mb_count s n v"
proof (induction s n v rule: mb_count.induct)
  case (1 s n v)
  then show ?case by (subst mb_count.simps) auto
qed

lemma mb_count_conts:
  "v \<le> i \<Longrightarrow> i < mb_count s n v \<Longrightarrow> i \<le> n \<and> i < length s \<and> mb_is_cont (s ! i)"
proof (induction s n v rule: mb_count.induct)
  case (1 s n v)
  show ?case
  proof (cases "v \<le> n \<and> v < length s \<and> mb_is_cont (s ! v)")
    case True
    then have "mb_count s n v = mb_count s n (v + 1)" by (subst mb_count.simps) simp
    with 1 True show ?thesis by (cases "i = v") auto
  next
    case False
    then have "mb_count s n v = v" by (subst mb_count.simps) auto
    with 1 show ?thesis by simp
  qed
qed

lemma mb_count_stop:
  assumes "v \<le> m" and "m \<le> n" and "\<And>i. v \<le> i \<Longrightarrow> i < m \<Longrightarrow> i < length s \<and> mb_is_cont (s ! i)"
    and "length s \<le> m \<or> \<not> mb_is_cont (s ! m)"
  shows "mb_count s n v = m"
  using assms
proof (induction "m - v" arbitrary: v)
  case 0
  then show ?case by (subst mb_count.simps) auto
next
  case (Suc k)
  then have "mb_count s n v = mb_count s n (v + 1)" by (subst mb_count.simps) auto
  also have "\<dots> = m" using Suc by (intro Suc.hyps) auto
  finally show ?case .
qed

lemma utf8_step_pos: "1 \<le> snd (utf8_step s)"
  using mb_count_ge [of 1 s] by (simp add: utf8_step_def Let_def)

lemma utf8_step_out: "s \<noteq> [] \<Longrightarrow> 1 \<le> length (fst (utf8_step s)) \<and> length (fst (utf8_step s)) \<le> snd (utf8_step s)"
  using mb_count_ge [of 1 s] by (auto simp: utf8_step_def Let_def mb_num_chars_def Suc_le_eq)

lemma validate_utf8_step:
  assumes "heap_ok hp" and "buf_inv b" and "s \<noteq> []" and "length (buf_text b) + length (fst (utf8_step s)) \<le> buf_max"
  shows "\<exists>b'. validate_utf8 hp s b = (snd (utf8_step s), b') \<and> buf_inv b' \<and> buf_text b' = buf_text b @ fst (utf8_step s)"
proof -
  have ok: "heap_ok hp \<and> buf_inv b" using assms by simp
  let ?c = "char_at s 0" and ?n = "mb_num_chars (char_at s 0)"
  let ?good = "?n \<noteq> 5 \<and> ?n \<noteq> 6 \<and> mb_count s ?n 1 = ?n \<and> mb_is_shortest s ?n \<and> \<not> mb_is_surrogate s ?n \<and> \<not> mb_is_illegal s ?n"
  have one: "length (buf_text b) + 1 \<le> buf_max" using assms(4) utf8_step_out [OF assms(3)] by linarith
  obtain b1 where b1: "buf_putchar hp ?c b = (True, b1)" "buf_inv b1" "buf_text b1 = buf_text b @ [?c]"
    using tb.putE [OF ok one, of ?c] by metis
  obtain b2 where b2: "buf_putchar hp (CHR ''?'') b = (True, b2)" "buf_inv b2" "buf_text b2 = buf_text b @ ''?''"
    using tb.putE [OF ok one, of "CHR ''?''"] by metis
  have nz: "?n \<noteq> 0" by (simp add: mb_num_chars_def)
  consider (ascii) "1 \<le> byte ?c \<and> byte ?c \<le> (0x7F :: nat)" | (bad) "\<not> (1 \<le> byte ?c \<and> byte ?c \<le> (0x7F :: nat))" "\<not> (1 < ?n \<and> ?good)"
    | (good) "\<not> (1 \<le> byte ?c \<and> byte ?c \<le> (0x7F :: nat))" "1 < ?n" "?good" by blast
  then show ?thesis
  proof cases
    case ascii
    then show ?thesis using b1 by (simp add: validate_utf8_def utf8_step_def Let_def)
  next
    case bad
    then show ?thesis using b2 by (simp add: validate_utf8_def utf8_step_def Let_def) blast
  next
    case good
    then have "validate_utf8 hp s b = (case buf_append hp (take ?n s) b of (k, b1) \<Rightarrow> (if k = 0 then 0 else mb_count s ?n 1, b1))"
      "utf8_step s = (take ?n s, mb_count s ?n 1)"
      unfolding validate_utf8_def utf8_step_def Let_def if_not_P [OF good(1)] by simp_all
    moreover from this assms(4) have "length (buf_text b) + length (take ?n s) \<le> buf_max" by simp
    then obtain b3 where b3: "buf_append hp (take ?n s) b = (length (take ?n s), b3)" "buf_inv b3" "buf_text b3 = buf_text b @ take ?n s"
      using tb.appE [OF ok, of "take ?n s"] by metis
    moreover have "length (take ?n s) \<noteq> 0" using assms(3) nz by simp
    ultimately have "validate_utf8 hp s b = (snd (utf8_step s), b3)" "fst (utf8_step s) = take ?n s"
      by (simp_all only: b3(1) prod.case if_False fst_conv snd_conv)
    with b3(2,3) show ?thesis by (simp only:) blast
  qed
qed

function utf8_clean :: "string \<Rightarrow> string" where
  "utf8_clean s = (if s = [] then [] else fst (utf8_step s) @ utf8_clean (drop (snd (utf8_step s)) s))"
  by pat_completeness auto
termination
proof (relation "measure length")
  fix s :: string assume "s \<noteq> []"
  then show "(drop (snd (utf8_step s)) s, s) \<in> measure length" using utf8_step_pos [of s] by simp
qed simp

declare utf8_clean.simps [simp del]

lemma utf8_clean_length: "length (utf8_clean s) \<le> length s"
proof (induction s rule: utf8_clean.induct)
  case (1 s)
  show ?case
  proof (cases "s = []")
    case False
    have "length (fst (utf8_step s)) \<le> length s"
    proof (cases "fst (utf8_step s) = take (mb_num_chars (char_at s 0)) s")
      case ne: False
      then have "length (fst (utf8_step s)) = 1" by (auto simp: utf8_step_def Let_def split: if_splits)
      with False show ?thesis by (cases s) auto
    qed simp
    with 1 [OF False] utf8_step_out [OF False] False show ?thesis by (subst utf8_clean.simps) auto
  qed (simp add: utf8_clean.simps)
qed

lemma sanitize_utf8_loop_text:
  assumes "heap_ok hp" and "buf_inv b" and "length (buf_text b) + length (utf8_clean s) \<le> buf_max"
  shows "buf_inv (sanitize_utf8_loop hp s b) \<and> buf_text (sanitize_utf8_loop hp s b) = buf_text b @ utf8_clean s"
  using assms(2,3)
proof (induction s arbitrary: b rule: utf8_clean.induct)
  case (1 s)
  show ?case
  proof (cases "s = []")
    case True
    with 1 show ?thesis by (simp add: sanitize_utf8_loop.simps utf8_clean.simps)
  next
    case False
    then have len: "length (utf8_clean s) = length (fst (utf8_step s)) + length (utf8_clean (drop (snd (utf8_step s)) s))"
      by (subst utf8_clean.simps) simp
    from False have c: "char_at s 0 = hd s" by (simp add: char_at_def hd_conv_nth)
    show ?thesis
    proof (cases "1 \<le> byte (hd s) \<and> byte (hd s) \<le> (0x7F :: nat)")
      case True
      have st: "utf8_step s = ([hd s], 1)" using True by (simp add: utf8_step_def c)
      have one: "length (buf_text b) + 1 \<le> buf_max" using 1(3) len st by simp
      obtain b1 where b1: "buf_putchar hp (hd s) b = (True, b1)" "buf_inv b1" "buf_text b1 = buf_text b @ [hd s]"
        using tb.putE [of hp b "hd s"] assms(1) 1(2) one by metis
      from 1(1) [OF False b1(2)] 1(3) len st b1 False True show ?thesis
        by (subst (1 2) sanitize_utf8_loop.simps, subst utf8_clean.simps) (simp add: drop_Suc)
    next
      case nt: False
      have room: "length (buf_text b) + length (fst (utf8_step s)) \<le> buf_max" using 1(3) len by linarith
      from validate_utf8_step [OF assms(1) 1(2) False room] obtain b1 where
        b1: "validate_utf8 hp s b = (snd (utf8_step s), b1)" "buf_inv b1" "buf_text b1 = buf_text b @ fst (utf8_step s)" by blast
      from 1(1) [OF False b1(2)] 1(3) len b1 False nt utf8_step_pos [of s] show ?thesis
        by (subst (1 2) sanitize_utf8_loop.simps, subst utf8_clean.simps) auto
    qed
  qed
qed

section \<open>Encoded code points\<close>

text \<open>
  The code points the code lets through, from 1 to the last one four bytes can express, without the
  surrogates and the two noncharacters at the end of the basic plane; and the encoding of code
  points. What UTF-8 is does not depend on them (\<open>unicode_scalar\<close> below).
\<close>

definition utf8_cp :: "nat \<Rightarrow> bool" where
  "utf8_cp cp \<longleftrightarrow> 0 < cp \<and> cp < 0x200000 \<and> \<not> (0xD800 \<le> cp \<and> cp \<le> 0xDFFF) \<and> cp \<noteq> 0xFFFE \<and> cp \<noteq> 0xFFFF"

definition utf8_encode :: "nat \<Rightarrow> string" where
  "utf8_encode cp = map char_of
     (if cp < 0x80 then [cp]
      else if cp < 0x800 then [0xC0 + cp div 64, 0x80 + cp mod 64]
      else if cp < 0x10000 then [0xE0 + cp div 4096, 0x80 + cp div 64 mod 64, 0x80 + cp mod 64]
      else [0xF0 + cp div 262144, 0x80 + cp div 4096 mod 64, 0x80 + cp div 64 mod 64, 0x80 + cp mod 64])"

definition utf8_text :: "string \<Rightarrow> bool" where
  "utf8_text s \<longleftrightarrow> (\<exists>cps. list_all utf8_cp cps \<and> s = concat (map utf8_encode cps))"

text \<open>
  Well-formed UTF-8 as Unicode and RFC 3629 define it: the encodings of the scalar values, the code
  points up to 10FFFF (hexadecimal) without the surrogates.
\<close>

definition unicode_scalar :: "nat \<Rightarrow> bool" where
  "unicode_scalar cp \<longleftrightarrow> cp < 0xD800 \<or> (0xE000 \<le> cp \<and> cp \<le> 0x10FFFF)"

definition well_formed_utf8 :: "string \<Rightarrow> bool" where
  "well_formed_utf8 s \<longleftrightarrow> (\<exists>cps. list_all unicode_scalar cps \<and> s = concat (map utf8_encode cps))"

lemma and_high_bits:
  fixes n :: nat
  assumes "n < 2 ^ (k + m)"
  shows "and n (push_bit k (mask m)) = n div 2 ^ k * 2 ^ k"
proof -
  have "and n (push_bit k (mask m)) = push_bit k (take_bit m (drop_bit k n))"
    by (rule bit_eqI) (auto simp: bit_simps)
  also have "take_bit m (drop_bit k n) = drop_bit k n"
    using assms by (simp add: take_bit_nat_eq_self_iff drop_bit_eq_div less_mult_imp_div_less power_add mult.commute)
  finally show ?thesis by (simp add: push_bit_eq_mult drop_bit_eq_div)
qed

lemma mb_num_chars_div:
  "mb_num_chars c = (let n = byte c in if n div 32 = 6 then 2 else if n div 16 = 14 then 3 else if n div 8 = 30 then 4
     else if n div 4 = 62 then 5 else if n div 2 = 126 then 6 else 1)"
proof -
  have a: "and (byte c) 0xE0 = byte c div 32 * 32" "and (byte c) 0xF0 = byte c div 16 * 16" "and (byte c) 0xF8 = byte c div 8 * 8"
    "and (byte c) 0xFC = byte c div 4 * 4" "and (byte c) 0xFE = byte c div 2 * (2 :: nat)"
    using and_high_bits [of "byte c" 5 3] and_high_bits [of "byte c" 4 4] and_high_bits [of "byte c" 3 5]
      and_high_bits [of "byte c" 2 6] and_high_bits [of "byte c" 1 7]
    by (simp_all add: push_bit_eq_mult mask_eq_exp_minus_1)
  show ?thesis unfolding mb_num_chars_def a Let_def by (intro if_cong refl) auto
qed

lemma byte_char_of: "n < 256 \<Longrightarrow> byte (char_of n) = (n :: nat)"
  by simp

lemma char_of_byte: "n = byte c \<Longrightarrow> char_of (n :: nat) = c"
  by simp

lemma take_chars:
  "s \<noteq> [] \<Longrightarrow> take 1 s = [char_at s 0]" "1 < length s \<Longrightarrow> take 2 s = [char_at s 0, s ! 1]"
  "2 < length s \<Longrightarrow> take 3 s = [char_at s 0, s ! 1, s ! 2]"
  "3 < length s \<Longrightarrow> take 4 s = [char_at s 0, s ! 1, s ! 2, s ! 3]"
  by (auto simp: numeral_eq_Suc take_Suc_conv_app_nth char_at_def)

lemma radix_64: "y < 64 \<Longrightarrow> (x * 64 + y) div 64 = x \<and> (x * 64 + y) mod 64 = (y :: nat)"
  by simp

lemma div_64s: "n div 4096 = n div 64 div 64" "n div 262144 = n div 64 div 64 div (64 :: nat)"
  by (simp_all add: div_mult2_eq [symmetric])

text \<open>The sequences the tests accept are the encodings of the accepted code points.\<close>

lemma accept_2:
  assumes "byte c0 div 32 = (6 :: nat)" and "mb_is_cont c1" and "\<not> byte c0 div 2 = (0x60 :: nat)"
  shows "\<exists>cp. utf8_cp cp \<and> utf8_encode cp = [c0, c1]"
proof -
  define a b where "a = (byte c0 :: nat) - 192" and "b = (byte c1 :: nat) - 128"
  have r: "byte c0 = 192 + a" "a < 32" "2 \<le> a" "byte c1 = 128 + b" "b < 64"
    using assms unfolding mb_is_cont_def a_def b_def by linarith+
  define cp where "cp = a * 64 + b"
  have e: "cp div 64 = a" "cp mod 64 = b" using radix_64 [OF r(5), of a] unfolding cp_def by simp_all
  have l: "128 \<le> cp" "cp < 2048" using r unfolding cp_def by linarith+
  have "utf8_encode cp = [c0, c1]" using e l r by (simp add: utf8_encode_def char_of_byte)
  moreover have "utf8_cp cp" using l by (simp add: utf8_cp_def)
  ultimately show ?thesis by blast
qed

lemma accept_3:
  assumes "byte c0 div 16 = (14 :: nat)" and "mb_is_cont c1" and "mb_is_cont c2"
    and "\<not> (byte c0 = (0xE0 :: nat) \<and> byte c1 div 32 = (4 :: nat))"
    and "\<not> (byte c0 = (0xED :: nat) \<and> 0xA0 \<le> byte c1 \<and> byte c1 \<le> (0xBF :: nat))"
    and "\<not> (byte c0 = (0xEF :: nat) \<and> byte c1 = (0xBF :: nat) \<and> 0xBE \<le> byte c2 \<and> byte c2 \<le> (0xBF :: nat))"
  shows "\<exists>cp. utf8_cp cp \<and> utf8_encode cp = [c0, c1, c2]"
proof -
  define a b d where "a = (byte c0 :: nat) - 224" and "b = (byte c1 :: nat) - 128" and "d = (byte c2 :: nat) - 128"
  have r: "byte c0 = 224 + a" "a < 16" "byte c1 = 128 + b" "b < 64" "byte c2 = 128 + d" "d < 64"
    using assms(1-3) unfolding mb_is_cont_def a_def b_def d_def by linarith+
  define cp where "cp = (a * 64 + b) * 64 + d"
  have e: "cp div 64 = a * 64 + b" "cp mod 64 = d" using radix_64 [OF r(6), of "a * 64 + b"] unfolding cp_def by blast+
  then have "cp div 4096 = a" "cp div 64 mod 64 = b" using radix_64 [OF r(4)] by (simp_all add: div_64s)
  moreover have "a = 0 \<longrightarrow> 32 \<le> b" using assms(4) r by auto
  then have "32 \<le> a * 64 + b" by (cases a) auto
  then have l: "2048 \<le> cp" "cp < 65536" using r by (simp_all add: cp_def)
  ultimately have "utf8_encode cp = [c0, c1, c2]"
    using e(2) r by (simp add: utf8_encode_def char_of_byte)
  moreover have "\<not> (55296 \<le> cp \<and> cp \<le> 57343)"
  proof
    assume "55296 \<le> cp \<and> cp \<le> 57343"
    then have "a = 13" using r by (simp add: cp_def)
    moreover from this \<open>55296 \<le> cp \<and> cp \<le> 57343\<close> have "32 \<le> b" using r by (simp add: cp_def)
    ultimately show False using assms(5) r by simp
  qed
  moreover have "cp \<noteq> 65534 \<and> cp \<noteq> 65535"
  proof (rule ccontr)
    assume "\<not> (cp \<noteq> 65534 \<and> cp \<noteq> 65535)"
    then have "4096 * a + b * 64 + d = 65534 \<or> 4096 * a + b * 64 + d = 65535" by (simp add: cp_def)
    then have "a = 15" "b = 63" "62 \<le> d" using r by linarith+
    with assms(6) r show False by simp
  qed
  ultimately have "utf8_cp cp \<and> utf8_encode cp = [c0, c1, c2]" using l by (simp add: utf8_cp_def)
  then show ?thesis by blast
qed

lemma accept_4:
  assumes "byte c0 div 8 = (30 :: nat)" and "mb_is_cont c1" and "mb_is_cont c2" and "mb_is_cont c3"
    and "\<not> (byte c0 = (0xF0 :: nat) \<and> byte c1 div 16 = (8 :: nat))"
  shows "\<exists>cp. utf8_cp cp \<and> utf8_encode cp = [c0, c1, c2, c3]"
proof -
  define a b d e where "a = (byte c0 :: nat) - 240" and "b = (byte c1 :: nat) - 128" and "d = (byte c2 :: nat) - 128"
    and "e = (byte c3 :: nat) - 128"
  have r: "byte c0 = 240 + a" "a < 8" "byte c1 = 128 + b" "b < 64" "byte c2 = 128 + d" "d < 64" "byte c3 = 128 + e" "e < 64"
    using assms(1-4) unfolding mb_is_cont_def a_def b_def d_def e_def by linarith+
  define cp where "cp = ((a * 64 + b) * 64 + d) * 64 + e"
  have q: "cp div 64 = (a * 64 + b) * 64 + d" "cp mod 64 = e" using radix_64 [OF r(8), of "(a * 64 + b) * 64 + d"] unfolding cp_def by blast+
  then have q2: "cp div 4096 = a * 64 + b" "cp div 64 mod 64 = d" using radix_64 [OF r(6)] by (simp_all only: div_64s)
  then have "cp div 262144 = a" "cp div 4096 mod 64 = b" using radix_64 [OF r(4)] by (simp_all add: div_64s)
  moreover have "a = 0 \<longrightarrow> 16 \<le> b" using assms(5) r by auto
  then have "16 \<le> a * 64 + b" by (cases a) auto
  then have l: "65536 \<le> cp" "cp < 2097152" using r by (simp_all add: cp_def)
  ultimately have "utf8_encode cp = [c0, c1, c2, c3]"
    using q(2) q2(2) r by (simp add: utf8_encode_def char_of_byte)
  moreover have "utf8_cp cp" using l by (simp add: utf8_cp_def)
  ultimately show ?thesis by blast
qed

lemma ascii_cp: "1 \<le> byte c \<Longrightarrow> byte c \<le> (0x7F :: nat) \<Longrightarrow> utf8_cp (byte c) \<and> utf8_encode (byte c) = [c]"
  by (simp add: utf8_cp_def utf8_encode_def)

lemma utf8_step_sound:
  assumes "s \<noteq> []"
  shows "\<exists>cp. utf8_cp cp \<and> utf8_encode cp = fst (utf8_step s)"
proof -
  let ?c = "char_at s 0" and ?n = "mb_num_chars (char_at s 0)"
  let ?good = "?n \<noteq> 5 \<and> ?n \<noteq> 6 \<and> mb_count s ?n 1 = ?n \<and> mb_is_shortest s ?n \<and> \<not> mb_is_surrogate s ?n \<and> \<not> mb_is_illegal s ?n"
  have q: "\<exists>cp. utf8_cp cp \<and> utf8_encode cp = ''?''" using ascii_cp [of "CHR ''?''"] by auto
  consider (ascii) "1 \<le> byte ?c \<and> byte ?c \<le> (0x7F :: nat)" | (bad) "\<not> (1 \<le> byte ?c \<and> byte ?c \<le> (0x7F :: nat))" "\<not> (1 < ?n \<and> ?good)"
    | (good) "\<not> (1 \<le> byte ?c \<and> byte ?c \<le> (0x7F :: nat))" "1 < ?n" "?good" by blast
  then show ?thesis
  proof cases
    case ascii
    then have "fst (utf8_step s) = [?c]" by (simp add: utf8_step_def Let_def)
    with ascii_cp [of ?c] ascii show ?thesis by metis
  next
    case bad
    then have "fst (utf8_step s) = ''?''" unfolding utf8_step_def Let_def if_not_P [OF bad(1)] by auto
    with q show ?thesis by simp
  next
    case good
    then have st: "fst (utf8_step s) = take ?n s" unfolding utf8_step_def Let_def if_not_P [OF good(1)] by simp
    have cont: "i < length s \<and> mb_is_cont (s ! i)" if "1 \<le> i" "i < ?n" for i
      using mb_count_conts [of 1 i s ?n] good(3) that by simp
    have c0: "char_at s i = s ! i" if "i < length s" for i using that by simp
    have s6: "drop_bit 6 (byte c) = (2 :: nat)" if "mb_is_cont c" for c
      using that unfolding mb_is_cont_def by (simp add: drop_bit_eq_div, linarith)
    from good(2,3) consider "?n = 2" | "?n = 3" | "?n = 4" by (auto simp: mb_num_chars_def split: if_splits)
    then show ?thesis
    proof cases
      case 1
      with cont [of 1] have c: "1 < length s" "mb_is_cont (s ! 1)" by auto
      from 1 have "byte ?c div 32 = (6 :: nat)" by (simp add: mb_num_chars_div Let_def split: if_splits)
      moreover have "\<not> byte ?c div 2 = (0x60 :: nat)"
        using good(3) 1 s6 [OF c(2)] c(1) by (simp add: mb_is_shortest_def drop_bit_eq_div)
      ultimately show ?thesis using accept_2 [of ?c "s ! 1"] c take_chars(2) [of s] st 1 by simp
    next
      case 2
      with cont [of 1] cont [of 2] have c: "2 < length s" "mb_is_cont (s ! 1)" "mb_is_cont (s ! 2)" by auto
      from 2 have "byte ?c div 16 = (14 :: nat)" by (simp add: mb_num_chars_div Let_def split: if_splits)
      moreover have "\<not> (byte ?c = (0xE0 :: nat) \<and> byte (s ! 1) div 32 = (4 :: nat))"
        using good(3) 2 s6 [OF c(3)] c(1) by (auto simp: mb_is_shortest_def drop_bit_eq_div)
      moreover have "\<not> (byte ?c = (0xED :: nat) \<and> 0xA0 \<le> byte (s ! 1) \<and> byte (s ! 1) \<le> (0xBF :: nat))"
        using good(3) 2 c(1) by (simp add: mb_is_surrogate_def)
      moreover have "\<not> (byte ?c = (0xEF :: nat) \<and> byte (s ! 1) = (0xBF :: nat) \<and> 0xBE \<le> byte (s ! 2) \<and> byte (s ! 2) \<le> (0xBF :: nat))"
        using good(3) 2 c(1) by (simp add: mb_is_illegal_def)
      ultimately show ?thesis using accept_3 [OF _ c(2,3), of ?c] c(1) take_chars(3) [of s] st 2 by (simp only:) metis
    next
      case 3
      with cont [of 1] cont [of 2] cont [of 3] have c: "3 < length s" "mb_is_cont (s ! 1)" "mb_is_cont (s ! 2)" "mb_is_cont (s ! 3)" by auto
      from 3 have "byte ?c div 8 = (30 :: nat)" by (simp add: mb_num_chars_div Let_def split: if_splits)
      moreover have "\<not> (byte ?c = (0xF0 :: nat) \<and> byte (s ! 1) div 16 = (8 :: nat))"
        using good(3) 3 s6 [OF c(3)] s6 [OF c(4)] c(1) by (auto simp: mb_is_shortest_def drop_bit_eq_div)
      ultimately show ?thesis using accept_4 [OF _ c(2-4), of ?c] c(1) take_chars(4) [of s] st 3 by (simp only:) metis
    qed
  qed
qed

text \<open>Conversely, the encoding of an accepted code point passes the tests.\<close>

lemma utf8_encode_first: "utf8_cp cp \<Longrightarrow> utf8_encode cp \<noteq> [] \<and> \<not> mb_is_cont (hd (utf8_encode cp))"
  by (auto simp: utf8_encode_def utf8_cp_def mb_is_cont_def)

lemma mb_count_encode:
  assumes "list_all mb_is_cont cs" and "rest = [] \<or> \<not> mb_is_cont (hd rest)"
  shows "mb_count ((c # cs) @ rest) (Suc (length cs)) 1 = Suc (length cs)"
proof (rule mb_count_stop)
  fix i assume "1 \<le> i" "i < Suc (length cs)"
  then obtain j where "i = Suc j" "j < length cs" by (cases i) auto
  then show "i < length ((c # cs) @ rest) \<and> mb_is_cont (((c # cs) @ rest) ! i)"
    using assms(1) by (simp add: nth_append list_all_length)
next
  show "length ((c # cs) @ rest) \<le> Suc (length cs) \<or> \<not> mb_is_cont (((c # cs) @ rest) ! Suc (length cs))"
    using assms(2) by (auto simp: nth_append hd_conv_nth)
qed auto

lemma utf8_step_good:
  assumes "mb_num_chars c = Suc (length cs)" and "2 \<le> Suc (length cs)" and "Suc (length cs) \<le> 4" and "128 \<le> byte c"
    and "list_all mb_is_cont cs" and "rest = [] \<or> \<not> mb_is_cont (hd rest)"
    and "mb_is_shortest ((c # cs) @ rest) (Suc (length cs))" and "\<not> mb_is_surrogate ((c # cs) @ rest) (Suc (length cs))"
    and "\<not> mb_is_illegal ((c # cs) @ rest) (Suc (length cs))"
  shows "utf8_step ((c # cs) @ rest) = (c # cs, length (c # cs))"
proof -
  have "\<not> (1 \<le> byte c \<and> byte c \<le> (127 :: nat))" using assms(4) by simp
  moreover have "char_at ((c # cs) @ rest) 0 = c" by simp
  moreover have "take (Suc (length cs)) ((c # cs) @ rest) = c # cs" by simp
  ultimately show ?thesis
    using assms(1-3,7-9) mb_count_encode [OF assms(5,6), of c] unfolding utf8_step_def Let_def by auto
qed

lemma cont_char: "n < 64 \<Longrightarrow> mb_is_cont (char_of (128 + n :: nat))"
  by (simp add: mb_is_cont_def)

lemma utf8_step_2:
  assumes "mb_num_chars c = 2" and "128 \<le> byte c" and "mb_is_cont x" and "rest = [] \<or> \<not> mb_is_cont (hd rest)"
    and "byte c div 2 \<noteq> (96 :: nat)"
  shows "utf8_step ([c, x] @ rest) = ([c, x], 2)"
proof -
  have "mb_is_shortest ([c, x] @ rest) 2" "\<not> mb_is_surrogate ([c, x] @ rest) 2" "\<not> mb_is_illegal ([c, x] @ rest) 2"
    using assms(5) by (simp_all add: mb_is_shortest_def mb_is_surrogate_def mb_is_illegal_def drop_bit_eq_div)
  with utf8_step_good [of c "[x]" rest] assms(1-4) show ?thesis by (simp add: numeral_2_eq_2)
qed

lemma utf8_step_3:
  assumes "mb_num_chars c = 3" and "128 \<le> byte c" and "mb_is_cont x" and "mb_is_cont y" and "rest = [] \<or> \<not> mb_is_cont (hd rest)"
    and "byte c = (224 :: nat) \<longrightarrow> byte x div 32 \<noteq> (4 :: nat)" and "byte c = (237 :: nat) \<longrightarrow> byte x < (160 :: nat)"
    and "byte c = (239 :: nat) \<longrightarrow> byte x = (191 :: nat) \<longrightarrow> byte y < (190 :: nat)"
  shows "utf8_step ([c, x, y] @ rest) = ([c, x, y], 3)"
proof -
  have "mb_is_shortest ([c, x, y] @ rest) 3" "\<not> mb_is_surrogate ([c, x, y] @ rest) 3" "\<not> mb_is_illegal ([c, x, y] @ rest) 3"
    using assms(6-8) by (auto simp: mb_is_shortest_def mb_is_surrogate_def mb_is_illegal_def drop_bit_eq_div)
  with utf8_step_good [of c "[x, y]" rest] assms(1-5) show ?thesis by (simp add: numeral_3_eq_3)
qed

lemma utf8_step_4:
  assumes "mb_num_chars c = 4" and "128 \<le> byte c" and "mb_is_cont x" and "mb_is_cont y" and "mb_is_cont z"
    and "rest = [] \<or> \<not> mb_is_cont (hd rest)" and "byte c = (240 :: nat) \<longrightarrow> byte x div 16 \<noteq> (8 :: nat)"
  shows "utf8_step ([c, x, y, z] @ rest) = ([c, x, y, z], 4)"
proof -
  have "mb_is_shortest ([c, x, y, z] @ rest) 4" "\<not> mb_is_surrogate ([c, x, y, z] @ rest) 4" "\<not> mb_is_illegal ([c, x, y, z] @ rest) 4"
    using assms(7) by (auto simp: mb_is_shortest_def mb_is_surrogate_def mb_is_illegal_def drop_bit_eq_div)
  moreover have "4 = Suc (Suc (Suc (Suc 0)))" by simp
  ultimately show ?thesis using utf8_step_good [of c "[x, y, z]" rest] assms(1-6) by simp
qed

lemma utf8_step_complete:
  assumes "utf8_cp cp" and rest: "rest = [] \<or> \<not> mb_is_cont (hd rest)"
  shows "utf8_step (utf8_encode cp @ rest) = (utf8_encode cp, length (utf8_encode cp))"
proof -
  let ?d = "cp mod 64" and ?b = "cp div 64 mod 64" and ?a = "cp div 4096 mod 64"
  have cp: "0 < cp" "cp < 2097152" using assms(1) by (simp_all add: utf8_cp_def)
  consider "cp < 128" | "128 \<le> cp" "cp < 2048" | "2048 \<le> cp" "cp < 65536" | "65536 \<le> cp" by linarith
  then show ?thesis
  proof cases
    case 1
    with cp show ?thesis by (simp add: utf8_encode_def utf8_step_def)
  next
    case 2
    let ?c = "char_of (192 + cp div 64)"
    have e: "utf8_encode cp = [?c, char_of (128 + ?d)]" using 2 by (simp add: utf8_encode_def)
    have r: "2 \<le> cp div 64" "cp div 64 < 32" using 2 by linarith+
    then have bc: "byte ?c = 192 + cp div 64" by simp
    have q: "(192 + cp div 64) div 32 = 6" "(192 + cp div 64) div 2 \<noteq> 96" using r by linarith+
    then have n: "mb_num_chars ?c = 2" unfolding mb_num_chars_div Let_def bc by simp
    have "128 \<le> byte ?c" unfolding bc by simp
    moreover have "byte ?c div 2 \<noteq> (96 :: nat)" unfolding bc by (rule q(2))
    ultimately have "utf8_step ([?c, char_of (128 + ?d)] @ rest) = ([?c, char_of (128 + ?d)], 2)"
      by (intro utf8_step_2 [OF n _ cont_char rest]) simp_all
    then show ?thesis unfolding e by simp
  next
    case 3
    define a b d where "a = cp div 4096" and "b = ?b" and "d = ?d"
    let ?c = "char_of (224 + a)"
    have e: "utf8_encode cp = [?c, char_of (128 + b), char_of (128 + d)]" using 3 by (simp add: utf8_encode_def a_def b_def d_def)
    have r: "a < 16" "b < 64" "d < 64" using 3 unfolding a_def b_def d_def by simp_all
    have "cp = 64 * (cp div 64) + d" "cp div 64 = 64 * a + b" unfolding a_def b_def d_def div_64s by simp_all
    then have eq: "cp = 4096 * a + 64 * b + d" by linarith
    have bc: "byte ?c = 224 + a" "byte (char_of (128 + b)) = 128 + b" "byte (char_of (128 + d)) = 128 + d" using r by simp_all
    have "(224 + a) div 32 = 7" "(224 + a) div 16 = 14" using r by linarith+
    then have n: "mb_num_chars ?c = 3" unfolding mb_num_chars_div Let_def bc by simp
    have "a = 0 \<longrightarrow> 32 \<le> b" using 3(1) eq r by linarith
    then have sh: "a = 0 \<longrightarrow> (128 + b) div 32 \<noteq> 4" by linarith
    have su: "\<not> (a = 13 \<and> 32 \<le> b)" "\<not> (a = 15 \<and> b = 63 \<and> 62 \<le> d)" using assms(1) eq r by (auto simp: utf8_cp_def)
    have "utf8_step ([?c, char_of (128 + b), char_of (128 + d)] @ rest) = ([?c, char_of (128 + b), char_of (128 + d)], 3)"
      by (rule utf8_step_3 [OF n _ cont_char [OF r(2)] cont_char [OF r(3)] rest]; unfold bc) (use sh su in auto)
    then show ?thesis unfolding e by simp
  next
    case 4
    define a b d g where "a = cp div 262144" and "b = ?a" and "d = ?b" and "g = ?d"
    let ?c = "char_of (240 + a)"
    have e: "utf8_encode cp = [?c, char_of (128 + b), char_of (128 + d), char_of (128 + g)]"
      using 4 by (simp add: utf8_encode_def a_def b_def d_def g_def)
    have r: "a < 8" "b < 64" "d < 64" "g < 64" using cp unfolding a_def b_def d_def g_def by simp_all
    have bc: "byte ?c = 240 + a" "byte (char_of (128 + b)) = 128 + b" using r by simp_all
    have "(240 + a) div 32 = 7" "(240 + a) div 16 = 15" "(240 + a) div 8 = 30" using r by linarith+
    then have n: "mb_num_chars ?c = 4" unfolding mb_num_chars_div Let_def bc by simp
    have "a = 0 \<longrightarrow> 16 \<le> b"
    proof
      assume "a = 0"
      then have "cp div 4096 < 64" unfolding a_def by linarith
      then have "b = cp div 4096" unfolding b_def by simp
      with 4 show "16 \<le> b" by linarith
    qed
    then have sh: "a = 0 \<longrightarrow> (128 + b) div 16 \<noteq> 8" by linarith
    have "utf8_step ([?c, char_of (128 + b), char_of (128 + d), char_of (128 + g)] @ rest) =
        ([?c, char_of (128 + b), char_of (128 + d), char_of (128 + g)], 4)"
      by (rule utf8_step_4 [OF n _ cont_char [OF r(2)] cont_char [OF r(3)] cont_char [OF r(4)] rest]; unfold bc) (use sh in auto)
    then show ?thesis unfolding e by simp
  qed
qed

section \<open>Properties of the sanitizers\<close>

text \<open>The first code point of a sequence, by which an encoding is read back.\<close>

definition utf8_value :: "string \<Rightarrow> nat" where
  "utf8_value s = (let b = (\<lambda>i. byte (char_at s i) :: nat) in
     if b 0 < 128 then b 0
     else if b 0 < 224 then (b 0 - 192) * 64 + (b 1 - 128)
     else if b 0 < 240 then ((b 0 - 224) * 64 + (b 1 - 128)) * 64 + (b 2 - 128)
     else (((b 0 - 240) * 64 + (b 1 - 128)) * 64 + (b 2 - 128)) * 64 + (b 3 - 128))"

lemma radix_64_join: "n div 64 * 64 + n mod 64 = (n :: nat)"
  by (rule div_mult_mod_eq)

lemma utf8_value_encode:
  assumes "cp < 0x200000"
  shows "utf8_value (utf8_encode cp @ r) = cp"
proof -
  consider "cp < 128" | "128 \<le> cp" "cp < 2048" | "2048 \<le> cp" "cp < 65536" | "65536 \<le> cp" by linarith
  then show ?thesis
  proof cases
    case 1
    then show ?thesis by (simp add: utf8_value_def utf8_encode_def)
  next
    case 2
    then have "cp div 64 < 32" by linarith
    with 2 show ?thesis using radix_64_join [of cp] by (simp add: utf8_value_def utf8_encode_def)
  next
    case 3
    then have "cp div 64 div 64 < 16" by linarith
    with 3 show ?thesis using radix_64_join [of cp] radix_64_join [of "cp div 64"] by (simp add: utf8_value_def utf8_encode_def div_64s)
  next
    case 4
    then have "cp div 64 div 64 div 64 < 8" using assms by linarith
    with 4 show ?thesis using radix_64_join [of cp] radix_64_join [of "cp div 64"] radix_64_join [of "cp div 64 div 64"]
      by (simp add: utf8_value_def utf8_encode_def div_64s)
  qed
qed

text \<open>A sequence is the encoding of at most one list of code points.\<close>

lemma utf8_encode_not_Nil: "utf8_encode cp \<noteq> []"
  by (simp add: utf8_encode_def)

lemma utf8_unique:
  assumes "list_all (\<lambda>cp. cp < 0x200000) as" and "list_all (\<lambda>cp. cp < 0x200000) bs"
    and "concat (map utf8_encode as) = concat (map utf8_encode bs)"
  shows "as = bs"
  using assms
proof (induction as arbitrary: bs)
  case Nil
  then show ?case by (cases bs) (simp_all add: utf8_encode_not_Nil)
next
  case (Cons a as)
  obtain b bs' where bs: "bs = b # bs'" using Cons.prems(3) by (cases bs) (simp_all add: utf8_encode_not_Nil)
  have eq: "utf8_encode a @ concat (map utf8_encode as) = utf8_encode b @ concat (map utf8_encode bs')"
    using Cons.prems(3) bs by simp
  have "a = b" using arg_cong [OF eq, of utf8_value] utf8_value_encode [of a] utf8_value_encode [of b] Cons.prems(1,2) bs by simp
  with eq Cons bs show ?case by simp
qed

lemma utf8_cp_scalar: "utf8_cp cp \<Longrightarrow> unicode_scalar cp \<longleftrightarrow> cp \<le> 0x10FFFF"
  by (auto simp: utf8_cp_def unicode_scalar_def)

lemma lax_well_formed:
  assumes "list_all utf8_cp cps"
  shows "well_formed_utf8 (concat (map utf8_encode cps)) \<longleftrightarrow> list_all (\<lambda>cp. cp \<le> 0x10FFFF) cps"
proof
  assume "well_formed_utf8 (concat (map utf8_encode cps))"
  then obtain cs where cs: "list_all unicode_scalar cs" "concat (map utf8_encode cps) = concat (map utf8_encode cs)"
    by (auto simp: well_formed_utf8_def)
  have "list_all (\<lambda>cp. cp < 0x200000) cps" using assms by (auto simp: list_all_iff utf8_cp_def)
  moreover have "list_all (\<lambda>cp. cp < 0x200000) cs" using cs(1) by (auto simp: list_all_iff unicode_scalar_def)
  ultimately have "cps = cs" using cs(2) by (rule utf8_unique)
  with cs(1) assms show "list_all (\<lambda>cp. cp \<le> 0x10FFFF) cps" using utf8_cp_scalar by (auto simp: list_all_iff)
next
  assume "list_all (\<lambda>cp. cp \<le> 0x10FFFF) cps"
  with assms have "list_all unicode_scalar cps" using utf8_cp_scalar by (auto simp: list_all_iff)
  then show "well_formed_utf8 (concat (map utf8_encode cps))" by (auto simp: well_formed_utf8_def)
qed

text \<open>What a step puts out is a question mark or part of the source.\<close>

lemma utf8_step_from: "fst (utf8_step s) = ''?'' \<or> prefix (fst (utf8_step s)) s \<or> s = []"
proof (cases s)
  case (Cons c t)
  then show ?thesis by (auto simp: utf8_step_def Let_def take_is_prefix)
qed simp

lemma utf8_clean_points:
  "\<exists>cps. list_all utf8_cp cps \<and> utf8_clean s = concat (map utf8_encode cps) \<and>
     (\<forall>cp\<in>set cps. cp = 63 \<or> sublist (utf8_encode cp) s)"
proof (induction s rule: utf8_clean.induct)
  case (1 s)
  show ?case
  proof (cases "s = []")
    case True
    then show ?thesis by (intro exI [of _ "[]"]) (simp add: utf8_clean.simps)
  next
    case False
    let ?r = "drop (snd (utf8_step s)) s"
    from 1 [OF False] obtain cps where cps: "list_all utf8_cp cps" "utf8_clean ?r = concat (map utf8_encode cps)"
      "\<forall>cp\<in>set cps. cp = 63 \<or> sublist (utf8_encode cp) ?r" by blast
    from utf8_step_sound [OF False] obtain cp where cp: "utf8_cp cp" "utf8_encode cp = fst (utf8_step s)" by blast
    have "cp = 63 \<or> sublist (utf8_encode cp) s"
    proof (cases "fst (utf8_step s) = ''?''")
      case True
      have "char_of (63 :: nat) = CHR ''?''" by (rule char_of_byte) simp
      then have "utf8_encode 63 = ''?''" by (simp add: utf8_encode_def)
      then have "utf8_encode cp = utf8_encode 63" using cp(2) True by simp
      then have "cp = 63" using utf8_value_encode [of cp "[]"] utf8_value_encode [of 63 "[]"] cp(1) by (simp add: utf8_cp_def)
      then show ?thesis ..
    next
      case ne: False
      with utf8_step_from [of s] False cp(2) show ?thesis by auto
    qed
    moreover have "sublist ?r s" by (metis append_take_drop_id sublist_append_leftI)
    then have "\<forall>cp\<in>set cps. cp = 63 \<or> sublist (utf8_encode cp) s" using cps(3) sublist_order.order_trans by blast
    moreover have "utf8_clean s = concat (map utf8_encode (cp # cps))" using cps(2) cp(2) False by (subst utf8_clean.simps) simp
    ultimately show ?thesis using cps(1) cp(1) by (intro exI [of _ "cp # cps"]) simp
  qed
qed

lemma utf8_clean_text: "utf8_text (utf8_clean s)"
  using utf8_clean_points [of s] by (auto simp: utf8_text_def)

lemma utf8_rest: "list_all utf8_cp cps \<Longrightarrow> concat (map utf8_encode cps) = [] \<or> \<not> mb_is_cont (hd (concat (map utf8_encode cps)))"
  by (cases cps) (auto dest: utf8_encode_first simp: hd_append)

lemma utf8_clean_id: "utf8_text s \<Longrightarrow> utf8_clean s = s"
proof -
  have "list_all utf8_cp cps \<Longrightarrow> utf8_clean (concat (map utf8_encode cps)) = concat (map utf8_encode cps)" for cps
  proof (induction cps)
    case (Cons cp cps)
    then have st: "utf8_step (utf8_encode cp @ concat (map utf8_encode cps)) = (utf8_encode cp, length (utf8_encode cp))"
      using utf8_rest [of cps] by (intro utf8_step_complete) auto
    have "utf8_encode cp \<noteq> []" using Cons.prems utf8_encode_first by simp
    with Cons st show ?case by (subst utf8_clean.simps) simp
  qed (simp add: utf8_clean.simps)
  then show "utf8_text s \<Longrightarrow> utf8_clean s = s" by (auto simp: utf8_text_def)
qed

lemma NUL_notin_encode: "utf8_cp cp \<Longrightarrow> NUL \<notin> set (utf8_encode cp)"
proof -
  assume cp: "utf8_cp cp"
  have "NUL \<noteq> char_of n" if "0 < n" "n < 256" for n :: nat
  proof
    assume "NUL = char_of n"
    then have "byte NUL = (byte (char_of n) :: nat)" by (rule arg_cong)
    with that show False by simp
  qed
  moreover have "\<forall>n\<in>set (if cp < 0x80 then [cp]
      else if cp < 0x800 then [0xC0 + cp div 64, 0x80 + cp mod 64]
      else if cp < 0x10000 then [0xE0 + cp div 4096, 0x80 + cp div 64 mod 64, 0x80 + cp mod 64]
      else [0xF0 + cp div 262144, 0x80 + cp div 4096 mod 64, 0x80 + cp div 64 mod 64, 0x80 + cp mod 64]). 0 < n \<and> n < 256"
    using cp by (auto simp: utf8_cp_def)
  ultimately show ?thesis unfolding utf8_encode_def set_map by blast
qed

lemma NUL_notin_text: "utf8_text s \<Longrightarrow> NUL \<notin> set s"
proof -
  assume "utf8_text s"
  then obtain cps where "list_all utf8_cp cps" "s = concat (map utf8_encode cps)" by (auto simp: utf8_text_def)
  then show ?thesis using NUL_notin_encode by (induction cps arbitrary: s) auto
qed

text \<open>The three scalar values the code rejects are replaced as a whole.\<close>

lemma utf8_step_rejected:
  assumes "cp \<in> {0, 0xFFFE, 0xFFFF}" and "rest = [] \<or> \<not> mb_is_cont (hd rest)"
  shows "utf8_step (utf8_encode cp @ rest) = (''?'', length (utf8_encode cp))"
proof (cases "cp = 0")
  case True
  then show ?thesis by (simp add: utf8_encode_def utf8_step_def mb_num_chars_def Let_def)
next
  case False
  define c x y where "c = CHR 0xEF" and "x = CHR 0xBF" and "y = (char_of (128 + cp mod 64) :: char)"
  have e: "utf8_encode cp = [c, x, y]" using assms(1) False by (auto simp: utf8_encode_def c_def x_def y_def char_of_byte)
  have n: "mb_num_chars c = 3" by (simp add: c_def mb_num_chars_div)
  have cont: "mb_is_cont x" "mb_is_cont y" by (auto simp: mb_is_cont_def x_def y_def)
  have "byte y \<in> {0xBE :: nat, 0xBF}" using assms(1) False by (auto simp: y_def)
  then have ill: "mb_is_illegal ([c, x, y] @ rest) 3" by (auto simp: mb_is_illegal_def c_def x_def)
  have "mb_count ([c, x, y] @ rest) 3 1 = 3"
    using mb_count_encode [of "[x, y]" rest c] cont assms(2) by (simp add: numeral_3_eq_3)
  moreover have "char_at ([c, x, y] @ rest) 0 = c" by simp
  moreover have "\<not> (1 \<le> byte c \<and> byte c \<le> (0x7F :: nat))" by (simp add: c_def)
  ultimately have "utf8_step ([c, x, y] @ rest) = (''?'', 3)" using n ill unfolding utf8_step_def Let_def by simp
  then show ?thesis unfolding e by simp
qed

definition utf8_shown :: "nat \<Rightarrow> string" where
  "utf8_shown cp = (if cp \<in> {0, 0xFFFE, 0xFFFF} then ''?'' else utf8_encode cp)"

lemma utf8_scalar_rest:
  "list_all unicode_scalar cps \<Longrightarrow> concat (map utf8_encode cps) = [] \<or> \<not> mb_is_cont (hd (concat (map utf8_encode cps)))"
  by (cases cps) (auto simp: utf8_encode_def mb_is_cont_def unicode_scalar_def hd_append)

lemma utf8_clean_scalars:
  "list_all unicode_scalar cps \<Longrightarrow> utf8_clean (concat (map utf8_encode cps)) = concat (map utf8_shown cps)"
proof (induction cps)
  case (Cons cp cps)
  note rest = utf8_scalar_rest [of cps]
  have st: "utf8_step (utf8_encode cp @ concat (map utf8_encode cps)) = (utf8_shown cp, length (utf8_encode cp))"
  proof (cases "cp \<in> {0, 0xFFFE, 0xFFFF}")
    case True
    with utf8_step_rejected [OF True rest] Cons.prems show ?thesis by (simp add: utf8_shown_def)
  next
    case False
    then have "utf8_cp cp" using Cons.prems by (auto simp: utf8_cp_def unicode_scalar_def)
    with utf8_step_complete [OF this rest] Cons.prems False show ?thesis by (simp add: utf8_shown_def)
  qed
  with Cons show ?case by (subst utf8_clean.simps) (simp add: utf8_encode_not_Nil)
qed (simp add: utf8_clean.simps)

lemma sanitize_utf8_clean:
  assumes "heap_ok hp" and "length s \<le> buf_max"
  shows "\<exists>b. buf_init hp = Some b \<and> \<not> tb_fault (sanitize_utf8_loop hp s b) \<and> sanitize_utf8 hp s = Some (utf8_clean s)"
proof -
  from buf_init_ok [OF assms(1)] obtain b where b: "buf_init hp = Some b" "buf_inv b" "buf_text b = []" by blast
  have "length (buf_text b) + length (utf8_clean s) \<le> buf_max" using utf8_clean_length [of s] assms(2) b(3) by simp
  note l = sanitize_utf8_loop_text [OF assms(1) b(2) this]
  then have "buf_destroy (sanitize_utf8_loop hp s b) = utf8_clean s"
    using buf_destroy_text NUL_notin_text [OF utf8_clean_text] b(3) by simp
  with l b(1) show ?thesis by (simp add: sanitize_utf8_def buf_inv_def)
qed

text \<open>
  C13: What \<open>sanitize_utf8\<close> makes of any bytes, against UTF-8 as Unicode defines it. The result is a
  sequence of encoded code points, each a question mark or encoded in the input, without NUL,
  surrogates and the noncharacters FFFE and FFFF; it is well-formed UTF-8 if and only if none of
  them is above 10FFFF, for up to 1FFFFF the code lets four-byte sequences pass. Well-formed input
  keeps every code point, except that NUL, FFFE and FFFF become question marks; so without these
  three it is returned unchanged. The result is returned unchanged when it is sanitized again. The
  buffer is never written outside its bounds, whatever the allocator leaves in new memory. The input
  is up to 2048 bytes shorter than 4 GiB, beyond which the size of the buffer overflows, and
  allocations succeed.
\<close>
theorem sanitize_utf8_spec:
  assumes "heap_ok hp" and "length s \<le> buf_max"
  shows "\<exists>b r cps. buf_init hp = Some b \<and> \<not> tb_fault (sanitize_utf8_loop hp s b) \<and> sanitize_utf8 hp s = Some r \<and>
    r = concat (map utf8_encode cps) \<and> list_all utf8_cp cps \<and> (\<forall>cp\<in>set cps. cp = 63 \<or> sublist (utf8_encode cp) s) \<and>
    (well_formed_utf8 r \<longleftrightarrow> list_all (\<lambda>cp. cp \<le> 0x10FFFF) cps) \<and>
    (\<forall>cs. list_all unicode_scalar cs \<and> s = concat (map utf8_encode cs) \<longrightarrow> r = concat (map utf8_shown cs)) \<and>
    sanitize_utf8 hp r = Some r"
proof -
  from sanitize_utf8_clean [OF assms] obtain b where b: "buf_init hp = Some b" "\<not> tb_fault (sanitize_utf8_loop hp s b)"
    "sanitize_utf8 hp s = Some (utf8_clean s)" by blast
  from utf8_clean_points [of s] obtain cps where cps: "list_all utf8_cp cps" "utf8_clean s = concat (map utf8_encode cps)"
    "\<forall>cp\<in>set cps. cp = 63 \<or> sublist (utf8_encode cp) s" by blast
  have "length (utf8_clean s) \<le> buf_max" using utf8_clean_length [of s] assms(2) by simp
  from sanitize_utf8_clean [OF assms(1) this] have "sanitize_utf8 hp (utf8_clean s) = Some (utf8_clean s)"
    using utf8_clean_id [OF utf8_clean_text [of s]] by auto
  moreover have "well_formed_utf8 (utf8_clean s) \<longleftrightarrow> list_all (\<lambda>cp. cp \<le> 0x10FFFF) cps"
    using lax_well_formed [OF cps(1)] cps(2) by simp
  moreover have "\<forall>cs. list_all unicode_scalar cs \<and> s = concat (map utf8_encode cs) \<longrightarrow> utf8_clean s = concat (map utf8_shown cs)"
    using utf8_clean_scalars by auto
  ultimately show ?thesis using b cps by (intro exI [of _ b] exI [of _ "utf8_clean s"] exI [of _ cps]) blast
qed

definition demo_heap :: heap where
  "demo_heap = \<lparr>hp_new = Some (replicate 1024 (CHR ''x'')), hp_more = \<lambda>n. Some (replicate 1024 (CHR ''y''))\<rparr>"

lemma demo_heap_ok: "heap_ok demo_heap"
  by (simp add: heap_ok_def demo_heap_def)

theorem sanitize_utf8_spec_witness:
  "\<exists>r. sanitize_utf8 demo_heap [CHR ''a'', CHR 0xC3, CHR 0xA9, NUL] = Some r \<and> r = [CHR ''a'', CHR 0xC3, CHR 0xA9, CHR ''?''] \<and>
     sanitize_utf8 demo_heap r = Some r"
proof -
  let ?s = "[CHR ''a'', CHR 0xC3, CHR 0xA9, NUL]" and ?cs = "[97, 233, 0] :: nat list"
  have e: "concat (map utf8_encode ?cs) = ?s" "concat (map utf8_shown ?cs) = [CHR ''a'', CHR 0xC3, CHR 0xA9, CHR ''?'']"
  proof -
    have "char_of (97 :: nat) = CHR ''a''" "char_of (195 :: nat) = CHR 0xC3" "char_of (169 :: nat) = CHR 0xA9"
      by (rule char_of_byte, simp)+
    moreover have "char_of (0 :: nat) = NUL" by (rule char_of_byte) simp
    ultimately show "concat (map utf8_encode ?cs) = ?s" "concat (map utf8_shown ?cs) = [CHR ''a'', CHR 0xC3, CHR 0xA9, CHR ''?'']"
      by (simp_all add: utf8_encode_def utf8_shown_def)
  qed
  have "list_all unicode_scalar ?cs" by (simp add: unicode_scalar_def)
  moreover have "length ?s \<le> buf_max" by (simp add: buf_max_def)
  ultimately show ?thesis using sanitize_utf8_spec [OF demo_heap_ok, of ?s] e by metis
qed

text \<open>A four-byte sequence above the Unicode range passes.\<close>

lemma utf8_clean_beyond: "utf8_clean [CHR 0xF5, CHR 0x80, CHR 0x80, CHR 0x80] = [CHR 0xF5, CHR 0x80, CHR 0x80, CHR 0x80]"
  by code_simp

text \<open>Reading numeric character references.\<close>

function xml_unescape :: "string \<Rightarrow> string" where
  "xml_unescape s = (case s of
      [] \<Rightarrow> []
    | c # t \<Rightarrow>
        if c = CHR ''&'' \<and> char_at t 0 = CHR ''#''
        then let ds = takeWhile isdigit (tl t) in char_of (digits_val 0 ds) # xml_unescape (drop (length ds + 2) t)
        else c # xml_unescape t)"
  by pat_completeness auto
termination by (relation "measure length") auto

declare xml_unescape.simps [simp del]

lemma xml_unescape_Nil [simp]: "xml_unescape [] = []"
  by (simp add: xml_unescape.simps)

lemma xml_unescape_plain: "c \<noteq> CHR ''&'' \<Longrightarrow> xml_unescape (c # t) = c # xml_unescape t"
  by (subst xml_unescape.simps) simp

lemma xml_unescape_plains: "CHR ''&'' \<notin> set w \<Longrightarrow> xml_unescape (w @ t) = w @ xml_unescape t"
  by (induction w) (auto simp: xml_unescape_plain)

lemma byte_eqD: "byte c = (byte d :: nat) \<Longrightarrow> c = d"
  by (simp only: of_char_eq_iff)

lemma xml_special_cases:
  assumes "xml_special c"
  obtains "c = CHR ''&''" | "c = CHR 0x27" | "c = CHR 0x22" | "c = CHR ''<''" | "c = CHR ''>''"
proof -
  from assms consider "byte c = (byte (CHR ''&'') :: nat)" | "byte c = (byte (CHR 0x27) :: nat)" | "byte c = (byte (CHR 0x22) :: nat)"
    | "byte c = (byte (CHR ''<'') :: nat)" | "byte c = (byte (CHR ''>'') :: nat)"
    unfolding xml_special_def by auto
  then show ?thesis by cases (drule byte_eqD, erule that)+
qed

lemma xml_escape_table:
  "xml_escape (CHR ''&'') = ''&#38;''" "xml_escape (CHR 0x27) = ''&#39;''" "xml_escape (CHR 0x22) = ''&#34;''"
  "xml_escape (CHR ''<'') = ''&#60;''" "xml_escape (CHR ''>'') = ''&#62;''"
  by code_simp+

lemma xml_unescape_ref:
  assumes "list_all isdigit ds"
  shows "xml_unescape (''&#'' @ ds @ '';'' @ t) = char_of (digits_val 0 ds) # xml_unescape t"
proof -
  have tw: "takeWhile isdigit (ds @ '';'' @ t) = ds"
    using assms by (induction ds) (auto simp: isdigit_def)
  show ?thesis
    using xml_unescape.simps [of "CHR ''&'' # CHR ''#'' # ds @ '';'' @ t"] tw by (simp add: Let_def)
qed

lemma xml_refs: "char_of (digits_val 0 ''38'') = CHR ''&''" "char_of (digits_val 0 ''39'') = CHR 0x27"
  "char_of (digits_val 0 ''34'') = CHR 0x22" "char_of (digits_val 0 ''60'') = CHR ''<''" "char_of (digits_val 0 ''62'') = CHR ''>''"
  by code_simp+

lemma xml_unescape_escape: "xml_special c \<Longrightarrow> xml_unescape (xml_escape c @ t) = c # xml_unescape t"
proof -
  assume "xml_special c"
  have d: "list_all isdigit ''38''" "list_all isdigit ''39''" "list_all isdigit ''34''" "list_all isdigit ''60''" "list_all isdigit ''62''"
    by (simp_all add: isdigit_def)
  note r = d [THEN xml_unescape_ref, of t, unfolded xml_refs]
  from \<open>xml_special c\<close> show ?thesis
    by (cases rule: xml_special_cases) (use r in \<open>simp_all add: xml_escape_table\<close>)
qed

lemma xml_escape_safe: "xml_special c \<Longrightarrow> list_all (\<lambda>x. \<not> xml_invalid x \<and> (xml_special x \<longrightarrow> x = CHR ''&'')) (xml_escape c)"
  by (cases rule: xml_special_cases) (auto simp: xml_escape_table xml_special_def xml_invalid_def)

text \<open>What \<open>sanitize_pcdata\<close> writes.\<close>

function pc_clean :: "string \<Rightarrow> string" where
  "pc_clean s =
     (if s = [] then []
      else if xml_invalid (hd s) then pc_clean (tl s)
      else if xml_special (hd s) then xml_escape (hd s) @ pc_clean (tl s)
      else if byte (hd s) \<le> (0x7F :: nat) then hd s # pc_clean (tl s)
      else fst (utf8_step s) @ pc_clean (drop (snd (utf8_step s)) s))"
  by pat_completeness auto
termination
proof (relation "measure length")
  fix s :: string assume "s \<noteq> []"
  then show "(drop (snd (utf8_step s)) s, s) \<in> measure length" using utf8_step_pos [of s] by simp
qed auto

declare pc_clean.simps [simp del]

lemma xml_escape_length: "xml_special c \<Longrightarrow> length (xml_escape c) = 5"
  by (cases rule: xml_special_cases) (auto simp: xml_escape_table)

lemma pc_clean_length: "length (pc_clean s) \<le> 5 * length s"
proof (induction s rule: pc_clean.induct)
  case (1 s)
  show ?case
  proof (cases "s = []")
    case ne: False
    then obtain c t where s: "s = c # t" by (cases s) auto
    show ?thesis
    proof (cases "xml_invalid (hd s) \<or> xml_special (hd s) \<or> byte (hd s) \<le> (0x7F :: nat)")
      case True
      then have "length (pc_clean t) \<le> 5 * length t" using 1(1-3) [OF ne] s by auto
      moreover have "length (pc_clean s) \<le> length (pc_clean t) + 5"
        using True ne s xml_escape_length [of "hd s"] by (subst pc_clean.simps) auto
      ultimately show ?thesis using s by simp
    next
      case False
      let ?v = "snd (utf8_step s)"
      have "length (utf8_encode cp) \<le> 4" for cp by (simp add: utf8_encode_def)
      then have "length (fst (utf8_step s)) \<le> 4" using utf8_step_sound [OF ne] by metis
      moreover have "length (pc_clean (drop ?v s)) \<le> 5 * length (drop ?v s)" using 1(4) [OF ne] False by blast
      moreover have "length (drop ?v s) < length s" using utf8_step_pos [of s] ne by simp
      ultimately have "length (fst (utf8_step s)) + length (pc_clean (drop ?v s)) \<le> 5 * length s" by linarith
      with False ne show ?thesis by (subst pc_clean.simps) simp
    qed
  qed (simp add: pc_clean.simps)
qed

lemma sanitize_pcdata_loop_text:
  assumes "heap_ok hp" and "buf_inv b" and "length (buf_text b) + length (pc_clean s) \<le> buf_max"
  shows "buf_inv (sanitize_pcdata_loop hp s b) \<and> buf_text (sanitize_pcdata_loop hp s b) = buf_text b @ pc_clean s"
  using assms(2,3)
proof (induction s arbitrary: b rule: pc_clean.induct)
  case (1 s)
  have ok: "heap_ok hp \<and> buf_inv b" using assms(1) 1(5) by simp
  note room = 1(6) [unfolded pc_clean.simps [of s]]
  consider "s = []" | "s \<noteq> []" "xml_invalid (hd s)" | "s \<noteq> []" "\<not> xml_invalid (hd s)" "xml_special (hd s)"
    | "s \<noteq> []" "\<not> xml_invalid (hd s)" "\<not> xml_special (hd s)" "byte (hd s) \<le> (0x7F :: nat)"
    | "s \<noteq> []" "\<not> xml_invalid (hd s)" "\<not> xml_special (hd s)" "\<not> byte (hd s) \<le> (0x7F :: nat)" by blast
  then show ?case
  proof cases
    case 1
    with ok show ?thesis by (simp add: sanitize_pcdata_loop.simps pc_clean.simps)
  next
    case 2
    with "1.IH"(1) [OF 2 1(5)] room show ?thesis by (simp add: sanitize_pcdata_loop.simps [of hp s] pc_clean.simps [of s])
  next
    case 3
    have r: "length (buf_text b) + length (xml_escape (hd s)) \<le> buf_max" using room 3 by simp
    from tb.appE [OF ok r] obtain b1 where
      b1: "buf_append hp (xml_escape (hd s)) b = (length (xml_escape (hd s)), b1)" "buf_inv b1" "buf_text b1 = buf_text b @ xml_escape (hd s)"
      by metis
    have "length (xml_escape (hd s)) \<noteq> 0" using 3(3) by (cases rule: xml_special_cases) (auto simp: xml_escape_table)
    with "1.IH"(2) [OF 3 b1(2)] room b1 3 show ?thesis by (simp add: sanitize_pcdata_loop.simps [of hp s] pc_clean.simps [of s])
  next
    case 4
    have r: "length (buf_text b) + 1 \<le> buf_max" using room 4 by simp
    from tb.putE [OF ok r, of "hd s"] obtain b1 where
      b1: "buf_putchar hp (hd s) b = (True, b1)" "buf_inv b1" "buf_text b1 = buf_text b @ [hd s]" by metis
    with "1.IH"(3) [OF 4 b1(2)] room 4 show ?thesis by (simp add: sanitize_pcdata_loop.simps [of hp s] pc_clean.simps [of s])
  next
    case 5
    have r: "length (buf_text b) + length (fst (utf8_step s)) \<le> buf_max" using room 5 by simp
    from validate_utf8_step [OF assms(1) 1(5) 5(1) r] obtain b1 where
      b1: "validate_utf8 hp s b = (snd (utf8_step s), b1)" "buf_inv b1" "buf_text b1 = buf_text b @ fst (utf8_step s)" by blast
    from "1.IH"(4) [OF 5 b1(2)] room b1 5 utf8_step_pos [of s] show ?thesis
      by (simp add: sanitize_pcdata_loop.simps [of hp s] pc_clean.simps [of s])
  qed
qed

lemma utf8_step_high:
  assumes "s \<noteq> []" and "\<not> byte (hd s) \<le> (0x7F :: nat)" and "c \<in> set (fst (utf8_step s))"
  shows "c = CHR ''?'' \<or> 128 \<le> byte c"
proof -
  have c0: "char_at s 0 = hd s" using assms(1) by (simp add: char_at_def hd_conv_nth)
  let ?n = "mb_num_chars (hd s)"
  have "fst (utf8_step s) = ''?'' \<or> (fst (utf8_step s) = take ?n s \<and> mb_count s ?n 1 = ?n)"
    using assms(2) by (auto simp: utf8_step_def Let_def c0)
  then show ?thesis
  proof
    assume t: "fst (utf8_step s) = take ?n s \<and> mb_count s ?n 1 = ?n"
    with assms(3) obtain i where i: "i < ?n" "i < length s" "c = s ! i" by (auto simp: in_set_conv_nth)
    show ?thesis
    proof (cases i)
      case 0
      with i assms(1,2) show ?thesis by (simp add: hd_conv_nth)
    next
      case (Suc j)
      with mb_count_conts [of 1 i s ?n] t i show ?thesis by (simp add: mb_is_cont_def)
    qed
  qed (use assms(3) in simp)
qed

lemma high_plain: "c = CHR ''?'' \<or> 128 \<le> byte c \<Longrightarrow> \<not> xml_invalid c \<and> \<not> xml_special c"
  by (auto simp: xml_invalid_def xml_special_def)

lemma pc_clean_safe: "list_all (\<lambda>x. \<not> xml_invalid x \<and> (xml_special x \<longrightarrow> x = CHR ''&'')) (pc_clean s)"
proof (induction s rule: pc_clean.induct)
  case (1 s)
  show ?case
  proof (cases "s = [] \<or> xml_invalid (hd s) \<or> xml_special (hd s) \<or> byte (hd s) \<le> (0x7F :: nat)")
    case True
    then show ?thesis using 1(1-3) xml_escape_safe [of "hd s"] by (subst pc_clean.simps) auto
  next
    case False
    then have "list_all (\<lambda>x. \<not> xml_invalid x \<and> (xml_special x \<longrightarrow> x = CHR ''&'')) (fst (utf8_step s))"
      using utf8_step_high [of s] high_plain by (auto simp: list_all_iff)
    with 1(4) False show ?thesis by (subst pc_clean.simps) auto
  qed
qed

lemma pc_clean_unescape:
  "NUL \<notin> set s \<Longrightarrow> xml_unescape (pc_clean s) = filter (\<lambda>c. \<not> xml_invalid c) (utf8_clean s)"
proof (induction s rule: pc_clean.induct)
  case (1 s)
  show ?case
  proof (cases "s = []")
    case True
    then show ?thesis by (simp add: pc_clean.simps utf8_clean.simps)
  next
    case ne: False
    show ?thesis
    proof (cases "byte (hd s) \<le> (0x7F :: nat)")
      case True
      have "hd s \<noteq> NUL" using 1(5) ne by (metis list.set_sel(1))
      then have "1 \<le> (byte (hd s) :: nat)" by (metis One_nat_def Suc_leI byte_eqD gr0I of_char_Char char_of_0 byte_char_of zero_less_numeral)
      with True ne have st: "utf8_step s = ([hd s], 1)" by (simp add: utf8_step_def char_at_def hd_conv_nth)
      then have u: "utf8_clean s = hd s # utf8_clean (tl s)" using ne by (subst utf8_clean.simps) (simp add: drop_Suc)
      have n: "NUL \<notin> set (tl s)" using 1(5) ne by (metis list.set_sel(2))
      consider "xml_invalid (hd s)" | "\<not> xml_invalid (hd s)" "xml_special (hd s)" | "\<not> xml_invalid (hd s)" "\<not> xml_special (hd s)" by blast
      then show ?thesis
      proof cases
        case 1
        with "1.IH"(1) [OF ne 1 n] u ne show ?thesis by (subst pc_clean.simps) simp
      next
        case 2
        with "1.IH"(2) [OF ne 2 n] u ne xml_unescape_escape [OF 2(2)] show ?thesis by (subst pc_clean.simps) simp
      next
        case 3
        then have "hd s \<noteq> CHR ''&''" by (auto simp: xml_special_def)
        with "1.IH"(3) [OF ne 3 True n] u ne 3 True xml_unescape_plain show ?thesis by (subst pc_clean.simps) simp
      qed
    next
      case False
      have hp: "c \<in> set (fst (utf8_step s)) \<Longrightarrow> \<not> xml_invalid c \<and> \<not> xml_special c" for c
        using utf8_step_high [OF ne False] high_plain by blast
      have "\<not> xml_invalid (hd s)" "\<not> xml_special (hd s)" using high_plain [of "hd s"] False by auto
      moreover have "CHR ''&'' \<notin> set (fst (utf8_step s))" using hp [of "CHR ''&''"] by (auto simp: xml_special_def)
      moreover have "NUL \<notin> set (drop (snd (utf8_step s)) s)" using 1(5) by (meson in_set_dropD)
      moreover have "filter (\<lambda>c. \<not> xml_invalid c) (fst (utf8_step s)) = fst (utf8_step s)" using hp by (simp add: filter_id_conv)
      ultimately show ?thesis using 1(4) ne False xml_unescape_plains
        by (subst pc_clean.simps, subst utf8_clean.simps) simp
    qed
  qed
qed

text \<open>
  C16: \<open>sanitize_pcdata\<close> is safe to place in XML text and loses nothing else: its output never holds a
  less-than or greater-than sign, a quote or an apostrophe, nor a control character XML does not
  allow; and for a string without NUL, reading the character references of the output back gives
  what \<open>sanitize_utf8\<close> makes of the string, less those control characters. In particular every
  ampersand of the output starts a reference for one of the five special characters. Allocations
  succeed, and five times the length of the string still fits the buffer.
\<close>
theorem sanitize_pcdata_spec:
  assumes "heap_ok hp" and "NUL \<notin> set s" and "5 * length s \<le> buf_max"
  shows "\<exists>r u. sanitize_pcdata hp s = Some r \<and> sanitize_utf8 hp s = Some u \<and>
    set r \<inter> {CHR ''<'', CHR ''>'', CHR 0x22, CHR 0x27} = {} \<and> list_all (\<lambda>c. \<not> xml_invalid c) r \<and>
    xml_unescape r = filter (\<lambda>c. \<not> xml_invalid c) u"
proof -
  from buf_init_ok [OF assms(1)] obtain b where b: "buf_init hp = Some b" "buf_inv b" "buf_text b = []" by blast
  have "length (buf_text b) + length (pc_clean s) \<le> buf_max" using pc_clean_length [of s] assms(3) b(3) by simp
  note l = sanitize_pcdata_loop_text [OF assms(1) b(2) this]
  have safe: "\<not> xml_invalid c \<and> (xml_special c \<longrightarrow> c = CHR ''&'')" if "c \<in> set (pc_clean s)" for c
    using pc_clean_safe [of s] that by (auto simp: list_all_iff)
  have "NUL \<notin> set (pc_clean s)" using safe [of NUL] by (auto simp: xml_invalid_def)
  then have "sanitize_pcdata hp s = Some (pc_clean s)" using l b buf_destroy_text by (simp add: sanitize_pcdata_def)
  moreover have "sanitize_utf8 hp s = Some (utf8_clean s)" using sanitize_utf8_clean [OF assms(1), of s] assms(3) by auto
  moreover have "set (pc_clean s) \<inter> {CHR ''<'', CHR ''>'', CHR 0x22, CHR 0x27} = {}"
    using safe [of "CHR ''<''"] safe [of "CHR ''>''"] safe [of "CHR 0x22"] safe [of "CHR 0x27"] by (auto simp: xml_special_def)
  moreover have "list_all (\<lambda>c. \<not> xml_invalid c) (pc_clean s)" using safe by (simp add: list_all_iff)
  ultimately show ?thesis using pc_clean_unescape [OF assms(2)] by blast
qed

theorem sanitize_pcdata_spec_witness:
  "\<exists>r u. sanitize_pcdata demo_heap ''a<b'' = Some r \<and> sanitize_utf8 demo_heap ''a<b'' = Some u \<and> CHR ''<'' \<notin> set r \<and>
     xml_unescape r = filter (\<lambda>c. \<not> xml_invalid c) u"
proof -
  have "NUL \<notin> set ''a<b''" "5 * length ''a<b'' \<le> buf_max" by (simp_all add: buf_max_def)
  from sanitize_pcdata_spec [OF demo_heap_ok this] obtain r u where
    "sanitize_pcdata demo_heap ''a<b'' = Some r" "sanitize_utf8 demo_heap ''a<b'' = Some u"
    "set r \<inter> {CHR ''<'', CHR ''>'', CHR 0x22, CHR 0x27} = {}" "xml_unescape r = filter (\<lambda>c. \<not> xml_invalid c) u" by (elim exE conjE)
  moreover from this(3) have "CHR ''<'' \<notin> set r" by (simp add: Int_insert_right split: if_splits)
  ultimately show ?thesis by (intro exI conjI)
qed

end
