(* ===== verification/Luci_Template_Lua.thy ===== *)
theory Luci_Template_Lua
  imports Luci_Template Luci_Utf8
begin

text \<open>
  The functions of the template library a script calls (\<^verbatim>\<open>template_lualib.c\<close>): compiling a template file and the
  two sanitizers. The compiler \<^verbatim>\<open>lua_load\<close> belongs to the Lua interpreter and is a parameter: from a parser it
  gives its status, the function it pushes and the parser after its calls of the reader.
\<close>

datatype 'f tmpl_val = TNil | TInt int | TStr string | TFun 'f

text \<open>\<open>fd\<close> is what \<^verbatim>\<open>open()\<close> returns, \<open>b\<close>, \<open>out\<close> and \<open>n\<close> are what the parser on the stack holds at first.\<close>

definition template_L_parse ::
  "(template_parser \<Rightarrow> (int \<times> 'f \<times> template_parser) option) \<Rightarrow> int \<Rightarrow> rd list \<Rightarrow> string \<Rightarrow> string \<Rightarrow> nat \<Rightarrow> 'f tmpl_val list option" where
  "template_L_parse lua_load fd file b out n =
    (if 0 < fd
     then (case lua_load (template_L_parser file b out n) of
         None \<Rightarrow> None
       | Some (lua_status, f, d) \<Rightarrow>
           Some (if lua_status = 0 then [TFun f]
                 else [TNil, TInt lua_status, TStr (take (tp_outsize d) (tp_out d))]))
     else Some [TNil, TInt 255, TStr ''No such file or directory''])"

text \<open>The result is pushed as a C string.\<close>

definition template_L_sanitize_utf8 :: "heap \<Rightarrow> string \<Rightarrow> 'f tmpl_val list" where
  "template_L_sanitize_utf8 hp s = (case sanitize_utf8 hp s of Some res \<Rightarrow> [TStr (cstr res)] | None \<Rightarrow> [])"

definition template_L_sanitize_pcdata :: "heap \<Rightarrow> string \<Rightarrow> 'f tmpl_val list" where
  "template_L_sanitize_pcdata hp s = (case sanitize_pcdata hp s of Some res \<Rightarrow> [TStr (cstr res)] | None \<Rightarrow> [])"

text \<open>
  What the interpreter documents of \<^verbatim>\<open>lua_load\<close>: it calls the reader until that returns nothing and compiles the
  pieces as one program, with status 0 if this succeeds.
\<close>

definition lua_load_spec :: "(string \<Rightarrow> 'f option) \<Rightarrow> (template_parser \<Rightarrow> (int \<times> 'f \<times> template_parser) option) \<Rightarrow> bool" where
  "lua_load_spec compile lua_load \<longleftrightarrow> (\<forall>n d cs d' f. lua_chunks n d = Some (cs, d') \<and> compile (concat cs) = Some f \<longrightarrow>
     lua_load d = Some (0, f, d'))"

text \<open>A template whose programs the interpreter accepts becomes the function of one of its programs.\<close>

lemma template_L_parse_function:
  assumes "lua_load_spec compile lua_load" and "template_ok ss" and "length b = T_READBUFSZ" and "length out = T_OUTBUFSZ"
    and "0 < fd" and "\<And>prog. renders False ss prog \<Longrightarrow> compile prog \<noteq> None"
  shows "\<exists>prog f. renders False ss prog \<and> compile prog = Some f \<and>
    template_L_parse lua_load fd [Rd (template_text ss)] b out n = Some [TFun f]"
proof -
  from template_chunks [OF assms(2-4), of n] obtain m cs d' where
    cs: "lua_chunks m (template_L_parser [Rd (template_text ss)] b out n) = Some (cs, d')" "renders False ss (concat cs)" by blast
  from assms(6) [OF cs(2)] obtain f where f: "compile (concat cs) = Some f" by blast
  with cs(1) assms(1) have "lua_load (template_L_parser [Rd (template_text ss)] b out n) = Some (0, f, d')"
    unfolding lua_load_spec_def by blast
  with assms(5) cs(2) f show ?thesis by (intro exI [of _ "concat cs"] exI [of _ f]) (simp add: template_L_parse_def)
qed

text \<open>Text of the code points the sanitizer lets through survives the way through C strings.\<close>

lemma template_L_sanitize_utf8_id:
  assumes "heap_ok hp" and "utf8_text s" and "length s \<le> buf_max"
  shows "template_L_sanitize_utf8 hp s = [TStr s]"
proof -
  have "sanitize_utf8 hp s = Some (utf8_clean s)" using sanitize_utf8_clean [OF assms(1,3)] by blast
  with assms(2) show ?thesis
    by (simp add: template_L_sanitize_utf8_def utf8_clean_id cstr_no_NUL NUL_notin_text)
qed

end
