(* ===== verification/Nixio_Bin.thy ===== *)
theory Nixio_Bin
  imports Uh_Codec
begin

text \<open>
  The byte functions of the POSIX library of the Lua scripts (\<^verbatim>\<open>nixio/src/binary.c\<close>): CRC-32, hexadecimal and base64.
  A function gives the value it pushes, the error \<^verbatim>\<open>EINVAL\<close> through \<^verbatim>\<open>nixio__perror\<close>, or raises an error. A
  parameter says whether \<^verbatim>\<open>malloc()\<close> succeeds. Lengths are 64-bit integers.
\<close>

unbundle bit_operations_syntax

section \<open>The functions\<close>

datatype nixio_result = Nx_str string | Nx_int int | Nx_einval | Nx_raise string

definition nixio_bin2hex :: string where
  "nixio_bin2hex = ''0123456789abcdef''"

definition nixio_b64encode_tbl :: string where
  "nixio_b64encode_tbl = ''ABCDEFGHIJKLMNOPQRSTUVWXYZabcdefghijklmnopqrstuvwxyz0123456789+/''"

definition nixio_b64decode_tbl :: "nat list" where
  "nixio_b64decode_tbl = [
    0x3e, 0xff, 0xff, 0xff, 0x3f, 0x34, 0x35, 0x36, 0x37, 0x38, 0x39, 0x3a, 0x3b, 0x3c, 0x3d, 0xff,
    0xff, 0xff, 0x00, 0xff, 0xff, 0xff, 0x00, 0x01, 0x02, 0x03, 0x04, 0x05, 0x06, 0x07, 0x08, 0x09,
    0x0a, 0x0b, 0x0c, 0x0d, 0x0e, 0x0f, 0x10, 0x11, 0x12, 0x13, 0x14, 0x15, 0x16, 0x17, 0x18, 0x19,
    0xff, 0xff, 0xff, 0xff, 0xff, 0xff, 0x1a, 0x1b, 0x1c, 0x1d, 0x1e, 0x1f, 0x20, 0x21, 0x22, 0x23,
    0x24, 0x25, 0x26, 0x27, 0x28, 0x29, 0x2a, 0x2b, 0x2c, 0x2d, 0x2e, 0x2f, 0x30, 0x31, 0x32, 0x33]"

definition nixio_crc32_tbl :: "u32 list" where
  "nixio_crc32_tbl = [
    0x00000000, 0x77073096, 0xee0e612c, 0x990951ba, 0x076dc419, 0x706af48f, 0xe963a535, 0x9e6495a3,
    0x0edb8832, 0x79dcb8a4, 0xe0d5e91e, 0x97d2d988, 0x09b64c2b, 0x7eb17cbd, 0xe7b82d07, 0x90bf1d91,
    0x1db71064, 0x6ab020f2, 0xf3b97148, 0x84be41de, 0x1adad47d, 0x6ddde4eb, 0xf4d4b551, 0x83d385c7,
    0x136c9856, 0x646ba8c0, 0xfd62f97a, 0x8a65c9ec, 0x14015c4f, 0x63066cd9, 0xfa0f3d63, 0x8d080df5,
    0x3b6e20c8, 0x4c69105e, 0xd56041e4, 0xa2677172, 0x3c03e4d1, 0x4b04d447, 0xd20d85fd, 0xa50ab56b,
    0x35b5a8fa, 0x42b2986c, 0xdbbbc9d6, 0xacbcf940, 0x32d86ce3, 0x45df5c75, 0xdcd60dcf, 0xabd13d59,
    0x26d930ac, 0x51de003a, 0xc8d75180, 0xbfd06116, 0x21b4f4b5, 0x56b3c423, 0xcfba9599, 0xb8bda50f,
    0x2802b89e, 0x5f058808, 0xc60cd9b2, 0xb10be924, 0x2f6f7c87, 0x58684c11, 0xc1611dab, 0xb6662d3d,
    0x76dc4190, 0x01db7106, 0x98d220bc, 0xefd5102a, 0x71b18589, 0x06b6b51f, 0x9fbfe4a5, 0xe8b8d433,
    0x7807c9a2, 0x0f00f934, 0x9609a88e, 0xe10e9818, 0x7f6a0dbb, 0x086d3d2d, 0x91646c97, 0xe6635c01,
    0x6b6b51f4, 0x1c6c6162, 0x856530d8, 0xf262004e, 0x6c0695ed, 0x1b01a57b, 0x8208f4c1, 0xf50fc457,
    0x65b0d9c6, 0x12b7e950, 0x8bbeb8ea, 0xfcb9887c, 0x62dd1ddf, 0x15da2d49, 0x8cd37cf3, 0xfbd44c65,
    0x4db26158, 0x3ab551ce, 0xa3bc0074, 0xd4bb30e2, 0x4adfa541, 0x3dd895d7, 0xa4d1c46d, 0xd3d6f4fb,
    0x4369e96a, 0x346ed9fc, 0xad678846, 0xda60b8d0, 0x44042d73, 0x33031de5, 0xaa0a4c5f, 0xdd0d7cc9,
    0x5005713c, 0x270241aa, 0xbe0b1010, 0xc90c2086, 0x5768b525, 0x206f85b3, 0xb966d409, 0xce61e49f,
    0x5edef90e, 0x29d9c998, 0xb0d09822, 0xc7d7a8b4, 0x59b33d17, 0x2eb40d81, 0xb7bd5c3b, 0xc0ba6cad,
    0xedb88320, 0x9abfb3b6, 0x03b6e20c, 0x74b1d29a, 0xead54739, 0x9dd277af, 0x04db2615, 0x73dc1683,
    0xe3630b12, 0x94643b84, 0x0d6d6a3e, 0x7a6a5aa8, 0xe40ecf0b, 0x9309ff9d, 0x0a00ae27, 0x7d079eb1,
    0xf00f9344, 0x8708a3d2, 0x1e01f268, 0x6906c2fe, 0xf762575d, 0x806567cb, 0x196c3671, 0x6e6b06e7,
    0xfed41b76, 0x89d32be0, 0x10da7a5a, 0x67dd4acc, 0xf9b9df6f, 0x8ebeeff9, 0x17b7be43, 0x60b08ed5,
    0xd6d6a3e8, 0xa1d1937e, 0x38d8c2c4, 0x4fdff252, 0xd1bb67f1, 0xa6bc5767, 0x3fb506dd, 0x48b2364b,
    0xd80d2bda, 0xaf0a1b4c, 0x36034af6, 0x41047a60, 0xdf60efc3, 0xa867df55, 0x316e8eef, 0x4669be79,
    0xcb61b38c, 0xbc66831a, 0x256fd2a0, 0x5268e236, 0xcc0c7795, 0xbb0b4703, 0x220216b9, 0x5505262f,
    0xc5ba3bbe, 0xb2bd0b28, 0x2bb45a92, 0x5cb36a04, 0xc2d7ffa7, 0xb5d0cf31, 0x2cd99e8b, 0x5bdeae1d,
    0x9b64c2b0, 0xec63f226, 0x756aa39c, 0x026d930a, 0x9c0906a9, 0xeb0e363f, 0x72076785, 0x05005713,
    0x95bf4a82, 0xe2b87a14, 0x7bb12bae, 0x0cb61b38, 0x92d28e9b, 0xe5d5be0d, 0x7cdcefb7, 0x0bdbdf21,
    0x86d3d2d4, 0xf1d4e242, 0x68ddb3f8, 0x1fda836e, 0x81be16cd, 0xf6b9265b, 0x6fb077e1, 0x18b74777,
    0x88085ae6, 0xff0f6a70, 0x66063bca, 0x11010b5c, 0x8f659eff, 0xf862ae69, 0x616bffd3, 0x166ccf45,
    0xa00ae278, 0xd70dd2ee, 0x4e048354, 0x3903b3c2, 0xa7672661, 0xd06016f7, 0x4969474d, 0x3e6e77db,
    0xaed16a4a, 0xd9d65adc, 0x40df0b66, 0x37d83bf0, 0xa9bcae53, 0xdebb9ec5, 0x47b2cf7f, 0x30b5ffe9,
    0xbdbdf21c, 0xcabac28a, 0x53b39330, 0x24b4a3a6, 0xbad03605, 0xcdd70693, 0x54de5729, 0x23d967bf,
    0xb3667a2e, 0xc4614ab8, 0x5d681b02, 0x2a6f2b94, 0xb40bbe37, 0xc30c8ea1, 0x5a05df1b, 0x2d02ef8d]"

definition size_t :: "nat \<Rightarrow> nat" where
  "size_t n = n mod 2 ^ 64"

fun crc32_loop :: "u32 \<Rightarrow> string \<Rightarrow> u32" where
  "crc32_loop value [] = value"
| "crc32_loop value (c # s) =
    crc32_loop (nixio_crc32_tbl ! unat ((value XOR word_of_int (schar c)) AND 0xFF) XOR drop_bit 8 value) s"

text \<open>The second argument is optional and defaults to 0.\<close>

definition nixio_bin_crc32 :: "string \<Rightarrow> int option \<Rightarrow> nixio_result" where
  "nixio_bin_crc32 buffer arg =
    (let value = word_of_int (case arg of None \<Rightarrow> 0 | Some n \<Rightarrow> n) :: u32
     in Nx_int (sint (crc32_loop (NOT value) buffer XOR 0xFFFFFFFF)))"

definition nixio_bin_hexlify :: "bool \<Rightarrow> string \<Rightarrow> nixio_result" where
  "nixio_bin_hexlify mem dat =
    (let len = length dat; lenout = size_t (len * 2) in
     if len = 0 then Nx_str dat
     else if \<not> len < lenout then Nx_raise ''size overflow''
     else if \<not> mem then Nx_raise ''out of memory''
     else Nx_str (concat (map (\<lambda>c. [nixio_bin2hex ! drop_bit 4 (byte c AND 0xF0), nixio_bin2hex ! (byte c AND 0x0F)]) dat)))"

definition hex_digit :: "char \<Rightarrow> nat option" where
  "hex_digit c =
    (if 48 \<le> byte c \<and> byte c \<le> 57 then Some (byte c - 48)
     else if 97 \<le> byte c \<and> byte c \<le> 102 then Some (byte c - 97 + 10)
     else if 65 \<le> byte c \<and> byte c \<le> 70 then Some (byte c - 65 + 10)
     else None)"

fun unhex_loop :: "string \<Rightarrow> string option" where
  "unhex_loop (a # b # r) =
    (case hex_digit a of None \<Rightarrow> None | Some x \<Rightarrow>
    (case hex_digit b of None \<Rightarrow> None | Some y \<Rightarrow>
      map_option ((#) (char_of (push_bit 4 x + y))) (unhex_loop r)))"
| "unhex_loop _ = Some []"

definition nixio_bin_unhexlify :: "bool \<Rightarrow> string \<Rightarrow> nixio_result" where
  "nixio_bin_unhexlify mem dat =
    (if dat = [] then Nx_str dat
     else if length dat mod 2 \<noteq> 0 then Nx_einval
     else if \<not> mem then Nx_raise ''out of memory''
     else (case unhex_loop dat of None \<Rightarrow> Nx_einval | Some out \<Rightarrow> Nx_str out))"

text \<open>Four characters for the 24 bits of three bytes.\<close>

definition b64_put :: "u32 \<Rightarrow> string" where
  "b64_put cv = map (\<lambda>k. nixio_b64encode_tbl ! unat (drop_bit k cv AND 0x3F)) [18, 12, 6, 0]"

definition b64_word :: "char \<Rightarrow> char \<Rightarrow> char \<Rightarrow> u32" where
  "b64_word a b c = push_bit 16 (of_nat (byte a)) OR push_bit 8 (of_nat (byte b)) OR of_nat (byte c)"

text \<open>The loop reads up to two bytes behind the data: the terminator Lua keeps there, and one byte more.\<close>

function b64enc_loop :: "string \<Rightarrow> nat \<Rightarrow> nat \<Rightarrow> string" where
  "b64enc_loop mem len i =
    (if i < len then b64_put (b64_word (mem ! i) (mem ! (i + 1)) (mem ! (i + 2))) @ b64enc_loop mem len (i + 3) else [])"
  by pat_completeness auto
termination by (relation "measure (\<lambda>(mem, len, i). len - i)") auto

declare b64enc_loop.simps [simp del]

text \<open>The last group is written again when bytes are missing.\<close>

definition b64_padding :: "string \<Rightarrow> nat \<Rightarrow> string \<Rightarrow> string" where
  "b64_padding dat pad out =
    (let o1 = length out; i = length dat - pad;
         cv = push_bit 16 (of_nat (byte (dat ! i))) :: u32;
         out1 = out[o1 - 1 := CHR ''='', o1 - 2 := CHR ''=''];
         (cv1, out2) = (if pad = 2
           then (let cv2 = cv OR push_bit 8 (of_nat (byte (dat ! (i + 1))))
                 in (cv2, out1[o1 - 2 := nixio_b64encode_tbl ! unat (drop_bit 6 cv2 AND 0x3F)]))
           else (cv, out1))
     in out2[o1 - 3 := nixio_b64encode_tbl ! unat (drop_bit 12 cv1 AND 0x3F),
             o1 - 4 := nixio_b64encode_tbl ! unat (drop_bit 18 cv1 AND 0x3F)])"

text \<open>\<open>x\<close> is the byte behind the terminator.\<close>

definition nixio_bin_b64encode :: "bool \<Rightarrow> char \<Rightarrow> string \<Rightarrow> nixio_result" where
  "nixio_bin_b64encode mem x dat =
    (let len = length dat; pad = len mod 3; lenout = size_t (len div 3 * 4 + (if pad \<noteq> 0 then 4 else 0)) in
     if len = 0 then Nx_str dat
     else if \<not> len < lenout then Nx_raise ''size overflow''
     else if \<not> mem then Nx_raise ''out of memory''
     else (let out = b64enc_loop (dat @ [NUL, x]) len 0
           in Nx_str (if pad \<noteq> 0 then b64_padding dat pad out else out)))"

text \<open>The inner loop of the decoder.\<close>

fun b64dec_group :: "nat \<Rightarrow> u32 \<Rightarrow> string \<Rightarrow> u32 option" where
  "b64dec_group j cv [] = Some cv"
| "b64dec_group j cv (d # ds) =
    (let c = (byte d + 213) mod 256 in
     if 79 < c \<or> nixio_b64decode_tbl ! c = 0xFF then None
     else (let cv1 = cv OR of_nat (nixio_b64decode_tbl ! c)
           in b64dec_group (Suc j) (if j \<noteq> 3 then push_bit 6 cv1 else cv1) ds))"

fun b64dec_loop :: "string \<Rightarrow> string option" where
  "b64dec_loop (a # b # c # d # r) =
    (case b64dec_group 0 0 [a, b, c, d] of
       None \<Rightarrow> None
     | Some cv \<Rightarrow> map_option (\<lambda>out. [low_char (drop_bit 16 cv), low_char (drop_bit 8 cv), low_char cv] @ out) (b64dec_loop r))"
| "b64dec_loop _ = Some []"

definition nixio_bin_b64decode :: "bool \<Rightarrow> string \<Rightarrow> nixio_result" where
  "nixio_bin_b64decode mem dt =
    (let len = length dt in
     if len = 0 then Nx_str dt
     else if len mod 4 \<noteq> 0 then Nx_einval
     else if \<not> mem then Nx_raise ''out of memory''
     else (case b64dec_loop dt of
         None \<Rightarrow> Nx_einval
       | Some out \<Rightarrow> Nx_str (take (len div 4 * 3 - (if dt ! (len - 1) = CHR ''='' then 1 else 0)
           - (if dt ! (len - 2) = CHR ''='' then 1 else 0)) out)))"

section \<open>CRC-32 is polynomial division\<close>

text \<open>One bit of the message goes through the shift register of the polynomial.\<close>

definition crc_shift :: "u32 \<Rightarrow> u32" where
  "crc_shift v = (if bit v 0 then drop_bit 1 v XOR 0xEDB88320 else drop_bit 1 v)"

definition crc_bit :: "bool \<Rightarrow> u32 \<Rightarrow> u32" where
  "crc_bit b v = crc_shift (v XOR of_bool b)"

definition char_bits :: "char \<Rightarrow> bool list" where
  "char_bits c = map (bit (byte c)) [0..<8]"

definition crc32_ref :: "u32 \<Rightarrow> string \<Rightarrow> u32" where
  "crc32_ref v s = NOT (fold crc_bit (concat (map char_bits s)) (NOT v))"

text \<open>The register is linear, so that the table of all bytes is built from those with one bit.\<close>

lemma crc_shift_xor: "crc_shift (v XOR w) = crc_shift v XOR crc_shift w"
  by (simp add: crc_shift_def bit_xor_iff drop_bit_xor xor.assoc xor.left_commute xor.commute)

lemma crc_shifts_xor: "(crc_shift ^^ n) (v XOR w) = (crc_shift ^^ n) v XOR (crc_shift ^^ n) w"
  by (induction n) (simp_all add: crc_shift_xor)

definition crc_powers :: "u32 list" where
  "crc_powers = [0x77073096, 0xEE0E612C, 0x076DC419, 0x0EDB8832, 0x1DB71064, 0x3B6E20C8, 0x76DC4190, 0xEDB88320]"

lemma crc_table_powers: "nixio_crc32_tbl = fold (\<lambda>p t. t @ map (\<lambda>v. p XOR v) t) crc_powers [0]"
  by (simp add: nixio_crc32_tbl_def crc_powers_def)

lemma funpow_8: "(f ^^ 8) x = f (f (f (f (f (f (f (f x)))))))"
  by (simp add: eval_nat_numeral)

lemma crc_shift_values:
  "crc_shift 1 = 0xEDB88320" "crc_shift 0xEDB88320 = 0x76DC4190" "crc_shift 0x76DC4190 = 0x3B6E20C8" "crc_shift 0x3B6E20C8 = 0x1DB71064"
  "crc_shift 0x1DB71064 = 0x0EDB8832" "crc_shift 0x0EDB8832 = 0x076DC419" "crc_shift 0x076DC419 = 0xEE0E612C" "crc_shift 0xEE0E612C = 0x77073096"
  "crc_shift 2 = 1" "crc_shift 4 = 2" "crc_shift 8 = 4" "crc_shift 16 = 8" "crc_shift 32 = 16" "crc_shift 64 = 32" "crc_shift 128 = 64"
  by (simp_all add: crc_shift_def)

lemma crc_powers_shift: "map (\<lambda>k. (crc_shift ^^ 8) (2 ^ k)) [0..<8] = crc_powers"
  by (simp add: crc_powers_def funpow_8 crc_shift_values upt_rec)

text \<open>The register shifts trailing zeros out unchanged.\<close>

lemma crc_shifts_zeros: "take_bit n v = 0 \<Longrightarrow> (crc_shift ^^ n) v = drop_bit n v"
proof (induction n arbitrary: v)
  case (Suc n)
  have "bit (take_bit (Suc n) v) k = bit 0 k" for k using Suc.prems by simp
  then have low: "\<not> bit v k" if "k \<le> n" for k using that by (auto simp: bit_take_bit_iff)
  then have "crc_shift v = drop_bit 1 v" by (simp add: crc_shift_def)
  moreover have "take_bit n (drop_bit 1 v) = 0"
    by (rule bit_eqI) (use low in \<open>auto simp: bit_take_bit_iff bit_drop_bit_eq\<close>)
  ultimately show ?case using Suc.IH [of "drop_bit 1 v"] by (simp only: funpow_Suc_right o_apply) simp
qed simp

lemma xor_power:
  assumes "i < 2 ^ n" and "n < 32"
  shows "of_nat (2 ^ n + i) = (2 ^ n XOR of_nat i :: u32)"
proof -
  have i: "\<not> bit i m" if "n \<le> m" for m
    using that assms(1) by (simp add: bit_iff_odd) (metis div_less less_le_trans one_le_numeral power_increasing even_zero)
  have "(2 ^ n :: u32) + of_nat i = 2 ^ n OR of_nat i"
    by (rule disjunctive_add) (use i in \<open>auto simp: bit_exp_iff bit_of_nat_iff\<close>)
  also have "\<dots> = 2 ^ n XOR of_nat i"
    by (rule bit_eqI) (use i in \<open>auto simp: bit_or_iff bit_xor_iff bit_exp_iff bit_of_nat_iff\<close>)
  finally show ?thesis by simp
qed

lemma upt_double: "[0..<2 * m] = [0..<m] @ map (\<lambda>i. m + i) [0..<m]"
  unfolding mult_2 upt_add_eq_append [OF le0] by (simp add: map_add_upt [symmetric] add.commute)

lemma crc_fold_table:
  "n \<le> 32 \<Longrightarrow> fold (\<lambda>p t. t @ map (\<lambda>v. p XOR v) t) (map (\<lambda>k. (crc_shift ^^ 8) (2 ^ k)) [0..<n]) [0] =
    map (\<lambda>i. (crc_shift ^^ 8) (of_nat i)) [0..<2 ^ n]"
proof (induction n)
  case 0
  show ?case by (simp add: crc_shifts_zeros)
next
  case (Suc n)
  have "map (\<lambda>i. (crc_shift ^^ 8) (2 ^ n) XOR (crc_shift ^^ 8) (of_nat i)) [0..<2 ^ n] =
      map (\<lambda>i. (crc_shift ^^ 8) (of_nat (2 ^ n + i))) [0..<2 ^ n]"
  proof (intro map_cong refl)
    fix i assume "i \<in> set [0..<2 ^ n :: nat]"
    then have i: "i < 2 ^ n" by simp
    show "(crc_shift ^^ 8) (2 ^ n) XOR (crc_shift ^^ 8) (of_nat i) = (crc_shift ^^ 8) (of_nat (2 ^ n + i))"
      using Suc.prems by (subst xor_power [OF i]) (simp_all add: crc_shifts_xor)
  qed
  with Suc show ?case by (simp add: upt_double o_def)
qed

lemma crc_table: "i < 256 \<Longrightarrow> nixio_crc32_tbl ! i = (crc_shift ^^ 8) (of_nat i)"
  using crc_fold_table [of 8] by (simp only: crc_table_powers crc_powers_shift) simp

lemma take_bit_schar: "take_bit 8 (word_of_int (schar c) :: u32) = of_nat (byte c)"
proof -
  have "take_bit 8 (schar c) = int (byte c)" by (simp add: schar_def take_bit_eq_mod)
  then show ?thesis by (simp add: take_bit_of_int)
qed

text \<open>A byte of the message, by the table and by eight shifts.\<close>

lemma crc_byte:
  "nixio_crc32_tbl ! unat ((v XOR word_of_int (schar c)) AND 0xFF) XOR drop_bit 8 v = (crc_shift ^^ 8) (v XOR of_nat (byte c))"
proof -
  define x where "x = v XOR of_nat (byte c)"
  have "(v XOR word_of_int (schar c)) AND 0xFF = take_bit 8 (v XOR word_of_int (schar c))"
    by (simp add: take_bit_eq_mask mask_numeral)
  also have "\<dots> = take_bit 8 v XOR take_bit 8 (of_nat (byte c))"
    by (simp only: take_bit_xor take_bit_schar) (simp add: take_bit_of_nat take_bit_nat_eq_self)
  also have "\<dots> = take_bit 8 x" by (simp add: x_def take_bit_xor)
  finally have low: "(v XOR word_of_int (schar c)) AND 0xFF = take_bit 8 x" .
  have "unat (take_bit 8 x) < 256" by (simp add: unsigned_take_bit_eq take_bit_nat_less_exp [of 8, simplified])
  then have tbl: "nixio_crc32_tbl ! unat (take_bit 8 x) = (crc_shift ^^ 8) (take_bit 8 x)" by (simp add: crc_table)
  have "take_bit 8 (of_nat (byte c) :: u32) = of_nat (byte c)" by (simp add: take_bit_of_nat take_bit_nat_eq_self)
  then have "drop_bit 8 (of_nat (byte c) :: u32) = 0" by (simp add: take_bit_eq_self_iff_drop_bit_eq_0)
  then have high: "drop_bit 8 v = drop_bit 8 x" by (simp only: x_def drop_bit_xor xor.right_neutral)
  define y where "y = push_bit 8 (drop_bit 8 x)"
  have "take_bit 8 y = 0" by (simp add: y_def take_bit_push_bit)
  then have "(crc_shift ^^ 8) y = drop_bit 8 y" by (rule crc_shifts_zeros)
  also have "\<dots> = drop_bit 8 x"
    by (rule bit_eqI) (auto simp: y_def bit_drop_bit_eq bit_push_bit_iff dest: bit_imp_le_length)
  finally have y: "(crc_shift ^^ 8) y = drop_bit 8 x" .
  have "x = take_bit 8 x XOR y"
    by (rule bit_eqI) (auto simp: y_def bit_xor_iff bit_take_bit_iff bit_push_bit_iff bit_drop_bit_eq)
  then have "(crc_shift ^^ 8) x = (crc_shift ^^ 8) (take_bit 8 x) XOR (crc_shift ^^ 8) y" by (metis crc_shifts_xor)
  then show ?thesis unfolding low high tbl y x_def [symmetric] by simp
qed

lemma crc_serial: "n \<le> 32 \<Longrightarrow> fold crc_bit (map (bit w) [0..<n]) v = (crc_shift ^^ n) (v XOR take_bit n w)"
proof (induction n)
  case (Suc n)
  have t: "take_bit (Suc n) w = take_bit n w XOR push_bit n (of_bool (bit w n))"
    by (rule bit_eqI) (auto simp: bit_xor_iff bit_take_bit_iff bit_push_bit_iff less_Suc_eq bit_of_bool_iff)
  have "take_bit n (push_bit n (of_bool (bit w n)) :: u32) = 0" by (simp add: take_bit_push_bit)
  then have "(crc_shift ^^ n) (push_bit n (of_bool (bit w n))) = drop_bit n (push_bit n (of_bool (bit w n)))"
    by (rule crc_shifts_zeros)
  also have "\<dots> = of_bool (bit w n)"
    using Suc.prems by (intro bit_eqI) (auto simp: bit_drop_bit_eq bit_push_bit_iff bit_of_bool_iff)
  finally have p: "(crc_shift ^^ n) (push_bit n (of_bool (bit w n))) = of_bool (bit w n)" .
  show ?case
    using Suc by (simp add: crc_bit_def t crc_shifts_xor p xor.assoc crc_shift_xor)
qed simp

lemma crc_serial_byte: "fold crc_bit (char_bits c) v = (crc_shift ^^ 8) (v XOR of_nat (byte c))"
proof -
  have "char_bits c = map (bit (of_nat (byte c) :: u32)) [0..<8]"
    unfolding char_bits_def by (intro map_cong refl) (simp add: bit_of_nat_iff)
  moreover have "take_bit 8 (of_nat (byte c) :: u32) = of_nat (byte c)" by (simp add: take_bit_of_nat take_bit_nat_eq_self)
  ultimately show ?thesis using crc_serial [of 8 "of_nat (byte c)" v] by simp
qed

lemma crc32_loop_serial: "crc32_loop v s = fold crc_bit (concat (map char_bits s)) v"
  by (induction s arbitrary: v) (simp_all add: crc_byte crc_serial_byte)

lemma crc32_loop_append: "crc32_loop v (a @ b) = crc32_loop (crc32_loop v a) b"
  by (induction a arbitrary: v) simp_all

lemma not_xor_all: "w XOR 0xFFFFFFFF = (NOT w :: u32)"
proof -
  have "(0xFFFFFFFF :: u32) = - 1" by simp
  then show ?thesis by (simp only: xor.right_neutral bit.xor_one_right)
qed

text \<open>
  C27: \<open>nixio_bin_crc32\<close> with its table is the bitwise CRC-32: the message goes bit by bit, the lowest bit of every byte
  first, through the shift register of the polynomial \<^verbatim>\<open>0xEDB88320\<close>, inverted before and after. A message can be
  given in parts: the checksum of the first part, signed as it is returned, is the start value
  for the rest.
\<close>
theorem nixio_bin_crc32_spec:
  "nixio_bin_crc32 a None = Nx_int (sint (crc32_ref 0 a)) \<and>
   (case nixio_bin_crc32 a None of Nx_int v \<Rightarrow> nixio_bin_crc32 b (Some v) = nixio_bin_crc32 (a @ b) None | _ \<Rightarrow> False)"
proof -
  have r: "crc32_loop (NOT v) s XOR 0xFFFFFFFF = crc32_ref v s" for v s
    by (simp add: crc32_ref_def crc32_loop_serial not_xor_all)
  have "nixio_bin_crc32 b (Some (sint (crc32_ref 0 a))) = nixio_bin_crc32 (a @ b) None"
    by (simp add: nixio_bin_crc32_def crc32_loop_append not_xor_all crc32_ref_def crc32_loop_serial)
  then show ?thesis by (simp add: nixio_bin_crc32_def r)
qed

section \<open>Hexadecimal\<close>

lemma byte_digits: "byte c = 16 * (byte c div 16) + byte c mod 16" "byte c div 16 < 16" "byte c mod 16 < 16"
  using less_mult_imp_div_less [of "byte c" 16 16] by simp_all

lemma hex_digit_table: "n < 16 \<Longrightarrow> hex_digit (nixio_bin2hex ! n) = Some n"
proof -
  assume "n < 16"
  then have "n \<in> set [0..<16]" by simp
  moreover have "list_all (\<lambda>n. hex_digit (nixio_bin2hex ! n) = Some n) [0..<16]"
    by (simp add: upt_rec hex_digit_def nixio_bin2hex_def)
  ultimately show ?thesis by (simp only: list_all_iff)
qed

lemma hex_digits_of: "drop_bit 4 (byte c AND 0xF0) = byte c div 16" "byte c AND 0x0F = byte c mod 16"
proof -
  have "(0x0F :: nat) = mask 4" by (simp add: mask_numeral)
  then show "byte c AND 0x0F = byte c mod 16" by (simp only: take_bit_eq_mask [symmetric] take_bit_eq_mod) simp
  have "drop_bit 4 (byte c AND 0xF0) = drop_bit 4 (byte c) AND mask 4" by (simp add: drop_bit_and mask_numeral)
  also have "\<dots> = byte c div 16" using byte_digits(2) [of c]
    by (simp only: take_bit_eq_mask [symmetric] drop_bit_eq_div) (simp add: take_bit_nat_eq_self)
  finally show "drop_bit 4 (byte c AND 0xF0) = byte c div 16" .
qed

lemma unhex_hex:
  "unhex_loop (concat (map (\<lambda>c. [nixio_bin2hex ! drop_bit 4 (byte c AND 0xF0), nixio_bin2hex ! (byte c AND 0x0F)]) s)) = Some s"
  unfolding hex_digits_of
proof (induction s)
  case (Cons c s)
  have "char_of (push_bit 4 (byte c div 16) + byte c mod 16) = c"
    using byte_digits(1) [of c] by (simp add: push_bit_eq_mult mult.commute)
  with Cons show ?case by (simp add: hex_digit_table byte_digits(2,3))
qed simp

lemma length_hex: "length (concat (map (\<lambda>c. [f c, g c]) s)) = 2 * length s"
  by (induction s) simp_all

text \<open>
  \<open>nixio_bin_unhexlify\<close> inverts \<open>nixio_bin_hexlify\<close> for every string of less than \<^verbatim>\<open>2^63\<close> bytes.
\<close>
lemma nixio_hex_roundtrip:
  assumes "length s < 2 ^ 63"
  shows "\<exists>h. nixio_bin_hexlify True s = Nx_str h \<and> length h = 2 * length s \<and> nixio_bin_unhexlify True h = Nx_str s"
proof (cases "s = []")
  case False
  let ?h = "concat (map (\<lambda>c. [nixio_bin2hex ! drop_bit 4 (byte c AND 0xF0), nixio_bin2hex ! (byte c AND 0x0F)]) s)"
  have n: "length ?h = 2 * length s" by (rule length_hex)
  have "size_t (length s * 2) = length s * 2" using assms by (simp add: size_t_def)
  then have "nixio_bin_hexlify True s = Nx_str ?h" using False by (simp add: nixio_bin_hexlify_def)
  moreover have "nixio_bin_unhexlify True ?h = Nx_str s"
    unfolding nixio_bin_unhexlify_def unhex_hex n using False by simp
  ultimately show ?thesis using n by blast
qed (simp add: nixio_bin_hexlify_def nixio_bin_unhexlify_def)

section \<open>Base64\<close>

lemma b64_table: "n < 64 \<Longrightarrow> nixio_b64encode_tbl ! n = b64_char n"
proof -
  assume "n < 64"
  then have "n \<in> set [0..<64]" by simp
  moreover have "list_all (\<lambda>n. nixio_b64encode_tbl ! n = b64_char n) [0..<64]"
    by code_simp
  ultimately show ?thesis by (simp only: list_all_iff)
qed

lemma b64_decode_table:
  "n < 64 \<Longrightarrow> (byte (b64_char n) + 213) mod 256 \<le> 79 \<and> nixio_b64decode_tbl ! ((byte (b64_char n) + 213) mod 256) = n \<and>
    b64_char n \<noteq> CHR ''=''"
proof -
  assume n: "n < 64"
  then have "n \<in> set [0..<64]" by simp
  moreover have "list_all (\<lambda>n. (byte (nixio_b64encode_tbl ! n) + 213) mod 256 \<le> 79 \<and>
      nixio_b64decode_tbl ! ((byte (nixio_b64encode_tbl ! n) + 213) mod 256) = n \<and> nixio_b64encode_tbl ! n \<noteq> CHR ''='') [0..<64]"
    by (simp add: upt_rec nixio_b64decode_tbl_def nixio_b64encode_tbl_def)
  ultimately show ?thesis unfolding b64_table [OF n, symmetric] list_all_iff by blast
qed

lemma or_push: "c < 2 ^ n \<Longrightarrow> push_bit n b OR c = b * 2 ^ n + (c :: nat)"
proof -
  assume c: "c < 2 ^ n"
  then have hi: "\<not> bit c m" if "n \<le> m" for m
    using that by (simp add: bit_iff_odd) (metis div_less less_le_trans one_le_numeral power_increasing even_zero)
  have "push_bit n b + c = push_bit n b OR c"
    by (rule disjunctive_add) (use hi in \<open>auto simp: bit_push_bit_iff\<close>)
  then show ?thesis by (simp add: push_bit_eq_mult)
qed

lemma three_bytes: "a < 256 \<Longrightarrow> b < 256 \<Longrightarrow> c < (256 :: nat) \<Longrightarrow> (a * 256 + b) * 256 + c < 4294967296"
  by simp

lemma unat_b64_word: "unat (b64_word a b c) = (byte a * 256 + byte b) * 256 + byte c"
proof -
  have "push_bit 8 (byte b) OR byte c = byte b * 256 + byte c" using or_push [of "byte c" 8 "byte b"] by simp
  moreover have "byte b * 256 + byte c < 65536" using nat_of_char_less_256 [of b] nat_of_char_less_256 [of c] by linarith
  ultimately have "push_bit 16 (byte a) OR (push_bit 8 (byte b) OR byte c) = (byte a * 256 + byte b) * 256 + byte c"
    using or_push [of "byte b * 256 + byte c" 16 "byte a"] by simp
  moreover have "b64_word a b c = of_nat (push_bit 16 (byte a) OR (push_bit 8 (byte b) OR byte c))"
    by (simp add: b64_word_def of_nat_or_eq of_nat_push_bit or.assoc)
  moreover have "(byte a * 256 + byte b) * 256 + byte c < 4294967296"
    by (rule three_bytes) simp_all
  ultimately show ?thesis by (simp only: unat_of_nat) (simp add: take_bit_nat_eq_self)
qed

lemma unat_sextet: "unat (drop_bit k (cv :: u32) AND 0x3F) = unat cv div 2 ^ k mod 64"
proof -
  have "(0x3F :: u32) = mask 6" by (simp add: mask_numeral)
  then show ?thesis
    by (simp only: take_bit_eq_mask [symmetric] unsigned_take_bit_eq unat_drop_bit_eq)
      (simp add: take_bit_eq_mod drop_bit_eq_div)
qed

lemma b64_group_parts:
  fixes a b c :: nat
  assumes "a < 256" "b < 256" "c < 256"
  shows "((a * 256 + b) * 256 + c) div 2 ^ 18 mod 64 = a div 4" "((a * 256 + b) * 256 + c) div 2 ^ 12 mod 64 = a mod 4 * 16 + b div 16"
    "((a * 256 + b) * 256 + c) div 2 ^ 6 mod 64 = b mod 16 * 4 + c div 64" "((a * 256 + b) * 256 + c) div 2 ^ 0 mod 64 = c mod 64"
proof -
  define p q r s where "p = a div 4" "q = a mod 4 * 16 + b div 16" "r = b mod 16 * 4 + c div 64" "s = c mod 64"
  have n: "(a * 256 + b) * 256 + c = ((p * 64 + q) * 64 + r) * 64 + s" using b64_recompose [of a b c] by (simp add: p_q_r_s_def)
  have b: "p < 64" "q < 64" "r < 64" "s < 64" using b64_sextets [OF assms] by (simp_all add: p_q_r_s_def)
  have d: "(((p * 64 + q) * 64 + r) * 64 + s) div 64 = (p * 64 + q) * 64 + r" "((p * 64 + q) * 64 + r) div 64 = p * 64 + q"
    "(p * 64 + q) div 64 = p" using b by simp_all
  have e: "x div 2 ^ 12 = x div 64 div 64" "x div 2 ^ 18 = x div 64 div 64 div 64" for x :: nat
    by (simp_all add: div_mult2_eq [symmetric])
  show "((a * 256 + b) * 256 + c) div 2 ^ 18 mod 64 = a div 4" unfolding n e d using b by (simp add: p_q_r_s_def)
  show "((a * 256 + b) * 256 + c) div 2 ^ 12 mod 64 = a mod 4 * 16 + b div 16" unfolding n e d using b by (simp add: p_q_r_s_def)
  have "((a * 256 + b) * 256 + c) div 64 mod 64 = r" unfolding n d mod_mult_self3 using b by simp
  then show "((a * 256 + b) * 256 + c) div 2 ^ 6 mod 64 = b mod 16 * 4 + c div 64" by (simp add: p_q_r_s_def)
  show "((a * 256 + b) * 256 + c) div 2 ^ 0 mod 64 = c mod 64"
    unfolding n power_0 div_by_1 mod_mult_self3 by (simp add: p_q_r_s_def)
qed

lemmas b64_parts = b64_group_parts [OF nat_of_char_less_256 nat_of_char_less_256 nat_of_char_less_256]

lemma b64_put_word: "b64_put (b64_word a b c) = b64_group (byte a) (byte b) (byte c)"
  unfolding b64_put_def b64_group_def list.map unat_sextet unat_b64_word b64_parts
  using b64_sextets [of "byte a" "byte b" "byte c"] by (simp add: b64_table)

text \<open>The groups the encoder writes at first; the last one uses the bytes behind the data.\<close>

fun enc_groups :: "char \<Rightarrow> string \<Rightarrow> string" where
  "enc_groups x [] = []"
| "enc_groups x [a] = b64_group (byte a) 0 (byte x)"
| "enc_groups x [a, b] = b64_group (byte a) (byte b) 0"
| "enc_groups x (a # b # c # r) = b64_group (byte a) (byte b) (byte c) @ enc_groups x r"

lemma b64enc_loop_step:
  "n < length p + Suc m \<Longrightarrow> n = length p \<Longrightarrow>
    b64enc_loop (p @ a # b # c # r) (length p + Suc m) n = b64_group (byte a) (byte b) (byte c) @ b64enc_loop (p @ a # b # c # r) (length p + Suc m) (n + 3)"
  by (subst b64enc_loop.simps) (simp add: nth_append b64_put_word)

lemma b64enc_loop_groups: "b64enc_loop (p @ s @ [NUL, x]) (length p + length s) (length p) = enc_groups x s"
proof (induction x s arbitrary: p rule: enc_groups.induct)
  case (1 x)
  show ?case by (subst b64enc_loop.simps) simp
next
  case (2 x a)
  show ?case using b64enc_loop_step [of "length p" p 0 a NUL x "[]"] by (simp add: b64enc_loop.simps)
next
  case (3 x a b)
  show ?case using b64enc_loop_step [of "length p" p 1 a b NUL "[x]"] by (simp add: b64enc_loop.simps)
next
  case (4 x a b c r)
  show ?case using b64enc_loop_step [of "length p" p "length r + 2" a b c "r @ [NUL, x]"] "4.IH" [of "p @ [a, b, c]"]
    by (simp add: numeral_3_eq_3)
qed

lemma length_b64_group [simp]: "length (b64_group a b c) = 4"
  by (simp add: b64_group_def)

lemma length_enc_groups: "length (enc_groups x s) = 4 * ((length s + 2) div 3)"
proof (induction x s rule: enc_groups.induct)
  case (4 x a b c r)
  have "(5 + length r) div 3 = 1 + (length r + 2) div 3" by presburger
  with 4 show ?case by simp
qed simp_all

lemma last_four: "4 \<le> length out \<Longrightarrow> \<exists>p w x y z. out = p @ [w, x, y, z]"
proof -
  assume "4 \<le> length out"
  then have "length (drop (length out - 4) out) = Suc (Suc (Suc (Suc 0)))" by simp
  then obtain w x y z where "drop (length out - 4) out = [w, x, y, z]" unfolding length_Suc_conv by auto
  then have "out = take (length out - 4) out @ [w, x, y, z]" by (metis append_take_drop_id)
  then show ?thesis by blast
qed

lemma b64_padding_last: "b64_padding dat pad (p @ [w, x, y, z]) = p @ b64_padding dat pad [w, x, y, z]"
proof -
  define n where "n = length p"
  have l: "length (p @ [w, x, y, z]) - 1 = n + 3" "length (p @ [w, x, y, z]) - 2 = n + 2" "length (p @ [w, x, y, z]) - 3 = n + 1"
    "length (p @ [w, x, y, z]) - 4 = n + 0" by (simp_all add: n_def)
  have u: "(p @ q)[n + k := v] = p @ q[k := v]" for q k v by (simp add: n_def list_update_append)
  show ?thesis unfolding b64_padding_def Let_def l u
    by (simp add: u u [of _ 0, unfolded add_0_right] u [of _ 1, unfolded One_nat_def, simplified] del: drop_bit_or)
qed

lemma b64_padding_data:
  assumes "pad \<le> length r" and "0 < pad"
  shows "b64_padding (a # b # c # r) pad out = b64_padding r pad out"
proof -
  have "length (a # b # c # r) - pad = Suc (Suc (Suc (length r - pad)))" using assms(1) by simp
  then have "(a # b # c # r) ! (length (a # b # c # r) - pad) = r ! (length r - pad)"
    "(a # b # c # r) ! (length (a # b # c # r) - pad + 1) = r ! (length r - pad + 1)" by simp_all
  then show ?thesis unfolding b64_padding_def Let_def by (simp only:)
qed

lemma b64_word_NUL:
  "b64_word a NUL NUL = push_bit 16 (of_nat (byte a))" "b64_word a b NUL = push_bit 16 (of_nat (byte a)) OR push_bit 8 (of_nat (byte b))"
  by (simp_all add: b64_word_def)

lemma b64_put_NUL:
  "nixio_b64encode_tbl ! unat (drop_bit 18 (b64_word a b c) AND 0x3F) = b64_char (byte a div 4)"
  "nixio_b64encode_tbl ! unat (drop_bit 12 (b64_word a b c) AND 0x3F) = b64_char (byte a mod 4 * 16 + byte b div 16)"
  "nixio_b64encode_tbl ! unat (drop_bit 6 (b64_word a b c) AND 0x3F) = b64_char (byte b mod 16 * 4 + byte c div 64)"
  using b64_sextets [of "byte a" "byte b" "byte c"] by (simp_all only: unat_sextet unat_b64_word b64_parts nat_of_char_less_256 b64_table)

lemma b64_padding_encode:
  "length s mod 3 \<noteq> 0 \<Longrightarrow> b64_padding s (length s mod 3) (enc_groups x s) = b64_encode s"
proof (induction x s rule: enc_groups.induct)
  case (2 x a)
  have "byte NUL = 0" by simp
  then show ?case
    by (simp add: b64_padding_def Let_def b64_word_NUL(1) [symmetric] b64_put_NUL del: push_bit_of_nat) (simp add: b64_group_def)
next
  case (3 x a b)
  then show ?case
    by (simp add: b64_padding_def Let_def b64_word_NUL(2) [symmetric] b64_put_NUL del: push_bit_of_nat drop_bit_or) (simp add: b64_group_def)
next
  case (4 x a b c r)
  then have m: "length r mod 3 \<noteq> 0" by (simp add: mod_Suc_eq)
  then have r: "0 < length r" by (cases r) simp_all
  have "1 \<le> (length r + 2) div 3" using r by presburger
  then have "4 \<le> length (enc_groups x r)" by (simp add: length_enc_groups)
  then obtain p w y z v where e: "enc_groups x r = p @ [w, y, z, v]" using last_four by blast
  have "b64_padding (a # b # c # r) (length r mod 3) (b64_group (byte a) (byte b) (byte c) @ enc_groups x r) =
      b64_group (byte a) (byte b) (byte c) @ b64_padding r (length r mod 3) (enc_groups x r)"
    using m b64_padding_last [of r "length r mod 3" "b64_group (byte a) (byte b) (byte c) @ p"] b64_padding_last [of r "length r mod 3" p]
    by (simp add: e b64_padding_data)
  moreover have "length (a # b # c # r) mod 3 = length r mod 3" by simp
  ultimately show ?case using "4.IH" m by simp
qed simp

text \<open>Characters of the code and their values; the padding counts as zero.\<close>

definition sextet_of :: "char \<Rightarrow> nat \<Rightarrow> bool" where
  "sextet_of x v \<longleftrightarrow> (byte x + 213) mod 256 \<le> 79 \<and> nixio_b64decode_tbl ! ((byte x + 213) mod 256) = v \<and> v < 64"

lemma sextet_of_char: "n < 64 \<Longrightarrow> sextet_of (b64_char n) n"
  using b64_decode_table [of n] by (simp add: sextet_of_def)

lemma sextet_of_pad: "sextet_of (CHR ''='') 0"
  by (simp add: sextet_of_def nixio_b64decode_tbl_def)

lemma b64dec_group_step:
  "sextet_of x v \<Longrightarrow> b64dec_group j cv (x # xs) = b64dec_group (Suc j) (if j \<noteq> 3 then push_bit 6 (cv OR of_nat v) else cv OR of_nat v) xs"
  by (simp add: sextet_of_def Let_def)

lemma b64dec_three:
  assumes "a < 256" "b < 256" "c < 256" and "sextet_of xa (a div 4)" "sextet_of xb (a mod 4 * 16 + b div 16)"
    "sextet_of xc (b mod 16 * 4 + c div 64)" "sextet_of xd (c mod 64)"
  shows "b64dec_loop (xa # xb # xc # xd # r) = map_option (\<lambda>out. [char_of a, char_of b, char_of c] @ out) (b64dec_loop r)"
proof -
  define w where "w = b64_shift4 0 (a div 4) (a mod 4 * 16 + b div 16) (b mod 16 * 4 + c div 64) (c mod 64)"
  have g: "b64dec_group 0 0 [xa, xb, xc, xd] = Some w"
    unfolding b64dec_group_step [OF assms(4)] b64dec_group_step [OF assms(5)] b64dec_group_step [OF assms(6)]
      b64dec_group_step [OF assms(7)] b64dec_group.simps(1) w_def b64_shift4_def by simp
  from low_char_shift4 [OF assms(1-3) w_def] show ?thesis unfolding b64dec_loop.simps(1) g option.case by (simp only:)
qed

lemma b64dec_encode: "b64dec_loop (b64_encode s) = Some (s @ b64_pad s)"
proof (induction s rule: b64_encode.induct)
  case (2 a)
  have "b64dec_loop [b64_char (byte a div 4), b64_char (byte a mod 4 * 16), CHR ''='', CHR ''=''] =
      map_option (\<lambda>out. [char_of (byte a), char_of (0 :: nat), char_of (0 :: nat)] @ out) (b64dec_loop [])"
    using b64_sextets [of "byte a" 0 0] by (intro b64dec_three) (simp_all add: sextet_of_char sextet_of_pad)
  then show ?case by (simp add: b64_group_def)
next
  case (3 a b)
  have "b64dec_loop [b64_char (byte a div 4), b64_char (byte a mod 4 * 16 + byte b div 16), b64_char (byte b mod 16 * 4), CHR ''=''] =
      map_option (\<lambda>out. [char_of (byte a), char_of (byte b), char_of (0 :: nat)] @ out) (b64dec_loop [])"
    using b64_sextets [of "byte a" "byte b" 0] by (intro b64dec_three) (simp_all add: sextet_of_char sextet_of_pad)
  then show ?case by (simp add: b64_group_def)
next
  case (4 a b c r)
  have "b64dec_loop (b64_char (byte a div 4) # b64_char (byte a mod 4 * 16 + byte b div 16) # b64_char (byte b mod 16 * 4 + byte c div 64) #
      b64_char (byte c mod 64) # b64_encode r) = map_option (\<lambda>out. [char_of (byte a), char_of (byte b), char_of (byte c)] @ out) (b64dec_loop (b64_encode r))"
    using b64_sextets [of "byte a" "byte b" "byte c"] by (intro b64dec_three) (simp_all add: sextet_of_char)
  with 4 show ?case by (simp add: b64_group_def)
qed simp

text \<open>The length of the code, and the padding at its end.\<close>

lemma length_b64_encode: "length (b64_encode s) = 4 * ((length s + 2) div 3) \<and> length s + length (b64_pad s) = 3 * ((length s + 2) div 3)"
proof (induction s rule: b64_encode.induct)
  case (4 a b c r)
  have "(5 + length r) div 3 = 1 + (length r + 2) div 3" by presburger
  with 4 show ?case by simp
qed (simp_all add: b64_group_def)

lemma b64_encode_ge: "s \<noteq> [] \<Longrightarrow> 4 \<le> length (b64_encode s)"
  by (cases s rule: b64_encode.cases) (simp_all add: b64_group_def)

lemma b64_encode_end:
  "s \<noteq> [] \<Longrightarrow> (if rev (b64_encode s) ! 0 = CHR ''='' then 1 else 0) + (if rev (b64_encode s) ! 1 = CHR ''='' then 1 else 0) = length (b64_pad s)"
proof (induction s rule: b64_encode.induct)
  case (2 a)
  show ?case by (simp add: b64_group_def)
next
  case (3 a b)
  show ?case using b64_decode_table [of "byte b mod 16 * 4"] by (simp add: b64_group_def)
next
  case (4 a b c r)
  show ?case
  proof (cases "r = []")
    case True
    then show ?thesis
      using b64_decode_table [OF b64_sextets(3) [of "byte a" "byte b" "byte c"]] b64_decode_table [OF b64_sextets(4) [of "byte a" "byte b" "byte c"]]
      by (simp add: b64_group_def)
  next
    case False
    then have "4 \<le> length (b64_encode r)" by (rule b64_encode_ge)
    then have "0 < length (rev (b64_encode r))" "1 < length (rev (b64_encode r))" by auto
    then have "rev (b64_encode (a # b # c # r)) ! 0 = rev (b64_encode r) ! 0" "rev (b64_encode (a # b # c # r)) ! 1 = rev (b64_encode r) ! 1"
      by (simp_all add: nth_append)
    with "4.IH" [OF False] show ?thesis by (simp only: b64_pad.simps)
  qed
qed simp

text \<open>
  C28: \<open>nixio_bin_b64encode\<close> gives the RFC 4648 code of every string of less than \<^verbatim>\<open>2^62\<close> bytes, although it first
  encodes up to two bytes behind the string: they do not show in the result. \<open>nixio_bin_b64decode\<close> gives
  the string back.
\<close>
theorem nixio_b64_roundtrip:
  assumes "length s < 2 ^ 62"
  shows "nixio_bin_b64encode True x s = Nx_str (b64_encode s) \<and> nixio_bin_b64decode True (b64_encode s) = Nx_str s"
proof (cases "s = []")
  case False
  have "n < n div 3 * 4 + (if n mod 3 \<noteq> 0 then 4 else 0)" if "0 < n" for n :: nat
    using that by (cases "n mod 3 = 0"; simp; presburger)
  from this [of "length s"] False have "length s < length s div 3 * 4 + (if length s mod 3 \<noteq> 0 then 4 else 0)" by simp
  moreover have "size_t (length s div 3 * 4 + (if length s mod 3 \<noteq> 0 then 4 else 0)) = length s div 3 * 4 + (if length s mod 3 \<noteq> 0 then 4 else 0)"
    unfolding size_t_def using assms by (intro mod_less) (simp, linarith)
  moreover have "b64enc_loop (s @ [NUL, x]) (length s) 0 = enc_groups x s" using b64enc_loop_groups [of "[]"] by simp
  moreover have "enc_groups x s = b64_encode s" if "length s mod 3 = 0"
    using that by (induction x s rule: enc_groups.induct) simp_all
  ultimately have "nixio_bin_b64encode True x s = Nx_str (b64_encode s)"
    using False b64_padding_encode [of s x] by (simp add: nixio_bin_b64encode_def Let_def)
  moreover have "nixio_bin_b64decode True (b64_encode s) = Nx_str s"
  proof -
    define e where "e = b64_encode s"
    have e: "4 \<le> length e" "length e mod 4 = 0"
      using length_b64_encode [of s] b64_encode_ge [OF False] by (simp_all add: e_def)
    have "0 < length e" "1 < length e" using e(1) by linarith+
    then have "rev e ! 0 = e ! (length e - 1)" "rev e ! 1 = e ! (length e - 2)" by (simp_all only: rev_nth) (simp_all add: numeral_2_eq_2)
    with b64_encode_end [OF False] have
      "(if e ! (length e - 1) = CHR ''='' then 1 else 0) + (if e ! (length e - 2) = CHR ''='' then 1 else 0) = length (b64_pad s)"
      unfolding e_def by simp
    moreover have "length e div 4 * 3 = length s + length (b64_pad s)" using length_b64_encode [of s] by (simp add: e_def)
    ultimately have n: "length e div 4 * 3 - (if e ! (length e - 1) = CHR ''='' then 1 else 0) - (if e ! (length e - 2) = CHR ''='' then 1 else 0) = length s"
      by (simp only: diff_diff_left diff_add_inverse2)
    have "e \<noteq> []" using e(1) by auto
    then show ?thesis using e(2) unfolding e_def [symmetric] nixio_bin_b64decode_def Let_def n
      using b64dec_encode [of s] by (simp add: e_def)
  qed
  ultimately show ?thesis ..
qed (simp add: nixio_bin_b64encode_def nixio_bin_b64decode_def)

theorem nixio_b64_roundtrip_witness:
  "nixio_bin_b64encode True CHR ''?'' ''Aladdin:open sesame'' = Nx_str ''QWxhZGRpbjpvcGVuIHNlc2FtZQ=='' \<and>
   nixio_bin_b64decode True ''QWxhZGRpbjpvcGVuIHNlc2FtZQ=='' = Nx_str ''Aladdin:open sesame''"
proof -
  have "b64_encode ''Aladdin:open sesame'' = ''QWxhZGRpbjpvcGVuIHNlc2FtZQ==''" by code_simp
  with nixio_b64_roundtrip [of "''Aladdin:open sesame''" "CHR ''?''"] show ?thesis by (simp del: b64_encode.simps)
qed

end
