(* ===== verification/Luci_Bwc.thy ===== *)
theory Luci_Bwc
  imports OSan_Prelude
begin

text \<open>
  The statistics daemon of the status pages (\<^verbatim>\<open>luci-bwc.c\<close>): it samples the counters of the kernel once a second into
  files that hold the last 60 samples, and prints them for the pages. Files are byte strings, entries are laid out as on a
  64-bit machine of either byte order. The answers of the system calls are a record of parameters.

  The locale \<open>ring\<close> states what the files rely on of their entries: a fixed size and an encoding that can be
  read back. It is interpreted for the three kinds of entries.
\<close>

unbundle bit_operations_syntax

section \<open>Byte order\<close>

type_synonym u16 = "16 word"
type_synonym u64 = "64 word"

fun be_bytes :: "nat \<Rightarrow> nat \<Rightarrow> string" where
  "be_bytes 0 v = []"
| "be_bytes (Suc n) v = be_bytes n (v div 256) @ [char_of v]"

fun be_val :: "nat \<Rightarrow> string \<Rightarrow> nat" where
  "be_val acc [] = acc"
| "be_val acc (c # s) = be_val (acc * 256 + byte c) s"

text \<open>An integer of \<open>n\<close> bytes in memory; \<open>le\<close> says that its lowest byte comes first.\<close>

definition mem_of :: "bool \<Rightarrow> nat \<Rightarrow> nat \<Rightarrow> string" where
  "mem_of le n v = (if le then rev (be_bytes n v) else be_bytes n v)"

definition val_of :: "bool \<Rightarrow> string \<Rightarrow> nat" where
  "val_of le s = be_val 0 (if le then rev s else s)"

text \<open>The conversions to network byte order of the C library.\<close>

definition bswap16 :: "u16 \<Rightarrow> u16" where
  "bswap16 w = push_bit 8 w OR drop_bit 8 w"

definition bswap32 :: "u32 \<Rightarrow> u32" where
  "bswap32 w = push_bit 24 w OR push_bit 16 (take_bit 8 (drop_bit 8 w)) OR push_bit 8 (take_bit 8 (drop_bit 16 w)) OR drop_bit 24 w"

definition htons :: "bool \<Rightarrow> u16 \<Rightarrow> u16" where
  "htons le w = (if le then bswap16 w else w)"

definition htonl :: "bool \<Rightarrow> u32 \<Rightarrow> u32" where
  "htonl le w = (if le then bswap32 w else w)"

definition htonll :: "bool \<Rightarrow> u64 \<Rightarrow> u64" where
  "htonll le value = (if le then ucast (htonl le (ucast (value AND 0xFFFFFFFF)) OR htonl le (ucast (drop_bit 32 value))) else value)"

section \<open>Entries and files\<close>

definition STEP_COUNT :: nat where "STEP_COUNT = 60"

record traffic_entry =
  te_time :: u64
  te_rxb :: u64
  te_rxp :: u64
  te_txb :: u64
  te_txp :: u64

text \<open>The last fields are the padding of the structures.\<close>

record conn_entry =
  ce_time :: u64
  ce_udp :: u32
  ce_tcp :: u32
  ce_other :: u32
  ce_pad :: u32

record load_entry =
  ld_time :: u64
  ld_load1 :: u16
  ld_load5 :: u16
  ld_load15 :: u16
  ld_pad :: u16

definition traffic_mem :: "bool \<Rightarrow> traffic_entry \<Rightarrow> string" where
  "traffic_mem le e = concat (map (\<lambda>f. mem_of le 8 (unat (f e))) [te_time, te_rxb, te_rxp, te_txb, te_txp])"

definition conn_mem :: "bool \<Rightarrow> conn_entry \<Rightarrow> string" where
  "conn_mem le e = mem_of le 8 (unat (ce_time e)) @ concat (map (\<lambda>f. mem_of le 4 (unat (f e))) [ce_udp, ce_tcp, ce_other, ce_pad])"

definition load_mem :: "bool \<Rightarrow> load_entry \<Rightarrow> string" where
  "load_mem le e = mem_of le 8 (unat (ld_time e)) @ concat (map (\<lambda>f. mem_of le 2 (unat (f e))) [ld_load1, ld_load5, ld_load15, ld_pad])"

definition field :: "bool \<Rightarrow> nat \<Rightarrow> nat \<Rightarrow> string \<Rightarrow> 'a::len word" where
  "field le off n s = of_nat (val_of le (take n (drop off s)))"

definition traffic_at :: "bool \<Rightarrow> string \<Rightarrow> traffic_entry" where
  "traffic_at le s = \<lparr>te_time = field le 0 8 s, te_rxb = field le 8 8 s, te_rxp = field le 16 8 s, te_txb = field le 24 8 s,
     te_txp = field le 32 8 s\<rparr>"

definition conn_at :: "bool \<Rightarrow> string \<Rightarrow> conn_entry" where
  "conn_at le s = \<lparr>ce_time = field le 0 8 s, ce_udp = field le 8 4 s, ce_tcp = field le 12 4 s, ce_other = field le 16 4 s,
     ce_pad = field le 20 4 s\<rparr>"

definition load_at :: "bool \<Rightarrow> string \<Rightarrow> load_entry" where
  "load_at le s = \<lparr>ld_time = field le 0 8 s, ld_load1 = field le 8 2 s, ld_load5 = field le 10 2 s, ld_load15 = field le 12 2 s,
     ld_pad = field le 14 2 s\<rparr>"

record bwc_env =
  be_le :: bool
  be_mkdir :: "string \<Rightarrow> bool"
  be_open :: "string \<Rightarrow> bool"
  be_write :: "nat \<Rightarrow> nat option"
  be_mmap :: "string \<Rightarrow> bool"
  be_strerror :: string
  be_time :: u64

record bwc_fs =
  fs_files :: "string \<Rightarrow> string option"
  fs_dirs :: "string list"

text \<open>
  Making the directories of a path: whether all exist now, and what the path holds, which is cut where \<^verbatim>\<open>mkdir()\<close>
  failed.
\<close>

fun init_dirs :: "bwc_env \<Rightarrow> string \<Rightarrow> string \<Rightarrow> bwc_fs \<Rightarrow> bool \<times> string \<times> bwc_fs" where
  "init_dirs e pre [] fs = (True, pre, fs)"
| "init_dirs e pre (c # r) fs =
    (if c = CHR ''/''
     then (if be_mkdir e pre then init_dirs e (pre @ [c]) r (fs\<lparr>fs_dirs := pre # fs_dirs fs\<rparr>) else (False, pre, fs))
     else init_dirs e (pre @ [c]) r fs)"

definition init_directory :: "bwc_env \<Rightarrow> string \<Rightarrow> bwc_fs \<Rightarrow> bool \<times> string \<times> bwc_fs" where
  "init_directory e path fs = init_dirs e (take 1 path) (drop 1 path) fs"

text \<open>The writes of zeros into a new file, \<open>n\<close> to go, the next one at \<open>off\<close>; the answer of \<^verbatim>\<open>write()\<close> is how much it takes.\<close>

fun init_writes :: "bwc_env \<Rightarrow> nat \<Rightarrow> nat \<Rightarrow> nat \<Rightarrow> string \<Rightarrow> string" where
  "init_writes e esize 0 off file = file"
| "init_writes e esize (Suc n) off file = (case be_write e n of
     None \<Rightarrow> file
   | Some k \<Rightarrow> (let m = min k esize
                 in init_writes e esize n (off + m) (take off file @ replicate m NUL @ drop (off + m) file)))"

definition init_file :: "bwc_env \<Rightarrow> string \<Rightarrow> nat \<Rightarrow> bwc_fs \<Rightarrow> int \<times> string \<times> bwc_fs" where
  "init_file e path esize fs = (case init_directory e path fs of
     (False, path1, fs1) \<Rightarrow> (-1, path1, fs1)
   | (True, path1, fs1) \<Rightarrow>
       if be_open e path1
       then (let old = (case fs_files fs1 path1 of None \<Rightarrow> [] | Some c \<Rightarrow> c)
             in (0, path1, fs1\<lparr>fs_files := (fs_files fs1)(path1 \<mapsto> init_writes e esize STEP_COUNT 0 old)\<rparr>))
       else (-1, path1, fs1))"

text \<open>
  The mapping of a file that is too short: behind its end the page reads as zeros and loses what is written, an
  empty file has no page and the access kills the process (\<^const>\<open>None\<close>). The mappings are shorter than a page.
\<close>

definition map_file :: "nat \<Rightarrow> string \<Rightarrow> string option" where
  "map_file n c = (if c = [] then None else Some (take n (c @ replicate (n - length c) NUL)))"

definition update_file :: "bwc_env \<Rightarrow> string \<Rightarrow> string \<Rightarrow> nat \<Rightarrow> bwc_fs \<Rightarrow> (int \<times> bwc_fs) option" where
  "update_file e path entry esize fs = (case fs_files fs path of
     None \<Rightarrow> Some (-1, fs)
   | Some c \<Rightarrow>
       if \<not> be_open e path \<or> \<not> be_mmap e path then Some (-1, fs)
       else (case map_file (esize * STEP_COUNT) c of
           None \<Rightarrow> None
         | Some m \<Rightarrow> Some (0, fs\<lparr>fs_files := (fs_files fs)(path \<mapsto>
             take (length c) (drop esize m @ entry) @ drop (esize * STEP_COUNT) c)\<rparr>)))"

text \<open>A file mapped for reading.\<close>

definition mmap_file :: "bwc_env \<Rightarrow> string \<Rightarrow> nat \<Rightarrow> bwc_fs \<Rightarrow> string option option" where
  "mmap_file e path esize fs = (case fs_files fs path of
     None \<Rightarrow> Some None
   | Some c \<Rightarrow>
       if \<not> be_open e path \<or> \<not> be_mmap e path then Some None
       else (case map_file (STEP_COUNT * esize) c of None \<Rightarrow> None | Some m \<Rightarrow> Some (Some m)))"

definition if_path :: "string \<Rightarrow> string" where
  "if_path ifname = take 1023 (''/var/lib/luci-bwc/if/'' @ ifname)"

definition cn_path :: string where "cn_path = ''/var/lib/luci-bwc/connections''"

definition ld_path :: string where "ld_path = ''/var/lib/luci-bwc/load''"

text \<open>What the three updates share: creating the file if it is missing, and adding the entry. The result is the
  status, the text for the standard error output and the files.\<close>

definition update_stat :: "bwc_env \<Rightarrow> string \<Rightarrow> string \<Rightarrow> nat \<Rightarrow> bwc_fs \<Rightarrow> (int \<times> string \<times> bwc_fs) option" where
  "update_stat e path entry esize fs =
    (case (if fs_files fs path = None then init_file e path esize fs else (0, path, fs)) of (rv, path1, fs1) \<Rightarrow>
       if rv \<noteq> 0 then Some (-1, ''Failed to init '' @ path1 @ '': '' @ be_strerror e @ [LF], fs1)
       else map_option (\<lambda>(rv, fs2). (rv, [], fs2)) (update_file e path1 entry esize fs1))"

definition update_ifstat :: "bwc_env \<Rightarrow> string \<Rightarrow> u64 \<Rightarrow> u64 \<Rightarrow> u64 \<Rightarrow> u64 \<Rightarrow> bwc_fs \<Rightarrow> (int \<times> string \<times> bwc_fs) option" where
  "update_ifstat e ifname rxb rxp txb txp fs =
    update_stat e (if_path ifname)
      (traffic_mem (be_le e) \<lparr>te_time = htonll (be_le e) (be_time e), te_rxb = htonll (be_le e) rxb, te_rxp = htonll (be_le e) rxp,
         te_txb = htonll (be_le e) txb, te_txp = htonll (be_le e) txp\<rparr>) 40 fs"

definition update_cnstat :: "bwc_env \<Rightarrow> u32 \<Rightarrow> u32 \<Rightarrow> u32 \<Rightarrow> u32 \<Rightarrow> bwc_fs \<Rightarrow> (int \<times> string \<times> bwc_fs) option" where
  "update_cnstat e pad udp tcp other fs =
    update_stat e cn_path
      (conn_mem (be_le e) \<lparr>ce_time = htonll (be_le e) (be_time e), ce_udp = htonl (be_le e) udp, ce_tcp = htonl (be_le e) tcp,
         ce_other = htonl (be_le e) other, ce_pad = pad\<rparr>) 24 fs"

definition update_ldstat :: "bwc_env \<Rightarrow> u16 \<Rightarrow> u16 \<Rightarrow> u16 \<Rightarrow> u16 \<Rightarrow> bwc_fs \<Rightarrow> (int \<times> string \<times> bwc_fs) option" where
  "update_ldstat e pad load1 load5 load15 fs =
    update_stat e ld_path
      (load_mem (be_le e) \<lparr>ld_time = htonll (be_le e) (be_time e), ld_load1 = htons (be_le e) load1, ld_load5 = htons (be_le e) load5,
         ld_load15 = htons (be_le e) load15, ld_pad = pad\<rparr>) 16 fs"

section \<open>Printing\<close>

text \<open>The loops over a mapping: \<open>show\<close> gives the text of an entry, nothing for one whose time is zero.\<close>

function dump_loop :: "nat \<Rightarrow> (string \<Rightarrow> string option) \<Rightarrow> string \<Rightarrow> nat \<Rightarrow> string" where
  "dump_loop esize shw m i =
    (if i < length m \<and> 0 < esize
     then (case shw (take esize (drop i m)) of
         None \<Rightarrow> []
       | Some t \<Rightarrow> t @ (if i + esize < length m then '','' else []) @ [LF]) @ dump_loop esize shw m (i + esize)
     else [])"
  by pat_completeness auto
termination by (relation "measure (\<lambda>(esize, shw, m, i). length m - i)") auto

declare dump_loop.simps [simp del]

definition fields_text :: "nat list \<Rightarrow> string" where
  "fields_text vs = ''[ '' @ fmt_dec (hd vs) @ concat (map (\<lambda>v. '', '' @ fmt_dec v) (tl vs)) @ '' ]''"

definition traffic_text :: "bool \<Rightarrow> traffic_entry \<Rightarrow> string option" where
  "traffic_text le e = (if te_time e = 0 then None
     else Some (fields_text (map (\<lambda>f. unat (htonll le (f e))) [te_time, te_rxb, te_rxp, te_txb, te_txp])))"

definition conn_text :: "bool \<Rightarrow> conn_entry \<Rightarrow> string option" where
  "conn_text le e = (if ce_time e = 0 then None
     else Some (fields_text (unat (htonll le (ce_time e)) # map (\<lambda>f. unat (htonl le (f e))) [ce_udp, ce_tcp, ce_other])))"

definition load_text :: "bool \<Rightarrow> load_entry \<Rightarrow> string option" where
  "load_text le e = (if ld_time e = 0 then None
     else Some (fields_text (unat (htonll le (ld_time e)) # map (\<lambda>f. unat (htons le (f e))) [ld_load1, ld_load5, ld_load15])))"

definition run_dump :: "bwc_env \<Rightarrow> string \<Rightarrow> nat \<Rightarrow> (string \<Rightarrow> string option) \<Rightarrow> bwc_fs \<Rightarrow> (int \<times> string) option" where
  "run_dump e path esize shw fs = (case mmap_file e path esize fs of
     None \<Rightarrow> None
   | Some None \<Rightarrow> Some (1, ''Failed to open '' @ path @ '': '' @ be_strerror e @ [LF])
   | Some (Some m) \<Rightarrow> Some (0, dump_loop esize shw m 0))"

definition run_dump_ifname :: "bwc_env \<Rightarrow> string \<Rightarrow> bwc_fs \<Rightarrow> (int \<times> string) option" where
  "run_dump_ifname e ifname = run_dump e (if_path ifname) 40 (\<lambda>s. traffic_text (be_le e) (traffic_at (be_le e) s))"

definition run_dump_conns :: "bwc_env \<Rightarrow> bwc_fs \<Rightarrow> (int \<times> string) option" where
  "run_dump_conns e = run_dump e cn_path 24 (\<lambda>s. conn_text (be_le e) (conn_at (be_le e) s))"

definition run_dump_load :: "bwc_env \<Rightarrow> bwc_fs \<Rightarrow> (int \<times> string) option" where
  "run_dump_load e = run_dump e ld_path 16 (\<lambda>s. load_text (be_le e) (load_at (be_le e) s))"

section \<open>The daemon\<close>

text \<open>
  The variables of the daemon keep their values when a line does not give new ones. \<open>ob_eof\<close> says whether \<^verbatim>\<open>sscanf()\<close>
  returns \<^verbatim>\<open>EOF\<close> when the input ends behind conversions without an assignment, on which libraries differ.
\<close>

record bwc_vars =
  v_ifname :: string
  v_rxb :: u64
  v_rxp :: u64
  v_txb :: u64
  v_txp :: u64

definition scan_int :: "string \<Rightarrow> (int \<times> string) option" where
  "scan_int s =
    (let s1 = dropWhile isspace s;
         (sg, s2) = (case s1 of c # r \<Rightarrow> if c = CHR ''-'' then (-1, r) else if c = CHR ''+'' then (1, r) else (1, s1) | [] \<Rightarrow> (1, s1));
         ds = takeWhile isdigit s2
     in if ds = [] then None else Some (sg * int (digits_val 0 ds), drop (length ds) s2))"

text \<open>A number that does not fit is read as the largest one, a negative one wraps.\<close>

definition scan_u64 :: "string \<Rightarrow> (u64 \<times> string) option" where
  "scan_u64 s = map_option (\<lambda>(v, r). (if 2 ^ 64 \<le> \<bar>v\<bar> then - 1 else word_of_int v, r)) (scan_int s)"

fun skip_ints :: "nat \<Rightarrow> string \<Rightarrow> string option" where
  "skip_ints 0 s = Some s"
| "skip_ints (Suc n) s = (case scan_int s of None \<Rightarrow> None | Some (v, r) \<Rightarrow> skip_ints n r)"

text \<open>
  \<^verbatim>\<open>sscanf(line, IF_SCAN_PATTERN, ...)\<close>: its result and the variables; \<^const>\<open>None\<close> if the name does not fit its
  buffer of 16 bytes.
\<close>

definition scan_ifline :: "string \<Rightarrow> bwc_vars \<Rightarrow> (int \<times> bwc_vars) option" where
  "scan_ifline line v =
    (let s = dropWhile isspace line; name = takeWhile (\<lambda>c. c \<noteq> CHR '' '' \<and> c \<noteq> CHR '':'') s; r = drop (length name) s;
         v1 = v\<lparr>v_ifname := name\<rparr>
     in if s = [] then Some (-1, v)
        else if name = [] then Some (0, v)
        else if 16 \<le> length name then None
        else Some (case r of
            [] \<Rightarrow> (1, v1)
          | c # r1 \<Rightarrow> if c \<noteq> CHR '':'' then (1, v1) else
              (case scan_u64 r1 of None \<Rightarrow> (1, v1) | Some (x1, r2) \<Rightarrow> let v2 = v1\<lparr>v_rxb := x1\<rparr> in
              (case scan_u64 r2 of None \<Rightarrow> (2, v2) | Some (x2, r3) \<Rightarrow> let v3 = v2\<lparr>v_rxp := x2\<rparr> in
              (case skip_ints 6 r3 of None \<Rightarrow> (3, v3) | Some r4 \<Rightarrow>
              (case scan_u64 r4 of None \<Rightarrow> (3, v3) | Some (x4, r5) \<Rightarrow> let v4 = v3\<lparr>v_txb := x4\<rparr> in
              (case scan_u64 r5 of None \<Rightarrow> (4, v4) | Some (x5, r6) \<Rightarrow> (5, v4\<lparr>v_txp := x5\<rparr>))))))))"

definition daemon_ifline :: "bwc_env \<Rightarrow> string \<Rightarrow> bwc_vars \<times> bwc_fs \<Rightarrow> (bwc_vars \<times> bwc_fs) option" where
  "daemon_ifline e line st = (case st of (v, fs) \<Rightarrow>
     if CHR ''|'' \<in> set (cstr line) then Some (v, fs)
     else (case scan_ifline (cstr line) v of
         None \<Rightarrow> None
       | Some (n, v1) \<Rightarrow>
           if n \<noteq> 0 \<and> v_ifname v1 \<noteq> ''lo''
           then map_option (\<lambda>(rv, msg, fs1). (v1, fs1)) (update_ifstat e (v_ifname v1) (v_rxb v1) (v_rxp v1) (v_txb v1) (v_txp v1) fs)
           else Some (v1, fs)))"

text \<open>\<^verbatim>\<open>sscanf(line, "%*s %*d %s", ifname)\<close> and \<^verbatim>\<open>sscanf(line, "%s %*d", ifname)\<close>: the result and the word that is stored.\<close>

definition scan_third :: "bool \<Rightarrow> string \<Rightarrow> int \<times> string option" where
  "scan_third eof line =
    (let s1 = dropWhile isspace line; r1 = dropWhile (\<lambda>c. \<not> isspace c) s1; short = (if eof then -1 else 0)
     in if s1 = [] then (-1, None)
        else if dropWhile isspace r1 = [] then (short, None)
        else (case scan_int r1 of
            None \<Rightarrow> (0, None)
          | Some (v, r2) \<Rightarrow> (let s3 = dropWhile isspace r2
              in if s3 = [] then (short, None) else (1, Some (takeWhile (\<lambda>c. \<not> isspace c) s3)))))"

definition scan_first :: "string \<Rightarrow> int \<times> string option" where
  "scan_first line = (let s1 = dropWhile isspace line in if s1 = [] then (-1, None) else (1, Some (takeWhile (\<lambda>c. \<not> isspace c) s1)))"

text \<open>A line of the connection table; the counters are those of udp, tcp and other connections.\<close>

definition daemon_connline :: "bool \<Rightarrow> string \<Rightarrow> string \<times> u32 \<times> u32 \<times> u32 \<Rightarrow> (string \<times> u32 \<times> u32 \<times> u32) option" where
  "daemon_connline eof line st = (case st of (ifname, udp, tcp, other) \<Rightarrow>
     if (\<exists>i \<le> length line. strneq (drop i (cstr line)) ''TIME_WAIT'' 9) then Some st
     else (case scan_third eof (cstr line) of (n, w) \<Rightarrow>
       (case (if n \<noteq> 0 then w else snd (scan_first (cstr line))) of
          Some name \<Rightarrow> if 16 \<le> length name then None
            else Some (if name = ''tcp'' then (name, udp, tcp + 1, other)
                       else if name = ''udp'' then (name, udp + 1, tcp, other) else (name, udp, tcp, other + 1))
        | None \<Rightarrow>
            Some (if ifname = ''tcp'' then (ifname, udp, tcp + 1, other)
                  else if ifname = ''udp'' then (ifname, udp + 1, tcp, other) else (ifname, udp, tcp, other + 1)))))"

fun fold_opt :: "('l \<Rightarrow> 's \<Rightarrow> 's option) \<Rightarrow> 'l list \<Rightarrow> 's \<Rightarrow> 's option" where
  "fold_opt f [] s = Some s"
| "fold_opt f (l # ls) s = (case f l s of None \<Rightarrow> None | Some s1 \<Rightarrow> fold_opt f ls s1)"

text \<open>
  What a pass of the daemon finds: the contents of the two tables, as far as the files can be opened, and the three loads
  as they come out of \<^verbatim>\<open>fscanf()\<close>, the multiplication by 100 and the conversion from \<^verbatim>\<open>float\<close>, if its result is not zero;
  the padding of the entries on the stack is arbitrary.
\<close>

record bwc_obs =
  ob_env :: bwc_env
  ob_eof :: bool
  ob_dev :: "string option"
  ob_conn :: "string option"
  ob_load :: "(u16 \<times> u16 \<times> u16) option"
  ob_pad32 :: u32
  ob_pad16 :: u16

definition pass_dev :: "bwc_obs \<Rightarrow> bwc_vars \<times> bwc_fs \<Rightarrow> (bwc_vars \<times> bwc_fs) option" where
  "pass_dev ob st = (case ob_dev ob of None \<Rightarrow> Some st | Some c \<Rightarrow> fold_opt (daemon_ifline (ob_env ob)) (fgets_lines 1023 c) st)"

definition pass_conn :: "bwc_obs \<Rightarrow> bwc_vars \<times> bwc_fs \<Rightarrow> (bwc_vars \<times> bwc_fs) option" where
  "pass_conn ob st = (case st of (v, fs) \<Rightarrow> (case ob_conn ob of
     None \<Rightarrow> Some st
   | Some c \<Rightarrow> (case fold_opt (daemon_connline (ob_eof ob)) (fgets_lines 1023 c) (v_ifname v, 0, 0, 0) of
       None \<Rightarrow> None
     | Some (ifname, udp, tcp, other) \<Rightarrow>
         map_option (\<lambda>(rv, msg, fs1). (v\<lparr>v_ifname := ifname\<rparr>, fs1)) (update_cnstat (ob_env ob) (ob_pad32 ob) udp tcp other fs))))"

definition pass_load :: "bwc_obs \<Rightarrow> bwc_vars \<times> bwc_fs \<Rightarrow> (bwc_vars \<times> bwc_fs) option" where
  "pass_load ob st = (case st of (v, fs) \<Rightarrow> (case ob_load ob of
     None \<Rightarrow> Some st
   | Some (l1, l5, l15) \<Rightarrow>
       map_option (\<lambda>(rv, msg, fs1). (v, fs1)) (update_ldstat (ob_env ob) (ob_pad16 ob) l1 l5 l15 fs)))"

definition daemon_pass :: "bwc_obs \<Rightarrow> bwc_vars \<times> bwc_fs \<Rightarrow> (bwc_vars \<times> bwc_fs) option" where
  "daemon_pass ob st = (case pass_dev ob st of None \<Rightarrow> None | Some st1 \<Rightarrow>
     (case pass_conn ob st1 of None \<Rightarrow> None | Some st2 \<Rightarrow> pass_load ob st2))"

text \<open>The start of the daemon and the first passes of its loop, which has no end.\<close>

datatype bwc_fork = Fork_failed | Fork_parent | Fork_child bool

datatype bwc_exit = Exit int | Killed | Running bwc_vars bwc_fs

definition run_daemon :: "bwc_fork \<Rightarrow> bool \<Rightarrow> bwc_obs list \<Rightarrow> bwc_vars \<times> bwc_fs \<Rightarrow> bwc_exit" where
  "run_daemon frk nofork obs st =
    (let loop = (case fold_opt daemon_pass obs st of
                   None \<Rightarrow> Killed | Some (v, fs) \<Rightarrow> Running v fs)
     in if nofork then loop
        else (case frk of
            Fork_failed \<Rightarrow> Exit (-1)
          | Fork_parent \<Rightarrow> Exit 0
          | Fork_child chdir_ok \<Rightarrow> if chdir_ok then loop else Exit 1))"

text \<open>The command line, as \<^verbatim>\<open>getopt()\<close> returns it: the printing options act at once.\<close>

fun bwc_options :: "bwc_env \<Rightarrow> (char \<times> string) list \<Rightarrow> bool \<Rightarrow> bool \<Rightarrow> bwc_fs \<Rightarrow> (int \<times> string) option + (bool \<times> bool)" where
  "bwc_options e [] dmn nofork fs = Inr (dmn, nofork)"
| "bwc_options e ((opt, optarg) # r) dmn nofork fs =
    (if opt = CHR ''d'' then bwc_options e r True nofork fs
     else if opt = CHR ''f'' then bwc_options e r dmn True fs
     else if opt = CHR ''i'' then Inl (run_dump_ifname e optarg fs)
     else if opt = CHR ''c'' then Inl (run_dump_conns e fs)
     else if opt = CHR ''l'' then Inl (run_dump_load e fs)
     else bwc_options e r dmn nofork fs)"

definition bwc_usage :: "string \<Rightarrow> string" where
  "bwc_usage argv0 = ''Usage:'' @ [LF] @ concat (map (\<lambda>o1. TAB # argv0 @ o1 @ [LF]) ['' -d [-f]'', '' -i ifname'', '' -c'', '' -l''])"

definition bwc_main :: "bwc_fork \<Rightarrow> bwc_obs list \<Rightarrow> bwc_env \<Rightarrow> string \<Rightarrow> (char \<times> string) list \<Rightarrow> bwc_vars \<times> bwc_fs \<Rightarrow> (int \<times> string) option + bwc_exit" where
  "bwc_main frk obs e argv0 opts st = (case bwc_options e opts False False (snd st) of
     Inl r \<Rightarrow> Inl r
   | Inr (dmn, nofork) \<Rightarrow> if dmn then Inr (run_daemon frk nofork obs st) else Inl (Some (1, bwc_usage argv0)))"

section \<open>The byte order of 64-bit numbers\<close>

lemma bit_bswap32: "n < 32 \<Longrightarrow> bit (bswap32 w) n \<longleftrightarrow>
    bit w (if n < 8 then n + 24 else if n < 16 then n + 8 else if n < 24 then n - 8 else n - 24)"
  by (auto simp: bswap32_def bit_or_iff bit_push_bit_iff bit_take_bit_iff bit_drop_bit_eq add.commute dest: bit_imp_le_length)

lemma bswap32_bswap32: "bswap32 (bswap32 w) = w"
  by (rule bit_eqI) (simp add: bit_bswap32, auto)

lemma bswap32_or: "bswap32 (v OR w) = bswap32 v OR bswap32 w"
  by (rule bit_eqI) (simp add: bit_bswap32 bit_or_iff)

lemma bswap32_0: "bswap32 0 = 0"
  by (simp add: bswap32_def)

lemma bswap32_eq_0: "bswap32 w = 0 \<longleftrightarrow> w = 0"
  by (metis bswap32_0 bswap32_bswap32)

lemma bit_bswap16: "n < 16 \<Longrightarrow> bit (bswap16 w) n \<longleftrightarrow> bit w (if n < 8 then n + 8 else n - 8)"
  by (auto simp: bswap16_def bit_or_iff bit_push_bit_iff bit_drop_bit_eq add.commute dest: bit_imp_le_length)

lemma bswap16_bswap16: "bswap16 (bswap16 w) = w"
  by (rule bit_eqI) (simp add: bit_bswap16, auto)

lemma htons_htons [simp]: "htons le (htons le w) = w"
  by (simp add: htons_def bswap16_bswap16)

lemma htonl_htonl [simp]: "htonl le (htonl le w) = w"
  by (simp add: htonl_def bswap32_bswap32)

text \<open>The two halves of a number, one laid over the other.\<close>

definition folded :: "bool \<Rightarrow> u64 \<Rightarrow> u64" where
  "folded le v = (if le then take_bit 32 v OR drop_bit 32 v else v)"

lemma ucast_low: "ucast (v AND 0xFFFFFFFF) = (ucast v :: u32)" for v :: u64
proof -
  have "(0xFFFFFFFF :: u64) = mask 32" by (simp add: mask_numeral)
  then have "v AND 0xFFFFFFFF = take_bit 32 v" by (simp only: take_bit_eq_mask)
  then show ?thesis by (intro bit_eqI) (auto simp: bit_ucast_iff bit_take_bit_iff)
qed

lemma htonll_le: "htonll True v = ucast (bswap32 (ucast v OR ucast (drop_bit 32 v)))"
  by (simp only: htonll_def htonl_def ucast_low bswap32_or if_True)

lemma htonll_htonll: "htonll le (htonll le v) = folded le v"
proof (cases le)
  case True
  define x :: u32 where "x = ucast v OR ucast (drop_bit 32 v)"
  have hi: "ucast (drop_bit 32 (ucast (bswap32 x) :: u64)) = (0 :: u32)"
    by (rule bit_eqI) (auto simp: bit_ucast_iff bit_drop_bit_eq dest: bit_imp_le_length)
  have lo: "ucast (ucast (bswap32 x) :: u64) = bswap32 x"
    by (rule bit_eqI) (auto simp: bit_ucast_iff dest: bit_imp_le_length)
  have "htonll True v = ucast (bswap32 x)" by (simp only: htonll_le x_def)
  then have "htonll True (htonll True v) = ucast (bswap32 (bswap32 x OR 0))"
    by (simp only: htonll_le [of "ucast (bswap32 x)"] lo hi)
  also have "\<dots> = ucast x" by (simp add: bswap32_bswap32)
  also have "\<dots> = take_bit 32 v OR drop_bit 32 v"
    by (rule bit_eqI) (auto simp: x_def bit_ucast_iff bit_or_iff bit_take_bit_iff bit_drop_bit_eq dest: bit_imp_le_length)
  finally show ?thesis using True by (simp add: folded_def)
qed (simp add: htonll_def folded_def)

lemma folded_id: "folded le v = v \<longleftrightarrow> \<not> le \<or> v < 2 ^ 32"
proof (cases le)
  case True
  have "take_bit 32 v OR drop_bit 32 v = v \<longleftrightarrow> drop_bit 32 v = 0"
  proof
    assume e: "take_bit 32 v OR drop_bit 32 v = v"
    show "drop_bit 32 v = 0"
    proof (rule bit_eqI)
      fix n
      have "bit (take_bit 32 v OR drop_bit 32 v) (32 + n) \<longleftrightarrow> bit v (32 + n)" using e by simp
      then show "bit (drop_bit 32 v) n \<longleftrightarrow> bit 0 n"
        by (auto simp: bit_or_iff bit_take_bit_iff bit_drop_bit_eq dest: bit_imp_le_length)
    qed
  next
    assume d: "drop_bit 32 v = 0"
    then have "take_bit 32 v = v" by (simp only: take_bit_eq_self_iff_drop_bit_eq_0)
    with d show "take_bit 32 v OR drop_bit 32 v = v" by simp
  qed
  moreover have "drop_bit 32 v = 0 \<longleftrightarrow> v < 2 ^ 32"
  proof -
    have "drop_bit 32 v = 0 \<longleftrightarrow> unat (drop_bit 32 v) = 0" by (simp only: unsigned_eq_0_iff)
    also have "\<dots> \<longleftrightarrow> unat v < 2 ^ 32" by (subst unat_drop_bit_eq, subst drop_bit_eq_div) (simp add: div_eq_0_iff)
    finally show ?thesis by (simp add: word_less_nat_alt)
  qed
  ultimately show ?thesis using True by (simp add: folded_def)
qed (simp add: folded_def)

section \<open>Entries in memory\<close>

lemma length_be_bytes [simp]: "length (be_bytes n v) = n"
  by (induction n arbitrary: v) simp_all

lemma be_val_append: "be_val acc (s @ t) = be_val (be_val acc s) t"
  by (induction s arbitrary: acc) simp_all

lemma be_val_bytes: "be_val 0 (be_bytes n v) = v mod 256 ^ n"
proof (induction n arbitrary: v)
  case (Suc n)
  have "v div 256 mod 256 ^ n * 256 + v mod 256 = v mod (256 * 256 ^ n)" by (simp add: mod_mult2_eq)
  with Suc show ?case by (simp add: be_val_append)
qed simp

lemma length_mem_of [simp]: "length (mem_of le n v) = n"
  by (simp add: mem_of_def)

lemma val_of_mem: "val_of le (mem_of le n v) = v mod 256 ^ n"
  by (simp add: val_of_def mem_of_def be_val_bytes)

lemma field_mem:
  assumes "drop off s = mem_of le n (unat w) @ r" and "256 ^ n = (2 :: nat) ^ LENGTH('a)"
  shows "field le off n s = (w :: 'a::len word)"
proof -
  have "unat w < 2 ^ LENGTH('a)" by (rule unsigned_less)
  then have "unat w mod 256 ^ n = unat w" using assms(2) by simp
  with assms(1) show ?thesis by (simp add: field_def val_of_mem)
qed

lemma be_bytes_0: "be_bytes n 0 = replicate n NUL"
  by (induction n) (simp_all add: replicate_append_same)

lemma mem_of_0: "mem_of le n 0 = replicate n NUL"
  by (simp add: mem_of_def be_bytes_0)

text \<open>A file of entries of a fixed size.\<close>

locale ring =
  fixes enc :: "'e \<Rightarrow> string" and dec :: "string \<Rightarrow> 'e" and zero :: 'e and esize :: nat
  assumes length_enc: "length (enc e) = esize" and dec_enc: "dec (enc e) = e"
    and enc_zero: "enc zero = replicate esize NUL" and esize_bounds: "0 < esize" "esize \<le> 40"
begin

text \<open>The last \<open>STEP_COUNT\<close> entries, with empty ones in front.\<close>

definition window :: "'e list \<Rightarrow> 'e list" where
  "window es = drop (length es) (replicate STEP_COUNT zero @ es)"

definition holds :: "string \<Rightarrow> 'e list \<Rightarrow> bool" where
  "holds c es \<longleftrightarrow> c = concat (map enc (window es))"

lemma length_concat_enc: "length (concat (map enc es)) = esize * length es"
  by (induction es) (simp_all add: length_enc)

lemma length_window: "length (window es) = STEP_COUNT"
  by (simp add: window_def)

lemma length_holds: "holds c es \<Longrightarrow> length c = esize * STEP_COUNT"
  by (simp add: holds_def length_concat_enc length_window)

lemma holds_not_Nil: "holds c es \<Longrightarrow> c \<noteq> []"
  using length_holds [of c es] esize_bounds(1) by (auto simp: STEP_COUNT_def)

lemma holds_zero: "holds (replicate (esize * STEP_COUNT) NUL) []"
proof -
  have "concat (map enc (replicate n zero)) = replicate (esize * n) NUL" for n
    by (induction n) (simp_all add: enc_zero replicate_add)
  then show ?thesis by (simp add: holds_def window_def)
qed

lemma window_snoc: "window (es @ [e]) = tl (window es) @ [e]"
proof -
  define xs where "xs = replicate STEP_COUNT zero @ es"
  have "Suc (length es) \<le> length xs" by (simp add: xs_def STEP_COUNT_def)
  then have "drop (Suc (length es)) (xs @ [e]) = tl (drop (length es) xs) @ [e]" by (simp add: drop_Suc tl_drop)
  then show ?thesis by (simp add: window_def xs_def)
qed

text \<open>Adding an entry moves the others up.\<close>

lemma holds_shift: "holds c es \<Longrightarrow> holds (take (length c) (drop esize c @ enc e) @ drop (esize * STEP_COUNT) c) (es @ [e])"
proof -
  assume c: "holds c es"
  obtain x xs where w: "window es = x # xs" using length_window [of es] by (cases "window es") (auto simp: STEP_COUNT_def)
  have "drop esize c = concat (map enc xs)" using c w by (simp add: holds_def length_enc)
  then have "drop esize c @ enc e = concat (map enc (window (es @ [e])))" by (simp add: window_snoc w)
  moreover have "length (drop esize c @ enc e) = length c"
    using length_holds [OF c] esize_bounds(1) by (simp add: length_enc STEP_COUNT_def)
  ultimately show ?thesis using length_holds [OF c] by (simp add: holds_def)
qed

lemma map_file_holds: "holds c es \<Longrightarrow> map_file (esize * STEP_COUNT) c = Some c"
  using length_holds [of c es] holds_not_Nil [of c es] by (simp add: map_file_def)

lemma update_file_holds:
  assumes "fs_files fs path = Some c" and "holds c es" and "be_open e path" and "be_mmap e path"
  shows "\<exists>c'. update_file e path (enc x) esize fs = Some (0, fs\<lparr>fs_files := (fs_files fs)(path \<mapsto> c')\<rparr>) \<and> holds c' (es @ [x])"
  by (rule exI [of _ "take (length c) (drop esize c @ enc x) @ drop (esize * STEP_COUNT) c"])
    (use assms holds_shift [OF assms(2), of x] in \<open>simp add: update_file_def map_file_holds [OF assms(2)]\<close>)

lemma init_writes_zeros:
  "(\<And>n. be_write e n = Some 40) \<Longrightarrow> length c = off \<Longrightarrow> init_writes e esize n off c = c @ replicate (esize * n) NUL"
proof (induction n arbitrary: off c)
  case (Suc n)
  have "init_writes e esize (Suc n) off c = init_writes e esize n (off + esize) (c @ replicate esize NUL)"
    using Suc.prems esize_bounds(2) by (simp add: min_absorb2)
  also have "\<dots> = (c @ replicate esize NUL) @ replicate (esize * n) NUL" by (intro Suc.IH Suc.prems) (simp add: Suc.prems(2))
  finally show ?case by (simp add: replicate_add)
qed simp

end

text \<open>System calls that work.\<close>

definition bwc_ok :: "bwc_env \<Rightarrow> bool" where
  "bwc_ok e \<longleftrightarrow> be_mkdir e = (\<lambda>p. True) \<and> be_open e = (\<lambda>p. True) \<and> be_mmap e = (\<lambda>p. True) \<and> be_write e = (\<lambda>n. Some 40)"

lemma init_dirs_ok: "bwc_ok e \<Longrightarrow> \<exists>d. init_dirs e pre r fs = (True, pre @ r, fs\<lparr>fs_dirs := d\<rparr>)"
proof (induction r arbitrary: pre fs)
  case Nil
  show ?case by (intro exI [of _ "fs_dirs fs"]) simp
next
  case (Cons c r)
  show ?case
    using Cons.IH [OF Cons.prems, of "pre @ [c]" fs] Cons.IH [OF Cons.prems, of "pre @ [c]" "fs\<lparr>fs_dirs := pre # fs_dirs fs\<rparr>"] Cons.prems
    by (auto simp: bwc_ok_def)
qed

context ring
begin

lemma update_stat_holds:
  assumes "bwc_ok e" and "case fs_files fs path of None \<Rightarrow> es = [] | Some c \<Rightarrow> holds c es"
  shows "\<exists>fs' c'. update_stat e path (enc x) esize fs = Some (0, [], fs') \<and> fs_files fs' = (fs_files fs)(path \<mapsto> c') \<and> holds c' (es @ [x])"
proof -
  have ok: "be_open e path" "be_mmap e path" "\<And>n. be_write e n = Some 40" using assms(1) by (simp_all add: bwc_ok_def)
  show ?thesis
  proof (cases "fs_files fs path")
    case None
    from init_dirs_ok [OF assms(1), of "take 1 path" "drop 1 path" fs] obtain d where
      d: "init_directory e path fs = (True, path, fs\<lparr>fs_dirs := d\<rparr>)" by (auto simp: init_directory_def)
    define fs1 where "fs1 = fs\<lparr>fs_dirs := d, fs_files := (fs_files fs)(path \<mapsto> replicate (esize * STEP_COUNT) NUL)\<rparr>"
    have init: "init_file e path esize fs = (0, path, fs1)"
      using init_writes_zeros [OF ok(3), of "[]" 0 STEP_COUNT] by (simp add: init_file_def d None ok(1) fs1_def)
    have "fs_files fs1 path = Some (replicate (esize * STEP_COUNT) NUL)" by (simp add: fs1_def)
    from update_file_holds [OF this holds_zero ok(1,2), of x] obtain c' where
      "update_file e path (enc x) esize fs1 = Some (0, fs1\<lparr>fs_files := (fs_files fs1)(path \<mapsto> c')\<rparr>)" "holds c' [x]" by auto
    with None init assms(2) show ?thesis by (auto simp: update_stat_def fs1_def intro!: exI [of _ c'])
  next
    case (Some c)
    with assms(2) have "holds c es" by simp
    from update_file_holds [OF Some this ok(1,2), of x] Some show ?thesis by (auto simp: update_stat_def)
  qed
qed

end

text \<open>An entry added with the system calls \<open>fst s\<close>.\<close>

definition stat_sample :: "string \<Rightarrow> nat \<Rightarrow> bwc_env \<times> string \<Rightarrow> bwc_fs \<Rightarrow> bwc_fs option" where
  "stat_sample path esize s fs = map_option (\<lambda>(rv, msg, fs1). fs1) (update_stat (fst s) path (snd s) esize fs)"

lemma fold_opt_map: "(\<And>x fs. x \<in> set xs \<Longrightarrow> f x fs = g (h x) fs) \<Longrightarrow> fold_opt f xs fs = fold_opt g (map h xs) fs"
  by (induction xs arbitrary: fs) (simp_all split: option.split)

text \<open>The lines of a list of entries; entries without a time are left out.\<close>

fun dump_lines :: "('e \<Rightarrow> string option) \<Rightarrow> 'e list \<Rightarrow> string" where
  "dump_lines shw [] = []"
| "dump_lines shw (e # es) = (case shw e of None \<Rightarrow> [] | Some t \<Rightarrow> t @ (if es \<noteq> [] then '','' else []) @ [LF]) @ dump_lines shw es"

lemma dump_lines_map: "(\<And>e. e \<in> set es \<Longrightarrow> shw' e = shw (f e)) \<Longrightarrow> dump_lines shw (map f es) = dump_lines shw' es"
  by (induction es) (simp_all split: option.split)

context ring
begin

lemma dump_loop_lines: "dump_loop esize (\<lambda>s. shw (dec s)) (p @ concat (map enc es)) (length p) = dump_lines shw es"
proof (induction es arbitrary: p)
  case Nil
  show ?case by (subst dump_loop.simps) simp
next
  case (Cons e es)
  have "es \<noteq> [] \<longleftrightarrow> length p + esize < length (p @ concat (map enc (e # es)))"
    using esize_bounds(1) by (cases es) (simp_all add: length_enc length_concat_enc)
  moreover have "take esize (drop (length p) (p @ concat (map enc (e # es)))) = enc e" by (simp add: length_enc)
  moreover have "length p < length (p @ concat (map enc (e # es)))" using esize_bounds(1) by (simp add: length_enc)
  moreover have "dump_loop esize (\<lambda>s. shw (dec s)) (p @ concat (map enc (e # es))) (length p + esize) = dump_lines shw es"
    using Cons [of "p @ enc e"] by (simp add: length_enc)
  ultimately show ?case
    using esize_bounds(1) by (subst dump_loop.simps) (simp add: dec_enc del: append_assoc split: option.split)
qed

lemma dump_lines_zeros: "shw zero = None \<Longrightarrow> dump_lines shw (replicate n zero @ es) = dump_lines shw es"
  by (induction n) simp_all

lemma dump_window:
  assumes "shw zero = None"
  shows "dump_lines shw (window es) = dump_lines shw (drop (length es - STEP_COUNT) es)"
  unfolding window_def drop_append drop_replicate length_replicate by (rule dump_lines_zeros [of shw, OF assms])

lemma run_dump_holds:
  assumes "bwc_ok e" and "fs_files fs path = Some c" and "holds c es" and "shw zero = None"
  shows "run_dump e path esize (\<lambda>s. shw (dec s)) fs = Some (0, dump_lines shw (drop (length es - STEP_COUNT) es))"
proof -
  have "mmap_file e path esize fs = Some (Some c)"
    using assms(1,2) map_file_holds [OF assms(3)] by (simp add: mmap_file_def bwc_ok_def mult.commute)
  moreover have "dump_loop esize (\<lambda>s. shw (dec s)) c 0 = dump_lines shw (window es)"
    using assms(3) dump_loop_lines [of shw "[]" "window es"] by (simp add: holds_def)
  ultimately show ?thesis by (simp add: run_dump_def dump_window [of shw, OF assms(4)])
qed

lemma samples_hold:
  assumes "list_all (\<lambda>x. bwc_ok (fst x)) xs" and "case fs_files fs path of None \<Rightarrow> es = [] | Some c \<Rightarrow> holds c es"
  shows "\<exists>fs'. fold_opt (stat_sample path esize) (map (apsnd enc) xs) fs = Some fs' \<and>
    (case fs_files fs' path of None \<Rightarrow> es @ map snd xs = [] | Some c \<Rightarrow> holds c (es @ map snd xs))"
  using assms
proof (induction xs arbitrary: fs es)
  case (Cons x xs)
  obtain e y where x: "x = (e, y)" by (cases x)
  have "bwc_ok e" using Cons.prems(1) by (simp add: x)
  from update_stat_holds [OF this Cons.prems(2), of y] obtain fs1 c where
    u: "update_stat e path (enc y) esize fs = Some (0, [], fs1)" "fs_files fs1 = (fs_files fs)(path \<mapsto> c)" "holds c (es @ [y])" by blast
  have "stat_sample path esize (e, enc y) fs = Some fs1" using u(1) by (simp add: stat_sample_def)
  moreover from u(2,3) Cons.IH [where fs = fs1 and es = "es @ [y]"] Cons.prems(1) obtain fs' where
    "fold_opt (stat_sample path esize) (map (apsnd enc) xs) fs1 = Some fs'"
    "case fs_files fs' path of None \<Rightarrow> (es @ [y]) @ map snd xs = [] | Some c \<Rightarrow> holds c ((es @ [y]) @ map snd xs)" by auto
  moreover have "(es @ [y]) @ map snd xs = es @ map snd (x # xs)" by (simp add: x)
  ultimately show ?case by (intro exI [of _ fs'] conjI) (simp add: x, simp only:)
qed (simp cong: option.case_cong)

text \<open>After samples of a file that did not exist, the last of them are printed.\<close>

lemma samples_dump:
  assumes "list_all (\<lambda>x. bwc_ok (fst x)) xs" and "xs \<noteq> []" and "fs_files fs path = None" and "bwc_ok e" and "shw zero = None"
  shows "\<exists>fs'. fold_opt (stat_sample path esize) (map (apsnd enc) xs) fs = Some fs' \<and>
    run_dump e path esize (\<lambda>s. shw (dec s)) fs' = Some (0, dump_lines shw (drop (length xs - STEP_COUNT) (map snd xs)))"
proof -
  from samples_hold [OF assms(1), where fs = fs and path = path and es = "[]"] assms(2,3) obtain fs' c where
    "fold_opt (stat_sample path esize) (map (apsnd enc) xs) fs = Some fs'" "fs_files fs' path = Some c" "holds c (map snd xs)"
    by (auto split: option.splits)
  with run_dump_holds [OF assms(4) this(2,3), of shw, OF assms(5)] show ?thesis by simp
qed

end

interpretation traffic: ring "traffic_mem le" "traffic_at le" "\<lparr>te_time = 0, te_rxb = 0, te_rxp = 0, te_txb = 0, te_txp = 0\<rparr>" 40 for le
proof
  fix e :: traffic_entry
  show "length (traffic_mem le e) = 40" by (simp add: traffic_mem_def)
  show "traffic_at le (traffic_mem le e) = e"
    unfolding traffic_at_def traffic_mem_def
    by (cases e) (simp add: field_mem [where r = "_"])
  show "traffic_mem le \<lparr>te_time = 0, te_rxb = 0, te_rxp = 0, te_txb = 0, te_txp = 0\<rparr> = replicate 40 NUL"
    by (simp add: traffic_mem_def mem_of_0 replicate_add [symmetric])
qed simp_all

interpretation conns: ring "conn_mem le" "conn_at le" "\<lparr>ce_time = 0, ce_udp = 0, ce_tcp = 0, ce_other = 0, ce_pad = 0\<rparr>" 24 for le
proof
  fix e :: conn_entry
  show "length (conn_mem le e) = 24" by (simp add: conn_mem_def)
  show "conn_at le (conn_mem le e) = e"
    unfolding conn_at_def conn_mem_def by (cases e) (simp add: field_mem [where r = "_"])
  show "conn_mem le \<lparr>ce_time = 0, ce_udp = 0, ce_tcp = 0, ce_other = 0, ce_pad = 0\<rparr> = replicate 24 NUL"
    by (simp add: conn_mem_def mem_of_0 replicate_add [symmetric])
qed simp_all

interpretation loads: ring "load_mem le" "load_at le" "\<lparr>ld_time = 0, ld_load1 = 0, ld_load5 = 0, ld_load15 = 0, ld_pad = 0\<rparr>" 16 for le
proof
  fix e :: load_entry
  show "length (load_mem le e) = 16" by (simp add: load_mem_def)
  show "load_at le (load_mem le e) = e"
    unfolding load_at_def load_mem_def by (cases e) (simp add: field_mem [where r = "_"])
  show "load_mem le \<lparr>ld_time = 0, ld_load1 = 0, ld_load5 = 0, ld_load15 = 0, ld_pad = 0\<rparr> = replicate 16 NUL"
    by (simp add: load_mem_def mem_of_0 replicate_add [symmetric])
qed simp_all

section \<open>What the pages show\<close>

lemma folded_eq_0: "folded le v = 0 \<longleftrightarrow> v = 0"
proof
  assume "folded le v = 0"
  then have "\<not> bit (folded le v) n" for n by simp
  then have b: "\<not> bit (take_bit 32 v OR drop_bit 32 v) n" if le for n using that by (simp add: folded_def)
  show "v = 0"
  proof (cases le)
    case True
    show ?thesis
    proof (rule bit_eqI)
      fix n
      show "bit v n \<longleftrightarrow> bit 0 n"
        using b [OF True, of n] b [OF True, of "n - 32"] by (cases "n < 32") (auto simp: bit_or_iff bit_take_bit_iff bit_drop_bit_eq)
    qed
  qed (use \<open>folded le v = 0\<close> in \<open>simp add: folded_def\<close>)
qed (simp add: folded_def)

lemma htonll_eq_0: "htonll le v = 0 \<longleftrightarrow> v = 0"
proof
  have z: "htonll le 0 = 0" by (simp add: htonll_def htonl_def bswap32_0)
  then show "v = 0 \<Longrightarrow> htonll le v = 0" by simp
  assume "htonll le v = 0"
  with z have "folded le v = 0" by (metis htonll_htonll)
  then show "v = 0" by (simp only: folded_eq_0)
qed

text \<open>Samples, taken with the system calls they come with.\<close>

type_synonym if_counts = "bwc_env \<times> u64 \<times> u64 \<times> u64 \<times> u64"

definition if_sample :: "string \<Rightarrow> if_counts \<Rightarrow> bwc_fs \<Rightarrow> bwc_fs option" where
  "if_sample ifname s fs = (case s of (e, rxb, rxp, txb, txp) \<Rightarrow>
     map_option (\<lambda>(rv, msg, fs1). fs1) (update_ifstat e ifname rxb rxp txb txp fs))"

definition if_entry :: "bool \<Rightarrow> if_counts \<Rightarrow> traffic_entry" where
  "if_entry le s = (case s of (e, rxb, rxp, txb, txp) \<Rightarrow>
     \<lparr>te_time = htonll le (be_time e), te_rxb = htonll le rxb, te_rxp = htonll le rxp, te_txb = htonll le txb, te_txp = htonll le txp\<rparr>)"

definition if_shown :: "bool \<Rightarrow> if_counts \<Rightarrow> string option" where
  "if_shown le s = (case s of (e, rxb, rxp, txb, txp) \<Rightarrow>
     Some (fields_text (map (\<lambda>v. unat (folded le v)) [be_time e, rxb, rxp, txb, txp])))"

definition sample_ok :: "bool \<Rightarrow> bwc_env \<times> 'a \<Rightarrow> bool" where
  "sample_ok le s \<longleftrightarrow> bwc_ok (fst s) \<and> be_le (fst s) = le \<and> be_time (fst s) \<noteq> 0"

lemma if_sample_stat: "sample_ok le s \<Longrightarrow> if_sample ifname s fs = stat_sample (if_path ifname) 40 (apsnd (traffic_mem le) (fst s, if_entry le s)) fs"
  by (auto simp: sample_ok_def if_sample_def stat_sample_def update_ifstat_def if_entry_def split: prod.splits)

lemma if_entry_shown: "sample_ok le s \<Longrightarrow> if_shown le s = traffic_text le (if_entry le s)"
  by (auto simp: sample_ok_def traffic_text_def if_entry_def if_shown_def htonll_eq_0 htonll_htonll split: prod.splits)

lemma samples_env: "list_all (sample_ok le) ss \<Longrightarrow> list_all (\<lambda>x. bwc_ok (fst x)) (map (\<lambda>s. (fst s, f s)) ss)"
  by (induction ss) (simp_all add: sample_ok_def)

lemma sample_okD: "list_all (sample_ok le) ss \<Longrightarrow> s \<in> set ss \<Longrightarrow> sample_ok le s"
  by (simp add: list_all_iff)

lemma map_pair_apsnd: "map (apsnd g) (map (\<lambda>s. (fst s, f s)) ss) = map (\<lambda>s. apsnd g (fst s, f s)) ss" "map snd (map (\<lambda>s. (fst s, f s)) ss) = map f ss"
  by simp_all

text \<open>
  C29: After any number of samples of an interface that was not known before, \<open>run_dump_ifname\<close> prints the last 60 of them, the
  oldest first, one per line with a comma behind every line but the last, with all five numbers as they were given, except that
  on a little-endian machine the upper half of a number is laid over the lower one, which changes exactly
  the numbers from \<^verbatim>\<open>2^32\<close> on.
\<close>
theorem bwc_dump_ifname:
  assumes "list_all (sample_ok le) ss" and "ss \<noteq> []" and "fs_files fs (if_path ifname) = None" and "bwc_ok e" and "be_le e = le"
  shows "(\<exists>fs'. fold_opt (if_sample ifname) ss fs = Some fs' \<and>
      run_dump_ifname e ifname fs' = Some (0, dump_lines (if_shown le) (drop (length ss - STEP_COUNT) ss))) \<and>
    (folded le v = v \<longleftrightarrow> \<not> le \<or> v < 2 ^ 32)"
proof
  have "fold_opt (if_sample ifname) ss fs = fold_opt (stat_sample (if_path ifname) 40) (map (\<lambda>s. apsnd (traffic_mem le) (fst s, if_entry le s)) ss) fs"
    by (rule fold_opt_map) (rule if_sample_stat [OF sample_okD [OF assms(1)]])
  moreover have "dump_lines (traffic_text le) (map (if_entry le) (drop (length ss - STEP_COUNT) ss)) = dump_lines (if_shown le) (drop (length ss - STEP_COUNT) ss)"
    by (rule dump_lines_map) (rule if_entry_shown [OF sample_okD [OF assms(1) in_set_dropD]])
  ultimately show "\<exists>fs'. fold_opt (if_sample ifname) ss fs = Some fs' \<and>
      run_dump_ifname e ifname fs' = Some (0, dump_lines (if_shown le) (drop (length ss - STEP_COUNT) ss))"
    using traffic.samples_dump [OF samples_env [OF assms(1), where f = "if_entry le"] _ assms(3,4), where shw = "traffic_text le"] assms(2,5)
    unfolding map_pair_apsnd run_dump_ifname_def by (simp add: traffic_text_def drop_map)
qed (rule folded_id)

text \<open>The connections and the load in the same way; their counters are not changed.\<close>

type_synonym cn_counts = "bwc_env \<times> u32 \<times> u32 \<times> u32 \<times> u32"

definition cn_sample :: "cn_counts \<Rightarrow> bwc_fs \<Rightarrow> bwc_fs option" where
  "cn_sample s fs = (case s of (e, pad, udp, tcp, other) \<Rightarrow> map_option (\<lambda>(rv, msg, fs1). fs1) (update_cnstat e pad udp tcp other fs))"

definition cn_entry :: "bool \<Rightarrow> cn_counts \<Rightarrow> conn_entry" where
  "cn_entry le s = (case s of (e, pad, udp, tcp, other) \<Rightarrow>
     \<lparr>ce_time = htonll le (be_time e), ce_udp = htonl le udp, ce_tcp = htonl le tcp, ce_other = htonl le other, ce_pad = pad\<rparr>)"

definition cn_shown :: "bool \<Rightarrow> cn_counts \<Rightarrow> string option" where
  "cn_shown le s = (case s of (e, pad, udp, tcp, other) \<Rightarrow>
     Some (fields_text (unat (folded le (be_time e)) # map unat [udp, tcp, other])))"

lemma bwc_dump_conns:
  assumes "list_all (sample_ok le) ss" and "ss \<noteq> []" and "fs_files fs cn_path = None" and "bwc_ok e" and "be_le e = le"
  shows "\<exists>fs'. fold_opt cn_sample ss fs = Some fs' \<and>
    run_dump_conns e fs' = Some (0, dump_lines (cn_shown le) (drop (length ss - STEP_COUNT) ss))"
proof -
  have "cn_sample s fs = stat_sample cn_path 24 (apsnd (conn_mem le) (fst s, cn_entry le s)) fs" if "sample_ok le s" for s fs
    using that by (auto simp: sample_ok_def cn_sample_def stat_sample_def update_cnstat_def cn_entry_def split: prod.splits)
  then have "fold_opt cn_sample ss fs = fold_opt (stat_sample cn_path 24) (map (\<lambda>s. apsnd (conn_mem le) (fst s, cn_entry le s)) ss) fs"
    by (intro fold_opt_map) (use sample_okD [OF assms(1)] in blast)
  moreover have "cn_shown le s = conn_text le (cn_entry le s)" if "sample_ok le s" for s
    using that by (auto simp: sample_ok_def conn_text_def cn_entry_def cn_shown_def htonll_eq_0 htonll_htonll split: prod.splits)
  then have "dump_lines (conn_text le) (map (cn_entry le) (drop (length ss - STEP_COUNT) ss)) = dump_lines (cn_shown le) (drop (length ss - STEP_COUNT) ss)"
    by (intro dump_lines_map) (use sample_okD [OF assms(1) in_set_dropD] in blast)
  ultimately show ?thesis
    using conns.samples_dump [OF samples_env [OF assms(1), where f = "cn_entry le"] _ assms(3,4), where shw = "conn_text le"] assms(2,5)
    unfolding map_pair_apsnd run_dump_conns_def by (simp add: conn_text_def drop_map)
qed

type_synonym ld_counts = "bwc_env \<times> u16 \<times> u16 \<times> u16 \<times> u16"

definition ld_sample :: "ld_counts \<Rightarrow> bwc_fs \<Rightarrow> bwc_fs option" where
  "ld_sample s fs = (case s of (e, pad, l1, l5, l15) \<Rightarrow> map_option (\<lambda>(rv, msg, fs1). fs1) (update_ldstat e pad l1 l5 l15 fs))"

definition ld_entry :: "bool \<Rightarrow> ld_counts \<Rightarrow> load_entry" where
  "ld_entry le s = (case s of (e, pad, l1, l5, l15) \<Rightarrow>
     \<lparr>ld_time = htonll le (be_time e), ld_load1 = htons le l1, ld_load5 = htons le l5, ld_load15 = htons le l15, ld_pad = pad\<rparr>)"

definition ld_shown :: "bool \<Rightarrow> ld_counts \<Rightarrow> string option" where
  "ld_shown le s = (case s of (e, pad, l1, l5, l15) \<Rightarrow>
     Some (fields_text (unat (folded le (be_time e)) # map unat [l1, l5, l15])))"

lemma bwc_dump_load:
  assumes "list_all (sample_ok le) ss" and "ss \<noteq> []" and "fs_files fs ld_path = None" and "bwc_ok e" and "be_le e = le"
  shows "\<exists>fs'. fold_opt ld_sample ss fs = Some fs' \<and>
    run_dump_load e fs' = Some (0, dump_lines (ld_shown le) (drop (length ss - STEP_COUNT) ss))"
proof -
  have "ld_sample s fs = stat_sample ld_path 16 (apsnd (load_mem le) (fst s, ld_entry le s)) fs" if "sample_ok le s" for s fs
    using that by (auto simp: sample_ok_def ld_sample_def stat_sample_def update_ldstat_def ld_entry_def split: prod.splits)
  then have "fold_opt ld_sample ss fs = fold_opt (stat_sample ld_path 16) (map (\<lambda>s. apsnd (load_mem le) (fst s, ld_entry le s)) ss) fs"
    by (intro fold_opt_map) (use sample_okD [OF assms(1)] in blast)
  moreover have "ld_shown le s = load_text le (ld_entry le s)" if "sample_ok le s" for s
    using that by (auto simp: sample_ok_def load_text_def ld_entry_def ld_shown_def htonll_eq_0 htonll_htonll split: prod.splits)
  then have "dump_lines (load_text le) (map (ld_entry le) (drop (length ss - STEP_COUNT) ss)) = dump_lines (ld_shown le) (drop (length ss - STEP_COUNT) ss)"
    by (intro dump_lines_map) (use sample_okD [OF assms(1) in_set_dropD] in blast)
  ultimately show ?thesis
    using loads.samples_dump [OF samples_env [OF assms(1), where f = "ld_entry le"] _ assms(3,4), where shw = "load_text le"] assms(2,5)
    unfolding map_pair_apsnd run_dump_load_def by (simp add: load_text_def drop_map)
qed

definition demo_bwc_env :: bwc_env where
  "demo_bwc_env = \<lparr>be_le = True, be_mkdir = (\<lambda>p. True), be_open = (\<lambda>p. True), be_write = (\<lambda>n. Some 40), be_mmap = (\<lambda>p. True),
     be_strerror = [], be_time = 7\<rparr>"

theorem bwc_dump_ifname_witness:
  "\<exists>fs'. fold_opt (if_sample ''eth0'') [(demo_bwc_env, 1 :: u64, 2 :: u64, 3 :: u64, 0x100000004 :: u64)] \<lparr>fs_files = (\<lambda>p. None), fs_dirs = []\<rparr> = Some fs' \<and>
    run_dump_ifname demo_bwc_env ''eth0'' fs' = Some (0, ''[ 7, 1, 2, 3, 5 ]'' @ [LF])"
proof -
  have d: "fmt_dec 7 = ''7''" "fmt_dec (Suc 0) = ''1''" "fmt_dec 2 = ''2''" "fmt_dec 3 = ''3''" "fmt_dec 5 = ''5''" by code_simp+
  have "sample_ok True (demo_bwc_env, 1 :: u64, 2 :: u64, 3 :: u64, 0x100000004 :: u64)" "bwc_ok demo_bwc_env" "be_le demo_bwc_env"
    by (simp_all add: sample_ok_def bwc_ok_def demo_bwc_env_def)
  moreover have "dump_lines (if_shown True) (drop (length [(demo_bwc_env, 1 :: u64, 2 :: u64, 3 :: u64, 0x100000004 :: u64)] - STEP_COUNT) [(demo_bwc_env, 1 :: u64, 2 :: u64, 3 :: u64, 0x100000004 :: u64)]) =
      ''[ 7, 1, 2, 3, 5 ]'' @ [LF]"
    by (simp add: if_shown_def fields_text_def folded_def demo_bwc_env_def STEP_COUNT_def d)
  ultimately show ?thesis
    using bwc_dump_ifname [of True "[(demo_bwc_env, 1 :: u64, 2 :: u64, 3 :: u64, 0x100000004 :: u64)]" "\<lparr>fs_files = (\<lambda>p. None), fs_dirs = []\<rparr>" "''eth0''" demo_bwc_env 0]
    by (simp del: fold_opt.simps append.simps)
qed

end
